(* ===== verification/Instar_Base.thy ===== *)
theory Instar_Base
  imports Main "HOL-Library.Word"
begin

text \<open>
  The prelude of the development: the machine types of the Rust sources, the arithmetic
  helpers of the Rust standard library that the crates call (\<^verbatim>\<open>checked_add\<close>,
  \<^verbatim>\<open>saturating_mul\<close>, \<^verbatim>\<open>div_ceil\<close>, \<dots>), byte slices and their big-endian codecs, and the
  collections of lemmas the component theories share.

  Conventions.  \<^verbatim>\<open>u8\<close>, \<^verbatim>\<open>u16\<close>, \<^verbatim>\<open>u32\<close> and \<^verbatim>\<open>u64\<close> are words of that width, whose \<open>+\<close>,
  \<open>-\<close> and \<open>*\<close> wrap as they do in the release builds the repository ships.  \<^verbatim>\<open>usize\<close>
  (slice lengths and indices) is \<^typ>\<open>nat\<close>.  A byte slice is a list of bytes.  A
  \<^verbatim>\<open>Result\<close> is a sum with the error on the left.
\<close>

unbundle bit_operations_syntax

type_synonym u8 = "8 word"
type_synonym u16 = "16 word"
type_synonym u32 = "32 word"
type_synonym u64 = "64 word"
type_synonym bytes = "8 word list"

named_theorems codec \<open>laws of the byte codecs\<close>
named_theorems slicing \<open>slices, splices and their lengths\<close>
named_theorems wordnat \<open>words read as natural numbers\<close>

section \<open>Results\<close>

definition bind_res :: "'e + 'a \<Rightarrow> ('a \<Rightarrow> 'e + 'b) \<Rightarrow> 'e + 'b" where
  "bind_res r f = (case r of Inl e \<Rightarrow> Inl e | Inr x \<Rightarrow> f x)"

lemma bind_res_simps [simp]:
  "bind_res (Inl e) f = Inl e"
  "bind_res (Inr x) f = f x"
  by (simp_all add: bind_res_def)

lemma bind_res_Inr [simp]: "bind_res r f = Inr y \<longleftrightarrow> (\<exists>x. r = Inr x \<and> f x = Inr y)"
  by (cases r) auto

definition ok_or :: "'a option \<Rightarrow> 'e \<Rightarrow> 'e + 'a" where
  "ok_or x e = (case x of None \<Rightarrow> Inl e | Some v \<Rightarrow> Inr v)"

lemma ok_or_simps [simp]: "ok_or None e = Inl e" "ok_or (Some v) e = Inr v"
  by (simp_all add: ok_or_def)

lemma ok_or_Inr [simp]: "ok_or x e = Inr v \<longleftrightarrow> x = Some v"
  by (cases x) auto

section \<open>Arithmetic of the Rust standard library\<close>

definition checked_add :: "'a::len word \<Rightarrow> 'a word \<Rightarrow> 'a word option" where
  "checked_add a b = (if unat a + unat b < 2 ^ LENGTH('a) then Some (a + b) else None)"

definition checked_mul :: "'a::len word \<Rightarrow> 'a word \<Rightarrow> 'a word option" where
  "checked_mul a b = (if unat a * unat b < 2 ^ LENGTH('a) then Some (a * b) else None)"

definition saturating_add :: "'a::len word \<Rightarrow> 'a word \<Rightarrow> 'a word" where
  "saturating_add a b = (if unat a + unat b < 2 ^ LENGTH('a) then a + b else - 1)"

definition saturating_mul :: "'a::len word \<Rightarrow> 'a word \<Rightarrow> 'a word" where
  "saturating_mul a b = (if unat a * unat b < 2 ^ LENGTH('a) then a * b else - 1)"

definition saturating_sub :: "'a::len word \<Rightarrow> 'a word \<Rightarrow> 'a word" where
  "saturating_sub a b = (if b \<le> a then a - b else 0)"

definition div_ceil :: "'a::len word \<Rightarrow> 'a word \<Rightarrow> 'a word" where
  "div_ceil a b = (if a mod b = 0 then a div b else a div b + 1)"

text \<open>Rust's \<^verbatim>\<open><<\<close> and \<^verbatim>\<open>>>\<close> in a release build mask the shift amount to the width of the shifted type.\<close>

definition shl :: "'a::len word \<Rightarrow> nat \<Rightarrow> 'a word" where
  "shl x n = push_bit (n mod LENGTH('a)) x"

definition shr :: "'a::len word \<Rightarrow> nat \<Rightarrow> 'a word" where
  "shr x n = drop_bit (n mod LENGTH('a)) x"

definition is_multiple_of :: "'a::len word \<Rightarrow> 'a word \<Rightarrow> bool" where
  "is_multiple_of a b = (if b = 0 then a = 0 else a mod b = 0)"

lemma checked_add_Some:
  "checked_add a b = Some c \<longleftrightarrow> unat a + unat b < 2 ^ LENGTH('a) \<and> c = a + b"
  for a b :: "'a::len word"
  by (auto simp: checked_add_def)

lemma checked_mul_Some:
  "checked_mul a b = Some c \<longleftrightarrow> unat a * unat b < 2 ^ LENGTH('a) \<and> c = a * b"
  for a b :: "'a::len word"
  by (auto simp: checked_mul_def)

lemma unat_add_small [wordnat]:
  "unat a + unat b < 2 ^ LENGTH('a) \<Longrightarrow> unat (a + b) = unat a + unat b"
  for a b :: "'a::len word"
  by (simp add: unat_word_ariths)

lemma unat_mult_small [wordnat]:
  "unat a * unat b < 2 ^ LENGTH('a) \<Longrightarrow> unat (a * b) = unat a * unat b"
  for a b :: "'a::len word"
  by (simp add: unat_word_ariths)

lemma unat_u64_less: "unat (x :: u64) < 2 ^ 64"
  using unsigned_less [of x, where 'a = nat] by simp

lemma unat_saturating_add [wordnat]:
  "unat (saturating_add a b) = min (unat a + unat b) (2 ^ LENGTH('a) - 1)"
  for a b :: "'a::len word"
  by (auto simp: saturating_add_def unat_add_small unsigned_minus_1_eq_mask mask_eq_exp_minus_1)

lemma unat_saturating_mul [wordnat]:
  "unat (saturating_mul a b) = min (unat a * unat b) (2 ^ LENGTH('a) - 1)"
  for a b :: "'a::len word"
  by (auto simp: saturating_mul_def unat_mult_small unsigned_minus_1_eq_mask mask_eq_exp_minus_1)

lemma unat_saturating_sub [wordnat]: "unat (saturating_sub a b) = unat a - unat b"
  by (auto simp: saturating_sub_def unat_sub word_le_nat_alt)

lemma unat_inc [wordnat]: "a < b \<Longrightarrow> unat (a + 1) = unat a + 1"
  for a b :: "'a::len word"
proof -
  assume "a < b"
  then have "unat a + 1 < 2 ^ LENGTH('a)"
    unfolding word_less_nat_alt
    by (metis Suc_eq_plus1 Suc_leI le_less_trans unsigned_less)
  then show ?thesis by (simp add: unat_word_ariths)
qed

lemma word_inc_le: "a < b \<Longrightarrow> a + 1 \<le> b" for a b :: "'a::len word"
  by (simp add: word_le_nat_alt unat_inc word_less_nat_alt)

lemma word_le_inc: "a < b \<Longrightarrow> a \<le> a + 1" for a b :: "'a::len word"
  by (simp add: word_le_nat_alt unat_inc)

lemma unat_div_ceil [wordnat]:
  fixes a b :: "'a::len word"
  assumes "b \<noteq> 0" shows "unat (div_ceil a b) = (unat a + unat b - 1) div unat b"
proof -
  obtain q r where q: "q = unat a div unat b" and r: "r = unat a mod unat b" by simp
  have b: "0 < unat b" using assms by (simp add: word_neq_0_conv unat_gt_0)
  have a: "unat a = q * unat b + r" "r < unat b" using b by (simp_all add: q r)
  have z: "a mod b = 0 \<longleftrightarrow> r = 0" by (simp add: r word_unat_eq_iff unat_mod)
  have "unat (a div b) = q" by (simp add: q unat_div)
  moreover have "unat (a div b + 1) = q + 1" if "r \<noteq> 0"
  proof -
    have "q + 1 \<le> unat a" using a that b
      by (metis One_nat_def Suc_leI add_mono_thms_linordered_semiring(1) le_add1 mult.commute mult_le_mono2 mult.right_neutral not_gr_zero)
    then have "q + 1 < 2 ^ LENGTH('a)" by (rule le_less_trans) (rule unsigned_less)
    then show ?thesis using \<open>unat (a div b) = q\<close> by (simp add: unat_add_small)
  qed
  moreover have "(unat a + unat b - 1) div unat b = (if r = 0 then q else q + 1)"
    using a b by (cases "r = 0") (auto intro!: div_nat_eqI simp: algebra_simps)
  ultimately show ?thesis using z by (auto simp: div_ceil_def)
qed

lemma shl_one [wordnat]: "n < LENGTH('a) \<Longrightarrow> unat (shl (1 :: 'a::len word) n) = 2 ^ n"
  by (simp add: shl_def unsigned_push_bit_eq take_bit_nat_eq_self del: push_bit_of_1)

lemma le_div_ceilD:
  fixes a b :: "'a::len word"
  assumes "b \<noteq> 0" "div_ceil a b \<le> k" shows "unat a \<le> unat k * unat b"
proof -
  have b: "0 < unat b" using assms(1) by (simp add: word_neq_0_conv unat_gt_0)
  have "(unat a + unat b - 1) div unat b \<le> unat k"
    using assms by (simp add: word_le_nat_alt unat_div_ceil)
  then have "(unat a + unat b - 1) < Suc (unat k) * unat b" using b by (simp add: div_less_iff_less_mult flip: less_Suc_eq_le)
  then show ?thesis using b by simp
qed

lemma and_shl_1: "n < LENGTH('a) \<Longrightarrow> w AND shl 1 n \<noteq> 0 \<longleftrightarrow> bit (w :: 'a::len word) n"
  by (simp add: shl_def and_exp_eq_0_iff_not_bit)

section \<open>Slices\<close>

text \<open>\<open>slice_at off n buf\<close> is the Rust slice \<^verbatim>\<open>&buf[off .. off + n]\<close> and \<open>splice_at off src buf\<close> is
  \<^verbatim>\<open>buf[off .. off + src.len()].copy_from_slice(src)\<close>; both are used under the bounds check
  that keeps the Rust indexing from panicking.\<close>

definition slice_at :: "nat \<Rightarrow> nat \<Rightarrow> 'a list \<Rightarrow> 'a list" where
  "slice_at off n buf = take n (drop off buf)"

definition splice_at :: "nat \<Rightarrow> 'a list \<Rightarrow> 'a list \<Rightarrow> 'a list" where
  "splice_at off src buf = take off buf @ src @ drop (off + length src) buf"

lemma length_slice [simp]: "off + n \<le> length buf \<Longrightarrow> length (slice_at off n buf) = n"
  by (simp add: slice_at_def)

lemma nth_slice [slicing]: "i < n \<Longrightarrow> off + n \<le> length buf \<Longrightarrow> slice_at off n buf ! i = buf ! (off + i)"
  by (simp add: slice_at_def)

lemma length_splice_at [simp]:
  "off + length src \<le> length buf \<Longrightarrow> length (splice_at off src buf) = length buf"
  by (simp add: splice_at_def)

lemma nth_splice_at [slicing]:
  assumes "off + length src \<le> length buf" and "i < length buf"
  shows "splice_at off src buf ! i =
    (if off \<le> i \<and> i < off + length src then src ! (i - off) else buf ! i)"
  using assms by (auto simp: splice_at_def nth_append min_def)

lemma slice_splice_same [simp]:
  "off + length src \<le> length buf \<Longrightarrow> n = length src \<Longrightarrow> slice_at off n (splice_at off src buf) = src"
  by (simp add: slice_at_def splice_at_def)

lemma slice_splice_disjoint:
  assumes "off + length src \<le> length buf" and "i + n \<le> length buf"
    and "i + n \<le> off \<or> off + length src \<le> i"
  shows "slice_at i n (splice_at off src buf) = slice_at i n buf"
proof (rule nth_equalityI)
  show "length (slice_at i n (splice_at off src buf)) = length (slice_at i n buf)"
    using assms by simp
next
  fix j assume "j < length (slice_at i n (splice_at off src buf))"
  then have j: "j < n" using assms by simp
  have "slice_at i n (splice_at off src buf) ! j = splice_at off src buf ! (i + j)"
    using assms j by (simp add: nth_slice)
  also have "\<dots> = buf ! (i + j)"
    using assms j by (subst nth_splice_at) auto
  also have "\<dots> = slice_at i n buf ! j"
    using assms j by (simp add: nth_slice)
  finally show "slice_at i n (splice_at off src buf) ! j = slice_at i n buf ! j" .
qed

lemma splice_slice_id: "off + n \<le> length buf \<Longrightarrow> splice_at off (slice_at off n buf) buf = buf"
  by (rule nth_equalityI) (auto simp: nth_splice_at nth_slice)

lemma splice_splice_same:
  "off + length s \<le> length buf \<Longrightarrow> length s' = length s \<Longrightarrow>
   splice_at off s' (splice_at off s buf) = splice_at off s' buf"
  by (rule nth_equalityI) (auto simp: nth_splice_at)

lemma slice_slice: "i + k \<le> n \<Longrightarrow> off + n \<le> length b \<Longrightarrow>
   slice_at i k (slice_at off n b) = slice_at (off + i) k b"
  by (simp add: slice_at_def drop_take min_def add.commute)

lemma splice_slice:
  assumes "i + length s \<le> n" "off + n \<le> length b"
  shows "splice_at off (splice_at i s (slice_at off n b)) b = splice_at (off + i) s b"
  using assms by (intro nth_equalityI) (auto simp: nth_splice_at nth_slice)

section \<open>Big-endian codecs\<close>

text \<open>\<^verbatim>\<open>from_be_bytes\<close> and \<^verbatim>\<open>to_be_bytes\<close> over natural numbers: the value of a byte string, most
  significant byte first, and the \<open>k\<close> low-order bytes of a number in that order.\<close>

definition be_val :: "bytes \<Rightarrow> nat" where
  "be_val bs = foldl (\<lambda>a b. a * 256 + unat b) 0 bs"

primrec be_enc :: "nat \<Rightarrow> nat \<Rightarrow> bytes" where
  "be_enc 0 n = []"
| "be_enc (Suc k) n = be_enc k (n div 256) @ [of_nat (n mod 256)]"

lemma be_val_Nil [simp]: "be_val [] = 0"
  by (simp add: be_val_def)

lemma be_val_snoc [simp]: "be_val (bs @ [b]) = be_val bs * 256 + unat b"
  by (simp add: be_val_def)

lemma length_be_enc [simp]: "length (be_enc k n) = k"
  by (induction k arbitrary: n) auto

lemma unat_byte_lt [simp]: "unat (b :: u8) < 256"
  using unsigned_less [of b, where 'a = nat] by simp

lemma be_val_less: "be_val bs < 256 ^ length bs"
proof (induction bs rule: rev_induct)
  case Nil
  then show ?case by simp
next
  case (snoc b bs)
  then have "be_val bs + 1 \<le> 256 ^ length bs" by simp
  then have "(be_val bs + 1) * 256 \<le> 256 ^ length bs * 256" by (rule mult_le_mono1)
  then show ?case using unat_byte_lt [of b] by (simp del: unat_byte_lt)
qed

lemma unat_of_nat_byte [simp]: "unat (of_nat (n mod 256) :: u8) = n mod 256"
  by (simp add: unat_of_nat)

lemma be_val_enc [codec]: "be_val (be_enc k n) = n mod 256 ^ k"
proof (induction k arbitrary: n)
  case 0
  then show ?case by simp
next
  case (Suc k)
  have "n mod 256 ^ Suc k = n div 256 mod 256 ^ k * 256 + n mod 256"
    by (simp add: mod_mult2_eq)
  then show ?case using Suc [of "n div 256"] by simp
qed

lemma be_enc_val [codec]: "k = length bs \<Longrightarrow> be_enc k (be_val bs) = bs"
proof (induction bs arbitrary: k rule: rev_induct)
  case Nil
  then show ?case by simp
next
  case (snoc b bs)
  have "unat b mod 256 = unat b" by simp
  then have "(be_val bs * 256 + unat b) mod 256 = unat b"
    by (metis add.commute mod_mult_self1)
  moreover have "(be_val bs * 256 + unat b) div 256 = be_val bs" by simp
  ultimately show ?case using snoc by simp
qed

definition u64_from_be :: "bytes \<Rightarrow> u64" where
  "u64_from_be bs = of_nat (be_val bs)"

definition u64_to_be :: "u64 \<Rightarrow> bytes" where
  "u64_to_be v = be_enc 8 (unat v)"

definition u32_from_be :: "bytes \<Rightarrow> u32" where
  "u32_from_be bs = of_nat (be_val bs)"

definition u16_from_be :: "bytes \<Rightarrow> u16" where
  "u16_from_be bs = of_nat (be_val bs)"

lemma length_u64_to_be [simp]: "length (u64_to_be v) = 8"
  by (simp add: u64_to_be_def)

lemma u64_from_to_be [simp]: "u64_from_be (u64_to_be v) = v"
proof -
  have "unat v < 256 ^ 8"
    using unsigned_less [of v, where 'a = nat] by simp
  then show ?thesis
    by (simp add: u64_from_be_def u64_to_be_def be_val_enc del: be_enc.simps)
qed

lemma u64_to_from_be: "length bs = 8 \<Longrightarrow> u64_to_be (u64_from_be bs) = bs"
proof -
  assume l: "length bs = 8"
  then have "be_val bs < 2 ^ 64"
    using be_val_less [of bs] by simp
  then have "unat (u64_from_be bs) = be_val bs"
    by (simp add: u64_from_be_def unat_of_nat)
  then show ?thesis
    using l by (simp add: u64_to_be_def be_enc_val)
qed

text \<open>\<^verbatim>\<open>read_u64_be\<close> of a slice: \<^const>\<open>None\<close> is the out-of-bounds panic of the indexing.\<close>

definition read_u64_be :: "bytes \<Rightarrow> nat \<Rightarrow> u64 option" where
  "read_u64_be buf off = (if off + 8 \<le> length buf then Some (u64_from_be (slice_at off 8 buf)) else None)"

definition write_u64_be :: "nat \<Rightarrow> u64 \<Rightarrow> bytes \<Rightarrow> bytes" where
  "write_u64_be off v buf = splice_at off (u64_to_be v) buf"

lemma length_write_u64_be [simp]:
  "off + 8 \<le> length buf \<Longrightarrow> length (write_u64_be off v buf) = length buf"
  by (simp add: write_u64_be_def)

lemma read_u64_be_Some [simp]: "off + 8 \<le> length buf \<Longrightarrow> \<exists>v. read_u64_be buf off = Some v"
  by (simp add: read_u64_be_def)

lemma read_write_u64_same [codec]:
  "off + 8 \<le> length buf \<Longrightarrow> read_u64_be (write_u64_be off v buf) off = Some v"
  by (simp add: read_u64_be_def write_u64_be_def)

lemma read_write_u64_other [codec]:
  "off + 8 \<le> length buf \<Longrightarrow> i + 8 \<le> off \<or> off + 8 \<le> i \<Longrightarrow>
   read_u64_be (write_u64_be off v buf) i = read_u64_be buf i"
  by (auto simp: read_u64_be_def write_u64_be_def slice_splice_disjoint)

end
