(* ===== verification/Refcount_Blocks.thy ===== *)
theory Refcount_Blocks
  imports Instar_Base
begin

text \<open>
  Refcount blocks of a qcow2 image, as staged in memory by the guest operations:
  the scalar accessors and the first-fit cluster allocator of
  \<^verbatim>\<open>src/src/crates/snapshot/src/qcow2.rs\<close>, and the error type of that crate
  (\<^verbatim>\<open>src/src/crates/snapshot/src/lib.rs\<close>).  The lemmas show that the accessors behave like an
  array of \<open>2 ^ refcount_bits\<close>-bounded counters for every width of the qcow2 specification
  (locale \<open>counter_array\<close>), and that the allocator claims exactly the first free run.
\<close>

section \<open>Errors\<close>

datatype snapshot_error =
    UnsupportedFormat | UnsupportedFeature | NotFound | DuplicateName
  | RefcountOverflow (at_host_offset: u64)
  | AllocationFailed | SnapRefcountExhausted | SnapshotTableFull | SnapIo | L1SizeMismatch
  | InvalidUtf8 | InvalidConfig | ParseFailed | MisalignedAccess | Unsupported

fun snapshot_error_code :: "snapshot_error \<Rightarrow> u32" where
  "snapshot_error_code UnsupportedFormat = 1"
| "snapshot_error_code UnsupportedFeature = 2"
| "snapshot_error_code NotFound = 3"
| "snapshot_error_code DuplicateName = 4"
| "snapshot_error_code (RefcountOverflow _) = 5"
| "snapshot_error_code AllocationFailed = 6"
| "snapshot_error_code SnapRefcountExhausted = 6"
| "snapshot_error_code SnapshotTableFull = 7"
| "snapshot_error_code SnapIo = 8"
| "snapshot_error_code L1SizeMismatch = 9"
| "snapshot_error_code InvalidUtf8 = 10"
| "snapshot_error_code InvalidConfig = 11"
| "snapshot_error_code ParseFailed = 12"
| "snapshot_error_code MisalignedAccess = 12"
| "snapshot_error_code Unsupported = 2"

section \<open>Scalar refcount accessors\<close>

definition read_refcount_in_block :: "bytes \<Rightarrow> u64 \<Rightarrow> u32 \<Rightarrow> snapshot_error + u64" where
  "read_refcount_in_block block local_idx refcount_bits =
     (if refcount_bits = 1 then
        (let byte = unat (local_idx div 8) in
         if length block \<le> byte then Inl MisalignedAccess
         else let s = unat (local_idx mod 8) in
           Inr (ucast (drop_bit s (block ! byte) AND 1)))
      else if refcount_bits = 2 then
        (let byte = unat (local_idx div 4) in
         if length block \<le> byte then Inl MisalignedAccess
         else let s = 2 * unat (local_idx mod 4) in
           Inr (ucast (drop_bit s (block ! byte) AND 3)))
      else if refcount_bits = 4 then
        (let byte = unat (local_idx div 2) in
         if length block \<le> byte then Inl MisalignedAccess
         else let s = (if local_idx mod 2 = 0 then 0 else 4) in
           Inr (ucast (drop_bit s (block ! byte) AND 15)))
      else if refcount_bits = 8 then
        (let byte = unat local_idx in
         if length block \<le> byte then Inl MisalignedAccess
         else Inr (ucast (block ! byte)))
      else if refcount_bits = 16 then
        (let off = unat local_idx * 2 in
         if length block < off + 2 then Inl MisalignedAccess
         else Inr (of_nat (be_val (slice_at off 2 block))))
      else if refcount_bits = 32 then
        (let off = unat local_idx * 4 in
         if length block < off + 4 then Inl MisalignedAccess
         else Inr (of_nat (be_val (slice_at off 4 block))))
      else if refcount_bits = 64 then
        (let off = unat local_idx * 8 in
         if length block < off + 8 then Inl MisalignedAccess
         else Inr (of_nat (be_val (slice_at off 8 block))))
      else Inl Unsupported)"

definition set_refcount_in_block ::
    "bytes \<Rightarrow> u64 \<Rightarrow> u32 \<Rightarrow> u64 \<Rightarrow> snapshot_error + bytes" where
  "set_refcount_in_block block local_idx refcount_bits v =
     (if refcount_bits = 1 then
        (let byte = unat (local_idx div 8) in
         if length block \<le> byte then Inl MisalignedAccess
         else let s = unat (local_idx mod 8) in
           Inr (block[byte := (if v = 0 then block ! byte AND NOT (push_bit s 1)
                               else block ! byte OR push_bit s 1)]))
      else if refcount_bits = 2 then
        (let byte = unat (local_idx div 4) in
         if length block \<le> byte then Inl MisalignedAccess
         else let s = 2 * unat (local_idx mod 4); m = push_bit s 3 in
           Inr (block[byte := (block ! byte AND NOT m) OR push_bit s (ucast v AND 3)]))
      else if refcount_bits = 4 then
        (let byte = unat (local_idx div 2) in
         if length block \<le> byte then Inl MisalignedAccess
         else let s = (if local_idx mod 2 = 0 then 0 else 4); m = push_bit s 15 in
           Inr (block[byte := (block ! byte AND NOT m) OR push_bit s (ucast v AND 15)]))
      else if refcount_bits = 8 then
        (let byte = unat local_idx in
         if length block \<le> byte then Inl MisalignedAccess
         else Inr (block[byte := ucast v]))
      else if refcount_bits = 16 then
        (let off = unat local_idx * 2 in
         if length block < off + 2 then Inl MisalignedAccess
         else Inr (block[off := ucast (drop_bit 8 v), off + 1 := ucast v]))
      else if refcount_bits = 32 then
        (let off = unat local_idx * 4 in
         if length block < off + 4 then Inl MisalignedAccess
         else Inr (splice_at off (map (\<lambda>i. ucast (drop_bit ((3 - i) * 8) v)) [0..<4]) block))
      else if refcount_bits = 64 then
        (let off = unat local_idx * 8 in
         if length block < off + 8 then Inl MisalignedAccess
         else Inr (splice_at off (map (\<lambda>i. ucast (drop_bit ((7 - i) * 8) v)) [0..<8]) block))
      else Inl Unsupported)"

text \<open>The addend is a signed 32-bit number; \<^verbatim>\<open>addend as u64\<close> and \<^verbatim>\<open>unsigned_abs\<close> are read off
  its two's complement value.\<close>

definition check_refcount_after_addend :: "u64 \<Rightarrow> int \<Rightarrow> u32 \<Rightarrow> snapshot_error + u64" where
  "check_refcount_after_addend current addend refcount_bits =
     (if refcount_bits = 0 then Inl Unsupported
      else let mx = (if 64 \<le> refcount_bits then - 1 else push_bit (unat refcount_bits) 1 - 1) in
        if 0 \<le> addend then
          (case checked_add current (of_int addend) of
             None \<Rightarrow> Inl (RefcountOverflow 0)
           | Some new_val \<Rightarrow> if mx < new_val then Inl (RefcountOverflow 0) else Inr new_val)
        else
          (let dec = of_int \<bar>addend\<bar> in
           if current < dec then Inl ParseFailed else Inr (current - dec)))"

section \<open>The allocator\<close>

record alloc_cursor =
  next_refblock :: u64
  next_entry_in_refblock :: u64
  allocated :: u64

definition empty_cursor :: alloc_cursor where
  "empty_cursor = \<lparr>next_refblock = 0, next_entry_in_refblock = 0, allocated = 0\<rparr>"

text \<open>The closure \<^verbatim>\<open>read_entry\<close>: the refcount of a flat cluster index.\<close>

definition read_entry :: "bytes \<Rightarrow> u64 \<Rightarrow> u32 \<Rightarrow> u64 \<Rightarrow> u64 \<Rightarrow> snapshot_error + u64" where
  "read_entry blocks cluster_size refcount_bits entries_per_refblock cluster_index =
     (let refblock_idx = cluster_index div entries_per_refblock;
          entry_idx = cluster_index mod entries_per_refblock in
      bind_res (ok_or (checked_mul refblock_idx cluster_size) ParseFailed) (\<lambda>off.
      bind_res (ok_or (checked_add off cluster_size) ParseFailed) (\<lambda>fin.
      if length blocks < unat fin then Inl MisalignedAccess
      else read_refcount_in_block (slice_at (unat off) (unat cluster_size) blocks) entry_idx
             refcount_bits)))"

text \<open>The inner probing loop: \<open>Inr None\<close> when every entry of the run is free, \<open>Inr (Some p)\<close>
  at the first occupied entry \<open>p\<close>.\<close>

function probe_run :: "(u64 \<Rightarrow> snapshot_error + u64) \<Rightarrow> u64 \<Rightarrow> u64 \<Rightarrow> snapshot_error + u64 option"
where
  "probe_run rd probe lim =
     (if probe < lim then
        (case rd probe of
           Inl e \<Rightarrow> Inl e
         | Inr v \<Rightarrow> if v \<noteq> 0 then Inr (Some probe) else probe_run rd (probe + 1) lim)
      else Inr None)"
  by pat_completeness auto
termination
proof (relation "measure (\<lambda>(rd, probe, lim). unat lim - unat probe)")
  show "wf (measure (\<lambda>(rd, probe, lim). unat lim - unat probe))" by simp
next
  fix rd :: "u64 \<Rightarrow> snapshot_error + u64" and probe lim v :: u64
  assume lt: "probe < lim"
  then have "unat probe < unat lim" by (simp add: word_less_nat_alt)
  moreover have "unat (probe + 1) = unat probe + 1"
    using lt by (rule unat_inc)
  ultimately show "((rd, probe + 1, lim), (rd, probe, lim)) \<in>
      measure (\<lambda>(rd, probe, lim). unat lim - unat probe)" by simp
qed

declare probe_run.simps [simp del]

text \<open>The claiming loop: every entry of the run is set to 1; the first failing store ends it.\<close>

function claim_run :: "bytes \<Rightarrow> u64 \<Rightarrow> u32 \<Rightarrow> u64 \<Rightarrow> u64 \<Rightarrow> u64 \<Rightarrow>
    snapshot_error option \<times> bytes"
where
  "claim_run blocks cluster_size refcount_bits entries_per_refblock cluster_index lim =
     (if cluster_index < lim then
        (let refblock_idx = cluster_index div entries_per_refblock;
             entry_idx = cluster_index mod entries_per_refblock;
             off = unat refblock_idx * unat cluster_size;
             refblock = slice_at off (unat cluster_size) blocks in
         case set_refcount_in_block refblock entry_idx refcount_bits 1 of
           Inl e \<Rightarrow> (Some e, blocks)
         | Inr refblock' \<Rightarrow>
             claim_run (splice_at off refblock' blocks) cluster_size refcount_bits
               entries_per_refblock (cluster_index + 1) lim)
      else (None, blocks))"
  by pat_completeness auto
termination
proof (relation "measure (\<lambda>(blocks, cs, bits, epr, i, lim). unat lim - unat i)")
  show "wf (measure (\<lambda>(blocks :: bytes, cs :: u64, bits :: u32, epr :: u64, i :: u64, lim :: u64).
      unat lim - unat i))" by simp
next
  fix blocks xc refblock' :: bytes and cs epr i lim x xa :: u64 and bits :: u32 and xb :: nat
  assume lt: "i < lim"
  then have "unat i < unat lim" by (simp add: word_less_nat_alt)
  moreover have "unat (i + 1) = unat i + 1"
    using lt by (rule unat_inc)
  ultimately show "((splice_at xb refblock' blocks, cs, bits, epr, i + 1, lim), (blocks, cs, bits, epr, i, lim))
      \<in> measure (\<lambda>(blocks, cs, bits, epr, i, lim). unat lim - unat i)" by simp
qed

declare claim_run.simps [simp del]

text \<open>The first-fit scan: where the run starts, or that there is none.\<close>

lemma probe_run_Some:
  "probe_run rd probe lim = Inr (Some p) \<Longrightarrow> probe \<le> p \<and> p < lim"
proof (induction rd probe lim rule: probe_run.induct)
  case (1 rd probe lim)
  from "1.prems" have lt: "probe < lim"
    by (subst (asm) probe_run.simps) (auto split: if_splits)
  then have step: "probe \<le> probe + 1"
    by (rule word_le_inc)
  show ?case
  proof (cases "rd probe")
    case (Inl e)
    with "1.prems" lt show ?thesis by (subst (asm) probe_run.simps) simp
  next
    case (Inr v)
    show ?thesis
    proof (cases "v = 0")
      case True
      with "1.prems" lt Inr have "probe_run rd (probe + 1) lim = Inr (Some p)"
        by (subst (asm) probe_run.simps) simp
      with "1.IH" lt Inr True have "probe + 1 \<le> p \<and> p < lim" by simp
      with step show ?thesis by (meson order_trans)
    next
      case False
      with "1.prems" lt Inr show ?thesis by (subst (asm) probe_run.simps) simp
    qed
  qed
qed

function find_run :: "(u64 \<Rightarrow> snapshot_error + u64) \<Rightarrow> u64 \<Rightarrow> u64 \<Rightarrow> u64 \<Rightarrow> snapshot_error + u64 option"
where
  "find_run rd start count total_entries =
     (if start + count \<le> total_entries then
        (case probe_run rd start (start + count) of
           Inl e \<Rightarrow> Inl e
         | Inr None \<Rightarrow> Inr (Some start)
         | Inr (Some p) \<Rightarrow> find_run rd (p + 1) count total_entries)
      else Inr None)"
  by pat_completeness auto
termination
proof (relation "measure (\<lambda>(rd, start, count, total_entries). 2 ^ 64 - unat start)")
  show "wf (measure (\<lambda>(rd :: u64 \<Rightarrow> snapshot_error + u64, start :: u64, count :: u64, total_entries :: u64).
      2 ^ 64 - unat start))" by simp
next
  fix rd :: "u64 \<Rightarrow> snapshot_error + u64" and start count total_entries p :: u64 and x :: "u64 option"
  assume "probe_run rd start (start + count) = Inr x" and "x = Some p"
  then have p: "start \<le> p" "p < start + count" using probe_run_Some by blast+
  then have "unat (p + 1) = unat p + 1"
    by (blast intro: unat_inc)
  moreover have "unat start \<le> unat p" using p by (simp add: word_le_nat_alt)
  moreover have "unat (p + 1) < 2 ^ 64" using unsigned_less [of "p + 1", where 'a = nat] by simp
  ultimately show "((rd, p + 1, count, total_entries), (rd, start, count, total_entries)) \<in>
      measure (\<lambda>(rd, start, count, total_entries). 2 ^ 64 - unat start)" by simp
qed

declare find_run.simps [simp del]

definition alloc_contiguous_clusters_in_refblocks ::
    "bytes \<Rightarrow> u64 \<Rightarrow> u32 \<Rightarrow> u64 \<Rightarrow> u64 \<Rightarrow> u64 \<Rightarrow> alloc_cursor \<Rightarrow>
     (snapshot_error + u64) \<times> bytes \<times> alloc_cursor" where
  "alloc_contiguous_clusters_in_refblocks blocks cluster_size refcount_bits refblock_count
     host_refblocks_start count cursor =
   (if refcount_bits \<noteq> 16 then (Inl Unsupported, blocks, cursor)
    else if cluster_size = 0 then (Inl InvalidConfig, blocks, cursor)
    else if count = 0 then (Inl InvalidConfig, blocks, cursor)
    else let epr = (cluster_size * 8) div ucast refcount_bits in
      if epr = 0 then (Inl InvalidConfig, blocks, cursor)
      else case checked_mul refblock_count epr of
        None \<Rightarrow> (Inl ParseFailed, blocks, cursor)
      | Some total_entries \<Rightarrow>
        (case Option.bind (checked_mul (next_refblock cursor) epr)
                (\<lambda>v. checked_add v (next_entry_in_refblock cursor)) of
          None \<Rightarrow> (Inl ParseFailed, blocks, cursor)
        | Some start \<Rightarrow>
          (case find_run (read_entry blocks cluster_size refcount_bits epr) start count
                  total_entries of
            Inl e \<Rightarrow> (Inl e, blocks, cursor)
          | Inr None \<Rightarrow> (Inl SnapRefcountExhausted, blocks, cursor)
          | Inr (Some s) \<Rightarrow>
            (case claim_run blocks cluster_size refcount_bits epr s (s + count) of
              (Some e, blocks') \<Rightarrow> (Inl e, blocks', cursor)
            | (None, blocks') \<Rightarrow>
              (let nxt = s + count;
                   cursor' = cursor\<lparr>next_refblock := nxt div epr,
                       next_entry_in_refblock := nxt mod epr,
                       allocated := allocated cursor + count\<rparr> in
               (ok_or (Option.bind (checked_mul s cluster_size)
                         (\<lambda>v. checked_add v host_refblocks_start)) ParseFailed,
                blocks', cursor'))))))"

definition alloc_cluster_in_refblocks ::
    "bytes \<Rightarrow> u64 \<Rightarrow> u32 \<Rightarrow> u64 \<Rightarrow> u64 \<Rightarrow> alloc_cursor \<Rightarrow>
     (snapshot_error + u64) \<times> bytes \<times> alloc_cursor" where
  "alloc_cluster_in_refblocks blocks cluster_size refcount_bits refblock_count
     host_refblocks_start cursor =
   alloc_contiguous_clusters_in_refblocks blocks cluster_size refcount_bits refblock_count
     host_refblocks_start 1 cursor"

section \<open>The accessors are arrays of bounded counters\<close>

text \<open>The refcount widths of the qcow2 specification, and the number of entries of a block.\<close>

definition valid_width :: "u32 \<Rightarrow> bool" where
  "valid_width bits \<longleftrightarrow> bits = 1 \<or> bits = 2 \<or> bits = 4 \<or> bits = 8 \<or> bits = 16 \<or> bits = 32 \<or> bits = 64"

definition rc_cap :: "u32 \<Rightarrow> bytes \<Rightarrow> nat" where
  "rc_cap bits block = length block * 8 div unat bits"

lemma ucast_drop_bit_u8: "(ucast (drop_bit s (v :: u64)) :: u8) = of_nat (unat v div 2 ^ s)"
  by (metis drop_bit_eq_div of_nat_unat unat_drop_bit_eq)

lemma of_nat_mod_u8: "(of_nat (n mod 256) :: u8) = of_nat n"
  by (rule word_unat_eq_iff[THEN iffD2]) (simp add: unat_of_nat)

lemma be_enc_map: "be_enc k n = map (\<lambda>i. of_nat (n div 256 ^ (k - 1 - i))) [0..<k]"
proof (induction k arbitrary: n)
  case 0
  then show ?case by simp
next
  case (Suc k)
  have "map (\<lambda>i. of_nat (n div 256 div 256 ^ (k - 1 - i)) :: u8) [0..<k]
      = map (\<lambda>i. of_nat (n div 256 ^ (k - i))) [0..<k]"
  proof (rule map_cong [OF refl])
    fix i assume "i \<in> set [0..<k]"
    then have "(256::nat) * 256 ^ (k - 1 - i) = 256 ^ (k - i)"
      by (metis Suc_diff_Suc atLeastLessThan_iff diff_Suc_eq_diff_pred power_Suc set_upt)
    then show "(of_nat (n div 256 div 256 ^ (k - 1 - i)) :: u8) = of_nat (n div 256 ^ (k - i))"
      by (simp flip: div_mult2_eq)
  qed
  then show ?case by (simp add: Suc of_nat_mod_u8)
qed

lemma be_enc_shifts:
  "map (\<lambda>i. ucast (drop_bit ((k - 1 - i) * 8) v)) [0..<k] = be_enc k (unat (v :: u64))"
proof -
  have "(2::nat) ^ (m * 8) = 256 ^ m" for m
    using power_mult [of "2::nat" 8 m] by (simp add: mult.commute)
  then show ?thesis by (simp only: be_enc_map ucast_drop_bit_u8)
qed

lemma be_bytes_2: "[ucast (drop_bit 8 v), ucast v] = be_enc 2 (unat (v :: u64))"
  by (simp add: numeral_2_eq_2 flip: be_enc_shifts)

lemmas be_bytes_4 = be_enc_shifts [of 4, simplified]
lemmas be_bytes_8 = be_enc_shifts [of 8, simplified]

lemma field_same:
  fixes b v :: u8
  assumes "s + w \<le> 8"
  shows "take_bit w (drop_bit s ((b AND NOT (push_bit s (mask w))) OR push_bit s (take_bit w v))) = take_bit w v"
  using assms by (intro bit_word_eqI) (auto simp: bit_simps)

lemma field_other:
  fixes b v :: u8
  assumes "s + w \<le> s' \<or> s' + w \<le> s" "s' + w \<le> 8"
  shows "take_bit w (drop_bit s' ((b AND NOT (push_bit s (mask w))) OR push_bit s (take_bit w v))) = take_bit w (drop_bit s' b)"
  using assms by (intro bit_word_eqI) (auto simp: bit_simps)


lemma and_mask_lits: "(x :: u8) AND 1 = take_bit 1 x" "x AND 3 = take_bit 2 x" "x AND 15 = take_bit 4 x"
  by (simp_all add: take_bit_eq_mask mask_numeral mask_Suc_0)

lemma mask_lits_u8: "(3 :: u8) = mask 2" "(15 :: u8) = mask 4"
  by (simp_all add: mask_numeral)

lemma nib_shift: "(if (i :: u64) mod 2 = 0 then 0 else 4) = unat i * 4 mod 8"
proof -
  have "(i mod 2 = 0) = (unat i mod 2 = 0)"
    by (simp add: word_unat_eq_iff [of "i mod 2"] unat_mod)
  moreover have "n * 4 mod 8 = (if n mod 2 = 0 then 0 else 4)" for n :: nat by presburger
  ultimately show ?thesis by simp
qed

lemma crumb_shift: "2 * (n mod 4) = n * 2 mod (8::nat)" by presburger

lemma read_narrow:
  assumes "bits = 1 \<or> bits = 2 \<or> bits = 4"
  shows "read_refcount_in_block block i bits =
    (if unat i * unat bits div 8 < length block
     then Inr (ucast (take_bit (unat bits)
        (drop_bit (unat i * unat bits mod 8) (block ! (unat i * unat bits div 8)))))
     else Inl MisalignedAccess)"
proof -
  have d: "n * 2 div 8 = n div 4" "n * 4 div 8 = n div 2" for n :: nat by presburger+
  from assms show ?thesis
    by (elim disjE) (auto simp: read_refcount_in_block_def Let_def unat_div unat_mod and_mask_lits
      nib_shift crumb_shift d)
qed

lemma set_narrow:
  assumes "bits = 1 \<or> bits = 2 \<or> bits = 4"
  shows "set_refcount_in_block block i bits v =
    (if unat i * unat bits div 8 < length block
     then let k = unat i * unat bits div 8; s = unat i * unat bits mod 8; w = unat bits;
            x = (if bits = 1 then (if v = 0 then 0 else 1) else ucast v) in
        Inr (block[k := (block ! k AND NOT (push_bit s (mask w))) OR push_bit s (take_bit w x)])
     else Inl MisalignedAccess)"
proof -
  have d: "n * 2 div 8 = n div 4" "n * 4 div 8 = n div 2" for n :: nat by presburger+
  have m1: "(b AND NOT p) OR p = b OR p" for b p :: u8
    by (intro bit_word_eqI) (auto simp: bit_simps)
  have tb: "push_bit s (take_bit w x) = push_bit s x AND push_bit s (mask w)" for s w and x :: u8
    by (simp add: take_bit_eq_mask)
  from assms show ?thesis
    by (elim disjE) (auto simp: set_refcount_in_block_def Let_def unat_div unat_mod and_mask_lits
      mask_lits_u8 nib_shift crumb_shift d mask_Suc_0 m1 tb)
qed

lemma read_wide:
  assumes "(bits, k) \<in> {(8, 1), (16, 2), (32, 4), (64, 8)}"
  shows "read_refcount_in_block block i bits =
    (if unat i * k + k \<le> length block then Inr (of_nat (be_val (slice_at (unat i * k) k block)))
     else Inl MisalignedAccess)"
proof -
  have "slice_at n 1 block = [block ! n]" if "n < length block" for n
    using that by (simp add: slice_at_def take_Suc_conv_app_nth Cons_nth_drop_Suc [symmetric])
  then show ?thesis
    using assms by (auto simp: read_refcount_in_block_def Let_def be_val_def)
qed

lemma set_wide:
  assumes "(bits, k) \<in> {(8, 1), (16, 2), (32, 4), (64, 8)}"
  shows "set_refcount_in_block block i bits v =
    (if unat i * k + k \<le> length block then Inr (splice_at (unat i * k) (be_enc k (unat v)) block)
     else Inl MisalignedAccess)"
proof -
  have one: "block[n := ucast v] = splice_at n [of_nat (unat v)] block" if "n < length block" for n
    using that by (simp add: splice_at_def upd_conv_take_nth_drop)
  have two: "block[n := ucast (drop_bit 8 v), Suc n := ucast v] = splice_at n (be_enc 2 (unat v)) block"
    if "Suc n < length block" for n
    using that unfolding be_bytes_2 [symmetric]
    by (intro nth_equalityI) (auto simp: nth_splice_at nth_list_update nth_Cons')
  from assms show ?thesis
    by (auto simp: set_refcount_in_block_def Let_def one two of_nat_mod_u8 be_bytes_4 be_bytes_8)
qed

lemma wide_cap:
  fixes bits k i n :: nat
  assumes "(bits, k) \<in> {(8, 1), (16, 2), (32, 4), (64, 8)}"
  shows "i * k + k \<le> n \<longleftrightarrow> i < n * 8 div bits"
proof -
  from assms have "bits = k * 8" and "0 < k" by auto
  then have "n * 8 div bits = n div k" by simp
  moreover have "Suc i \<le> n div k \<longleftrightarrow> Suc i * k \<le> n"
    using \<open>0 < k\<close> by (rule less_eq_div_iff_mult_less_eq)
  ultimately show ?thesis by (simp add: Suc_le_eq add.commute)
qed

lemma narrow_slot:
  fixes i w :: nat
  assumes "w = 1 \<or> w = 2 \<or> w = 4"
  shows "i * w div 8 = i div (8 div w)" "i * w mod 8 = w * (i mod (8 div w))" "i * w mod 8 + w \<le> 8"
proof -
  have w8: "(8 div w) * w = 8" and w0: "w \<noteq> 0" using assms by auto
  have "i * w div ((8 div w) * w) = i div (8 div w)" using w0 by simp
  then show "i * w div 8 = i div (8 div w)" unfolding w8 .
  have m: "i * w mod ((8 div w) * w) = w * (i mod (8 div w))"
    by (simp add: mult.commute mult_mod_left)
  show e: "i * w mod 8 = w * (i mod (8 div w))" using m unfolding w8 .
  have "i mod (8 div w) + 1 \<le> 8 div w" using assms by (auto simp: Suc_le_eq)
  then have "(i mod (8 div w) + 1) * w \<le> 8 div w * w" by (rule mult_le_mono1)
  then show "i * w mod 8 + w \<le> 8" unfolding e w8 by (simp add: algebra_simps)
qed

lemma narrow_cap:
  fixes i w n :: nat
  assumes w: "w = 1 \<or> w = 2 \<or> w = 4"
  shows "i * w div 8 < n \<longleftrightarrow> i < n * 8 div w"
proof -
  have "n * 8 div w = n * (8 div w)" and "0 < 8 div w" using w by auto
  then show ?thesis by (simp add: narrow_slot [OF w] div_less_iff_less_mult)
qed

lemma narrow_slots_disjoint:
  fixes i j :: nat
  assumes w: "w = 1 \<or> w = 2 \<or> w = 4" and ne: "i \<noteq> j" and eq: "i * w div 8 = j * w div 8"
  shows "i * w mod 8 + w \<le> j * w mod 8 \<or> j * w mod 8 + w \<le> i * w mod 8"
proof -
  from eq have "i div (8 div w) = j div (8 div w)" by (simp add: narrow_slot [OF w])
  with ne have "i mod (8 div w) \<noteq> j mod (8 div w)" by (metis div_mult_mod_eq)
  then have "Suc (i mod (8 div w)) \<le> j mod (8 div w) \<or> Suc (j mod (8 div w)) \<le> i mod (8 div w)"
    by arith
  then have "w * Suc (i mod (8 div w)) \<le> w * (j mod (8 div w)) \<or>
      w * Suc (j mod (8 div w)) \<le> w * (i mod (8 div w))" by (meson mult_le_mono2)
  then show ?thesis by (simp add: narrow_slot [OF w] add.commute)
qed

lemma unat_field: "unat (ucast (take_bit w (x :: u8)) :: u64) < 2 ^ w"
proof -
  have "unat (ucast (take_bit w x) :: u64) = unat (take_bit w x)"
    using unat_byte_lt [of "take_bit w x"]
    by (simp add: unsigned_ucast_eq take_bit_nat_eq_self del: unat_byte_lt)
  then show ?thesis by (simp add: unsigned_take_bit_eq)
qed

lemma narrow_value:
  assumes "bits = 1 \<or> bits = 2 \<or> bits = (4 :: u32)" and v: "unat (v :: u64) < 2 ^ unat bits"
  shows "ucast (take_bit (unat bits) (if bits = 1 then (if v = 0 then 0 else 1) else ucast v :: u8)) = v"
proof (cases "bits = 1")
  case True
  with v have "unat v = 0 \<or> unat v = 1" by auto
  with True show ?thesis by (auto simp: word_unat_eq_iff)
next
  case False
  with assms have "unat v < 2 ^ unat bits" "unat bits \<le> 8" by auto
  then have "take_bit (unat bits) v = v" by (simp add: word_unat_eq_iff unsigned_take_bit_eq take_bit_nat_eq_self)
  then have "bit v m \<Longrightarrow> m < unat bits" for m by (metis bit_take_bit_iff)
  then show ?thesis
    using False \<open>unat bits \<le> 8\<close> by (intro bit_word_eqI) (fastforce simp: bit_simps)
qed

lemma valid_width_cases [consumes 1, case_names narrow wide]:
  assumes "valid_width bits"
  obtains (narrow) "bits = 1 \<or> bits = 2 \<or> bits = 4" "unat bits = 1 \<or> unat bits = 2 \<or> unat bits = 4"
  | (wide) k :: nat where "(bits, k) \<in> {(8, 1), (16, 2), (32, 4), (64, 8)}"
      "(unat bits, k) \<in> {(8, 1), (16, 2), (32, 4), (64, 8)}"
  using assms unfolding valid_width_def by auto

text \<open>The contract the clients of the accessors rely on: a bounds-checked array of counters below
  \<open>2 ^ width\<close>.\<close>

locale counter_array =
  fixes rd :: "'b \<Rightarrow> u64 \<Rightarrow> 'e + u64"
    and wr :: "'b \<Rightarrow> u64 \<Rightarrow> u64 \<Rightarrow> 'e + 'b"
    and cap :: "'b \<Rightarrow> nat"
    and width :: nat
  assumes rd_in_range: "unat i < cap b \<Longrightarrow> \<exists>v. rd b i = Inr v"
    and rd_Inr: "rd b i = Inr v \<Longrightarrow> unat i < cap b \<and> unat v < 2 ^ width"
    and wr_in_range: "unat i < cap b \<Longrightarrow> \<exists>b'. wr b i v = Inr b'"
    and wr_Inr: "wr b i v = Inr b' \<Longrightarrow> unat i < cap b \<and> cap b' = cap b"
    and rd_wr_same: "wr b i v = Inr b' \<Longrightarrow> unat v < 2 ^ width \<Longrightarrow> rd b' i = Inr v"
    and rd_wr_other: "wr b i v = Inr b' \<Longrightarrow> j \<noteq> i \<Longrightarrow> rd b' j = rd b j"
begin

lemma wr_total: "rd b i = Inr c \<Longrightarrow> \<exists>b'. wr b i v = Inr b'"
  using rd_Inr wr_in_range by blast

lemma rd_wr:
  "wr b i v = Inr b' \<Longrightarrow> unat v < 2 ^ width \<Longrightarrow> rd b' j = (if j = i then Inr v else rd b j)"
  using rd_wr_same rd_wr_other by simp

end

lemma counter_array_narrow:
  assumes narrow: "bits = 1 \<or> bits = 2 \<or> bits = 4" "unat bits = 1 \<or> unat bits = 2 \<or> unat bits = 4"
  shows "counter_array (\<lambda>b i. read_refcount_in_block b i bits)
    (\<lambda>b i v. set_refcount_in_block b i bits v) (rc_cap bits) (unat bits)"
proof -
  note rd = read_narrow [OF narrow(1)] and st = set_narrow [OF narrow(1)]
  have c: "unat i * unat bits div 8 < length b \<longleftrightarrow> unat i < rc_cap bits b" for i :: u64 and b
    unfolding rc_cap_def by (rule narrow_cap [OF narrow(2)])
  show ?thesis
  proof unfold_locales
    fix i b show "unat i < rc_cap bits b \<Longrightarrow> \<exists>v. read_refcount_in_block b i bits = Inr v"
      by (simp add: rd c)
  next
    fix b i v show "read_refcount_in_block b i bits = Inr v \<Longrightarrow>
        unat i < rc_cap bits b \<and> unat v < 2 ^ unat bits"
      by (auto simp: rd c unat_field split: if_splits)
  next
    fix i b v show "unat i < rc_cap bits b \<Longrightarrow> \<exists>b'. set_refcount_in_block b i bits v = Inr b'"
      by (simp add: st c Let_def)
  next
    fix b i v b' show "set_refcount_in_block b i bits v = Inr b' \<Longrightarrow>
        unat i < rc_cap bits b \<and> rc_cap bits b' = rc_cap bits b"
      by (auto simp: st c Let_def rc_cap_def split: if_splits)
  next
    fix b i v b' assume s: "set_refcount_in_block b i bits v = Inr b'" and v: "unat v < 2 ^ unat bits"
    let ?k = "unat i * unat bits div 8" and ?s = "unat i * unat bits mod 8" and ?w = "unat bits"
    let ?x = "if bits = 1 then (if v = 0 then 0 else 1) else ucast v :: u8"
    from s have k: "?k < length b"
      and b': "b' = b[?k := (b ! ?k AND NOT (push_bit ?s (mask ?w))) OR push_bit ?s (take_bit ?w ?x)]"
      by (auto simp: st Let_def split: if_splits)
    have "take_bit ?w (drop_bit ?s (b' ! ?k)) = take_bit ?w ?x"
      unfolding b' using k narrow_slot(3) [OF narrow(2)]
      by (simp only: nth_list_update_eq field_same)
    moreover have "ucast (take_bit ?w ?x) = v"
      by (rule narrow_value [OF narrow(1) v])
    ultimately show "read_refcount_in_block b' i bits = Inr v"
      using k by (simp add: rd b')
  next
    fix b i v b' j assume s: "set_refcount_in_block b i bits v = Inr b'" and ne: "j \<noteq> i"
    let ?k = "\<lambda>i :: u64. unat i * unat bits div 8" and ?s = "\<lambda>i :: u64. unat i * unat bits mod 8"
    let ?x = "if bits = 1 then (if v = 0 then 0 else 1) else ucast v :: u8"
    from s have k: "?k i < length b"
      and b': "b' = b[?k i := (b ! ?k i AND NOT (push_bit (?s i) (mask (unat bits)))) OR
                  push_bit (?s i) (take_bit (unat bits) ?x)]"
      by (auto simp: st Let_def split: if_splits)
    have "take_bit (unat bits) (drop_bit (?s j) (b' ! ?k j)) =
        take_bit (unat bits) (drop_bit (?s j) (b ! ?k j))"
    proof (cases "?k j = ?k i")
      case True
      moreover have "unat i \<noteq> unat j" using ne by (simp add: word_unat_eq_iff)
      ultimately have "?s i + unat bits \<le> ?s j \<or> ?s j + unat bits \<le> ?s i"
        using narrow_slots_disjoint [OF narrow(2)] by metis
      then show ?thesis
        unfolding b' True using k narrow_slot(3) [OF narrow(2)]
        by (simp only: nth_list_update_eq field_other)
    next
      case False
      then show ?thesis by (simp add: b')
    qed
    then show "read_refcount_in_block b' j bits = read_refcount_in_block b j bits"
      by (simp add: rd b')
  qed
qed

lemma counter_array_wide:
  assumes wide: "(bits, k :: nat) \<in> {(8, 1), (16, 2), (32, 4), (64, 8)}"
    "(unat bits, k) \<in> {(8, 1), (16, 2), (32, 4), (64, 8)}"
  shows "counter_array (\<lambda>b i. read_refcount_in_block b i bits)
    (\<lambda>b i v. set_refcount_in_block b i bits v) (rc_cap bits) (unat bits)"
proof -
  note rd = read_wide [OF wide(1)] and st = set_wide [OF wide(1)]
  have c: "unat i * k + k \<le> length b \<longleftrightarrow> unat i < rc_cap bits b" for i :: u64 and b
    unfolding rc_cap_def by (rule wide_cap [OF wide(2)])
  have p: "256 ^ k = (2 :: nat) ^ unat bits" and p64: "(2 :: nat) ^ unat bits \<le> 2 ^ 64"
    using wide(2) by auto
  show ?thesis
  proof unfold_locales
    fix i b show "unat i < rc_cap bits b \<Longrightarrow> \<exists>v. read_refcount_in_block b i bits = Inr v"
      by (simp add: rd c)
  next
    fix b i v assume r: "read_refcount_in_block b i bits = Inr v"
    then have i: "unat i < rc_cap bits b" and v: "v = of_nat (be_val (slice_at (unat i * k) k b))"
      by (auto simp: rd c split: if_splits)
    have "be_val (slice_at (unat i * k) k b) < 2 ^ unat bits"
      using be_val_less [of "slice_at (unat i * k) k b"] c [of i b] i p by simp
    then show "unat i < rc_cap bits b \<and> unat v < 2 ^ unat bits"
      using i v p64 by (simp add: unat_of_nat)
  next
    fix i b v show "unat i < rc_cap bits b \<Longrightarrow> \<exists>b'. set_refcount_in_block b i bits v = Inr b'"
      by (simp add: st c)
  next
    fix b i v b' show "set_refcount_in_block b i bits v = Inr b' \<Longrightarrow>
        unat i < rc_cap bits b \<and> rc_cap bits b' = rc_cap bits b"
      by (auto simp: st rc_cap_def wide_cap [OF wide(2), symmetric] split: if_splits)
  next
    fix b i v b' assume s: "set_refcount_in_block b i bits v = Inr b'" and v: "unat v < 2 ^ unat bits"
    then show "read_refcount_in_block b' i bits = Inr v"
      by (auto simp: st rd be_val_enc p split: if_splits)
  next
    fix b i v b' j assume s: "set_refcount_in_block b i bits v = Inr b'" and ne: "j \<noteq> i"
    then have "unat i \<noteq> unat j" by (simp add: word_unat_eq_iff)
    then have "Suc (unat j) \<le> unat i \<or> Suc (unat i) \<le> unat j" by arith
    then have "Suc (unat j) * k \<le> unat i * k \<or> Suc (unat i) * k \<le> unat j * k"
      by (meson mult_le_mono1)
    then have "unat j * k + k \<le> unat i * k \<or> unat i * k + k \<le> unat j * k" by (simp add: add.commute)
    with s show "read_refcount_in_block b' j bits = read_refcount_in_block b j bits"
      by (auto simp: st rd slice_splice_disjoint split: if_splits)
  qed
qed

lemma counter_array_width:
  assumes "valid_width bits"
  shows "counter_array (\<lambda>b i. read_refcount_in_block b i bits)
    (\<lambda>b i v. set_refcount_in_block b i bits v) (rc_cap bits) (unat bits)"
  using assms by (cases rule: valid_width_cases) (rule counter_array_narrow counter_array_wide; assumption)+

interpretation rc1: counter_array "\<lambda>b i. read_refcount_in_block b i 1"
  "\<lambda>b i v. set_refcount_in_block b i 1 v" "rc_cap 1" 1
  using counter_array_width [of 1] by (simp add: valid_width_def)

interpretation rc16: counter_array "\<lambda>b i. read_refcount_in_block b i 16"
  "\<lambda>b i v. set_refcount_in_block b i 16 v" "rc_cap 16" 16
  using counter_array_width [of 16] by (simp add: valid_width_def)

interpretation rc64: counter_array "\<lambda>b i. read_refcount_in_block b i 64"
  "\<lambda>b i v. set_refcount_in_block b i 64 v" "rc_cap 64" 64
  using counter_array_width [of 64] by (simp add: valid_width_def)

section \<open>The allocator claims the first free run\<close>

text \<open>With 16-bit refcounts and refblocks of one cluster each, the concatenated refblocks are one flat
  array of big-endian 16-bit counters indexed by host cluster.\<close>

definition rc_flat :: "bytes \<Rightarrow> nat \<Rightarrow> nat" where
  "rc_flat blocks j = be_val (slice_at (2 * j) 2 blocks)"

text \<open>A staged refblock buffer of \<open>n\<close> refblocks, each one cluster.\<close>

definition staged_blocks :: "u64 \<Rightarrow> nat \<Rightarrow> bytes \<Rightarrow> bool" where
  "staged_blocks cs n blocks \<longleftrightarrow> 2 \<le> unat cs \<and> even (unat cs) \<and> unat cs < 2 ^ 32 \<and>
     length blocks = n * unat cs \<and> n < 2 ^ 31"

lemma epr_unat:
  assumes "staged_blocks cs n blocks"
  shows "unat (cs * 8 div 16) = unat cs div 2" "0 < unat cs div 2"
proof -
  have "unat (cs * 8) = unat cs * 8"
    using assms by (simp add: staged_blocks_def unat_word_ariths)
  then show "unat (cs * 8 div 16) = unat cs div 2"
    by (simp add: unat_div)
  show "0 < unat cs div 2" using assms by (simp add: staged_blocks_def)
qed

lemma flat_offset:
  assumes "cs = 2 * e" "0 < (e :: nat)"
  shows "(j div e) * cs + (j mod e) * 2 = 2 * j"
proof -
  have "q * (2 * e) + r * 2 = 2 * (q * e + r)" for q r by (simp add: algebra_simps)
  then have "(j div e) * (2 * e) + (j mod e) * 2 = 2 * (j div e * e + j mod e)" .
  then show ?thesis unfolding assms(1) by (simp only: div_mult_mod_eq)
qed

lemma block_bounds:
  assumes st: "staged_blocks cs n blocks" and e: "e = unat cs div 2" and j: "j < n * e"
  shows "j div e < n" "(j div e) * unat cs + unat cs \<le> length blocks" "length blocks < 2 ^ 63"
    "(j mod e) * 2 + 2 \<le> unat cs" "unat cs = 2 * e"
proof -
  show cs: "unat cs = 2 * e" using st e by (simp add: staged_blocks_def)
  have e0: "0 < e" using st e by (simp add: staged_blocks_def)
  show jd: "j div e < n" using j e0 by (simp add: div_less_iff_less_mult)
  then have "(j div e + 1) * unat cs \<le> n * unat cs" by (intro mult_le_mono1) simp
  then show "(j div e) * unat cs + unat cs \<le> length blocks"
    using st by (simp add: staged_blocks_def algebra_simps)
  have "n * unat cs \<le> (2 ^ 31 - 1) * (2 ^ 32 - 1)" using st by (intro mult_le_mono) (auto simp: staged_blocks_def)
  then show "length blocks < 2 ^ 63" using st by (simp add: staged_blocks_def)
  have "j mod e < e" using e0 by simp
  then show "(j mod e) * 2 + 2 \<le> unat cs" using cs by simp
qed

lemma read_entry_flat:
  assumes st: "staged_blocks cs n blocks" and e: "unat epr = unat cs div 2" and j: "unat j < n * unat epr"
  shows "read_entry blocks cs 16 epr j = Inr (of_nat (rc_flat blocks (unat j)))"
proof -
  note b = block_bounds [OF st e j]
  have m: "unat (j div epr) * unat cs < 2 ^ 64" using b(2,3) by (simp add: unat_div)
  have off: "unat (j div epr * cs) = (unat j div unat epr) * unat cs"
    using unat_mult_small [of "j div epr" cs] m by (simp add: unat_div)
  have s: "unat (j div epr * cs) + unat cs < 2 ^ 64" using b(2,3) unfolding off by simp
  have fin: "unat (j div epr * cs + cs) = (unat j div unat epr) * unat cs + unat cs"
    using unat_add_small [of "j div epr * cs" cs] s by (simp add: off)
  have fo: "(unat j div unat epr) * unat cs + (unat j mod unat epr) * 2 = 2 * unat j"
    using flat_offset [OF b(5)] st e by (simp add: staged_blocks_def)
  have l: "length (slice_at (unat j div unat epr * unat cs) (unat cs) blocks) = unat cs"
    using b(2) by simp
  have "read_refcount_in_block (slice_at (unat j div unat epr * unat cs) (unat cs) blocks) (j mod epr) 16
      = Inr (of_nat (rc_flat blocks (unat j)))"
    using read_wide [of 16 2] b(4) l b(2)
    by (simp add: unat_mod slice_slice rc_flat_def fo)
  then show ?thesis
    using m s b(2) by (simp add: read_entry_def Let_def checked_mul_def checked_add_def off fin)
qed


lemma rc_flat_splice:
  assumes "2 * i + 2 \<le> length b" "2 * j + 2 \<le> length b" "v < 2 ^ 16"
  shows "rc_flat (splice_at (2 * i) (be_enc 2 v) b) j = (if j = i then v else rc_flat b j)"
proof (cases "j = i")
  case True
  then show ?thesis using assms by (simp add: rc_flat_def be_val_enc)
next
  case False
  then have "2 * j + 2 \<le> 2 * i \<or> 2 * i + length (be_enc 2 v) \<le> 2 * j" by auto
  then show ?thesis using assms False by (simp add: rc_flat_def slice_splice_disjoint)
qed

lemma rc_flat_less: "rc_flat b j < 2 ^ 16"
proof -
  have "be_val (slice_at (2 * j) 2 b) < 256 ^ length (slice_at (2 * j) 2 b)" by (rule be_val_less)
  also have "\<dots> \<le> 256 ^ 2" by (intro power_increasing) (simp_all add: slice_at_def)
  finally show ?thesis by (simp add: rc_flat_def)
qed

lemma unat_rc_flat [simp]: "unat (of_nat (rc_flat b j) :: u64) = rc_flat b j"
  using rc_flat_less [of b j] by (simp add: unat_of_nat)

text \<open>One step of the claiming loop stores 1 in the flat counter.\<close>

lemma claim_step:
  assumes st: "staged_blocks cs n blocks" and e: "unat epr = unat cs div 2"
    and i: "unat i < n * unat epr" and lim: "i < lim"
  shows "claim_run blocks cs 16 epr i lim =
    claim_run (splice_at (2 * unat i) (be_enc 2 1) blocks) cs 16 epr (i + 1) lim"
proof -
  note b = block_bounds [OF st e i]
  let ?off = "unat i div unat epr * unat cs"
  have fo: "?off + (unat i mod unat epr) * 2 = 2 * unat i"
    using flat_offset [OF b(5)] st e by (simp add: staged_blocks_def)
  have "set_refcount_in_block (slice_at ?off (unat cs) blocks) (i mod epr) 16 1 =
      Inr (splice_at (unat i mod unat epr * 2) (be_enc 2 1) (slice_at ?off (unat cs) blocks))"
    using set_wide [of 16 2] b(4) b(2) by (simp add: unat_mod)
  moreover have "splice_at ?off (splice_at (unat i mod unat epr * 2) (be_enc 2 1)
      (slice_at ?off (unat cs) blocks)) blocks = splice_at (2 * unat i) (be_enc 2 1) blocks"
    using b(2,4) by (simp add: splice_slice fo)
  ultimately show ?thesis
    using lim by (subst claim_run.simps) (simp add: Let_def unat_div)
qed

lemma staged_blocks_cong: "length b' = length b \<Longrightarrow> staged_blocks cs n b' = staged_blocks cs n b"
  by (simp add: staged_blocks_def)

lemma claim_run_flat:
  assumes "staged_blocks cs n blocks" and "unat epr = unat cs div 2"
    and "unat lim \<le> n * unat epr"
  shows "\<exists>blocks'. claim_run blocks cs 16 epr i lim = (None, blocks') \<and> length blocks' = length blocks \<and>
    (\<forall>j < n * unat epr. rc_flat blocks' j =
       (if unat i \<le> j \<and> j < unat lim then 1 else rc_flat blocks j))"
  using assms
proof (induction "unat lim - unat i" arbitrary: blocks i)
  case 0
  then have "\<not> i < lim" by (simp add: word_less_nat_alt)
  with 0 show ?case by (subst claim_run.simps) auto
next
  case (Suc k)
  then have lt: "i < lim" by (simp add: word_less_nat_alt)
  then have inc: "unat (i + 1) = unat i + 1" and ul: "unat i < unat lim"
    by (auto simp: unat_inc word_less_nat_alt)
  have i: "unat i < n * unat epr" using ul Suc.prems(3) by simp
  let ?b = "splice_at (2 * unat i) (be_enc 2 1) blocks"
  have cap: "2 * (n * unat epr) = length blocks"
    using Suc.prems(1,2) by (auto simp: staged_blocks_def)
  then have len: "length ?b = length blocks" using i by simp
  have st: "staged_blocks cs n ?b" using Suc.prems(1) staged_blocks_cong [OF len] by simp
  have "k = unat lim - unat (i + 1)" using Suc.hyps(2) inc by simp
  from Suc.hyps(1) [OF this st Suc.prems(2,3)] obtain b' where
    b': "claim_run ?b cs 16 epr (i + 1) lim = (None, b')" "length b' = length blocks"
    "\<forall>j < n * unat epr. rc_flat b' j = (if unat i + 1 \<le> j \<and> j < unat lim then 1 else rc_flat ?b j)"
    unfolding inc len by blast
  have "rc_flat ?b j = (if j = unat i then 1 else rc_flat blocks j)" if "j < n * unat epr" for j
    using that i cap by (intro rc_flat_splice) auto
  then have "\<forall>j < n * unat epr. rc_flat b' j =
      (if unat i \<le> j \<and> j < unat lim then 1 else rc_flat blocks j)"
    using b'(3) ul by auto
  then show ?case
    using b' claim_step [OF Suc.prems(1,2) i lt] by auto
qed

text \<open>The specification of the scan, over the free entries: the least start at or after
  \<open>start\<close> of a run of \<open>c\<close> free entries inside \<open>tot\<close> entries.\<close>

definition run_free :: "(nat \<Rightarrow> bool) \<Rightarrow> nat \<Rightarrow> nat \<Rightarrow> bool" where
  "run_free free s c \<longleftrightarrow> (\<forall>j. s \<le> j \<and> j < s + c \<longrightarrow> free j)"

definition first_fit :: "(nat \<Rightarrow> bool) \<Rightarrow> nat \<Rightarrow> nat \<Rightarrow> nat \<Rightarrow> nat option \<Rightarrow> bool" where
  "first_fit free start c tot r =
     (case r of
        None \<Rightarrow> (\<forall>s. start \<le> s \<and> s + c \<le> tot \<longrightarrow> \<not> run_free free s c)
      | Some s \<Rightarrow> start \<le> s \<and> s + c \<le> tot \<and> run_free free s c \<and>
          (\<forall>s'. start \<le> s' \<and> s' < s \<longrightarrow> \<not> run_free free s' c))"

lemma first_fit_skip:
  assumes "first_fit free (p + 1) c tot r" and "start \<le> p" "p < start + c" "\<not> free p"
  shows "first_fit free start c tot r"
proof -
  have blocked: "\<not> run_free free s c" if "start \<le> s" "s \<le> p" for s
    using assms that unfolding run_free_def by (metis add_le_cancel_right less_le_trans)
  have key: "\<not> run_free free s c" if "start \<le> s" "p + 1 \<le> s \<Longrightarrow> \<not> run_free free s c" for s
    using that blocked [of s] by (cases "s \<le> p") auto
  show ?thesis
  proof (cases r)
    case None
    then show ?thesis using assms(1) key unfolding first_fit_def by (simp, blast)
  next
    case (Some s)
    then show ?thesis using assms(1,2) key unfolding first_fit_def by (simp, blast)
  qed
qed

text \<open>The probing loop over a total reader.\<close>

lemma probe_run_total:
  assumes "\<And>j. unat j < unat lim \<Longrightarrow> rd j = Inr (f (unat j))" and "unat probe \<le> unat lim"
  shows "(probe_run rd probe lim = Inr None \<and> (\<forall>j. unat probe \<le> j \<and> j < unat lim \<longrightarrow> f j = 0)) \<or>
    (\<exists>p. probe_run rd probe lim = Inr (Some p) \<and> unat probe \<le> unat p \<and> unat p < unat lim \<and>
       f (unat p) \<noteq> 0)"
  using assms(2)
proof (induction "unat lim - unat probe" arbitrary: probe)
  case 0
  then show ?case by (subst (1 2) probe_run.simps) (auto simp: word_less_nat_alt)
next
  case (Suc k)
  then have lt: "unat probe < unat lim" by simp
  then have inc: "unat (probe + 1) = unat probe + 1" by (intro unat_inc) (simp add: word_less_nat_alt)
  show ?case
  proof (cases "f (unat probe) = 0")
    case False
    with lt assms(1) [OF lt] show ?thesis
      by (subst (1 2) probe_run.simps) (auto simp: word_less_nat_alt)
  next
    case True
    then have eq: "probe_run rd probe lim = probe_run rd (probe + 1) lim"
      using lt assms(1) [OF lt] by (subst probe_run.simps) (auto simp: word_less_nat_alt)
    have split: "unat probe \<le> j \<Longrightarrow> j = unat probe \<or> unat probe + 1 \<le> j" for j by arith
    have "k = unat lim - unat (probe + 1)" "unat (probe + 1) \<le> unat lim"
      using Suc.hyps(2) lt inc by auto
    from Suc.hyps(1) [OF this] show ?thesis
      unfolding eq inc using True split by (metis Suc_eq_plus1 Suc_leD)
  qed
qed

lemma find_run_first_fit:
  assumes rd: "\<And>j. unat j < unat tot \<Longrightarrow> rd j = Inr (f (unat j))"
    and big: "unat tot + unat count < 2 ^ 64" and "unat start \<le> unat tot"
  shows "\<exists>r. find_run rd start count tot = Inr r \<and>
    first_fit (\<lambda>j. f j = 0) (unat start) (unat count) (unat tot) (map_option unat r)"
  using assms(3)
proof (induction "unat tot - unat start" arbitrary: start rule: less_induct)
  case less
  have sum: "unat (start + count) = unat start + unat count"
    using big less.prems by (intro unat_add_small) simp
  show ?case
  proof (cases "start + count \<le> tot")
    case False
    then have "\<not> unat start + unat count \<le> unat tot" by (simp add: word_le_nat_alt sum)
    with False show ?thesis by (subst find_run.simps) (auto simp: first_fit_def)
  next
    case True
    then have le: "unat start + unat count \<le> unat tot" by (simp add: word_le_nat_alt sum)
    have rd': "\<And>j. unat j < unat (start + count) \<Longrightarrow> rd j = Inr (f (unat j))" using rd le sum by simp
    from probe_run_total [of "start + count" rd f start, OF rd'] sum consider
      (free) "probe_run rd start (start + count) = Inr None"
        "\<forall>j. unat start \<le> j \<and> j < unat start + unat count \<longrightarrow> f j = 0"
    | (occ) p where "probe_run rd start (start + count) = Inr (Some p)" "unat start \<le> unat p"
        "unat p < unat start + unat count" "f (unat p) \<noteq> 0"
      by auto
    then show ?thesis
    proof cases
      case free
      with True le show ?thesis
        by (subst find_run.simps) (auto simp: first_fit_def run_free_def)
    next
      case (occ p)
      have eq: "find_run rd start count tot = find_run rd (p + 1) count tot"
        using True occ(1) by (subst find_run.simps) simp
      have inc: "unat (p + 1) = unat p + 1"
        using occ(3) sum by (intro unat_inc [of _ "start + count"]) (simp add: word_less_nat_alt)
      have "unat tot - unat (p + 1) < unat tot - unat start" "unat (p + 1) \<le> unat tot"
        using inc occ(2,3) le by auto
      from less.hyps [OF this] obtain r where "find_run rd (p + 1) count tot = Inr r"
        "first_fit (\<lambda>j. f j = 0) (unat p + 1) (unat count) (unat tot) (map_option unat r)"
        unfolding inc by blast
      moreover from this(2) have "first_fit (\<lambda>j. f j = 0) (unat start) (unat count) (unat tot)
          (map_option unat r)"
        by (rule first_fit_skip) (use occ in simp_all)
      ultimately show ?thesis using eq by simp
    qed
  qed
qed

definition cursor_pos :: "nat \<Rightarrow> alloc_cursor \<Rightarrow> nat" where
  "cursor_pos e c = unat (next_refblock c) * e + unat (next_entry_in_refblock c)"

text \<open>The allocator's prologue under a well-formed staging: the scan bounds as numbers.\<close>

lemma alloc_prologue:
  assumes st: "staged_blocks cs n blocks" and rbc: "unat rbc = n" and e: "e = unat cs div 2"
    and count: "0 < unat count" and pos: "cursor_pos e cursor \<le> n * e"
  obtains epr tot start where "unat epr = e" "unat tot = n * e" "unat start = cursor_pos e cursor"
    "n * e < 2 ^ 62"
    "alloc_contiguous_clusters_in_refblocks blocks cs 16 rbc base count cursor =
      (case find_run (read_entry blocks cs 16 epr) start count tot of
         Inl e \<Rightarrow> (Inl e, blocks, cursor)
       | Inr None \<Rightarrow> (Inl SnapRefcountExhausted, blocks, cursor)
       | Inr (Some s) \<Rightarrow>
         (case claim_run blocks cs 16 epr s (s + count) of
            (Some e, blocks') \<Rightarrow> (Inl e, blocks', cursor)
          | (None, blocks') \<Rightarrow>
            (ok_or (Option.bind (checked_mul s cs) (\<lambda>v. checked_add v base)) ParseFailed, blocks',
             cursor\<lparr>next_refblock := (s + count) div epr, next_entry_in_refblock := (s + count) mod epr,
                    allocated := allocated cursor + count\<rparr>)))"
proof -
  define epr where "epr = cs * 8 div 16"
  note ep = epr_unat [OF st, folded epr_def e]
  have "n * e \<le> (2 ^ 31 - 1) * 2 ^ 31"
    using st e by (intro mult_le_mono) (auto simp: staged_blocks_def)
  then have ne: "n * e < 2 ^ 62" by simp
  have nz: "cs \<noteq> 0" "count \<noteq> 0" "epr \<noteq> 0"
    using st count ep by (auto simp: staged_blocks_def unat_eq_0)
  define tot where "tot = rbc * epr"
  have tot: "unat tot = n * e" "checked_mul rbc epr = Some tot"
    using unat_mult_small [of rbc epr] ne by (auto simp: tot_def rbc ep(1) checked_mul_Some)
  define start where "start = next_refblock cursor * epr + next_entry_in_refblock cursor"
  have m: "unat (next_refblock cursor) * unat epr < 2 ^ 64" using pos ne by (simp add: cursor_pos_def ep)
  have um: "unat (next_refblock cursor * epr) = unat (next_refblock cursor) * e"
    using unat_mult_small [of "next_refblock cursor" epr] m by (simp add: ep)
  have start: "unat start = cursor_pos e cursor"
    "Option.bind (checked_mul (next_refblock cursor) epr)
       (\<lambda>v. checked_add v (next_entry_in_refblock cursor)) = Some start"
    using unat_add_small [of "next_refblock cursor * epr" "next_entry_in_refblock cursor"] m um pos ne
    by (auto simp: start_def cursor_pos_def checked_mul_def checked_add_def)
  have u: "ucast (16 :: u32) = (16 :: u64)" by simp
  show thesis
    using that [OF ep(1) tot(1) start(1) ne] nz tot(2) start(2)
    unfolding alloc_contiguous_clusters_in_refblocks_def Let_def u epr_def [symmetric] by simp
qed

lemma alloc_contiguous_first_fit:
  assumes st: "staged_blocks cs n blocks" and rbc: "unat rbc = n" and e: "e = unat cs div 2"
    and count: "0 < unat count" "unat count < 2 ^ 62"
    and pos: "cursor_pos e cursor \<le> n * e"
    and base: "n * e * unat cs + unat base < 2 ^ 64"
  shows "\<exists>r. first_fit (\<lambda>j. rc_flat blocks j = 0) (cursor_pos e cursor) (unat count) (n * e) r \<and>
    (case r of
       None \<Rightarrow> alloc_contiguous_clusters_in_refblocks blocks cs 16 rbc base count cursor =
                 (Inl SnapRefcountExhausted, blocks, cursor)
     | Some s \<Rightarrow> \<exists>host blocks' cursor'.
         alloc_contiguous_clusters_in_refblocks blocks cs 16 rbc base count cursor =
           (Inr host, blocks', cursor') \<and> unat host = s * unat cs + unat base \<and>
         length blocks' = length blocks \<and>
         (\<forall>j < n * e. rc_flat blocks' j = (if s \<le> j \<and> j < s + unat count then 1 else rc_flat blocks j)) \<and>
         cursor_pos e cursor' = s + unat count \<and> allocated cursor' = allocated cursor + count)"
  using st rbc e count(1) pos
proof (rule alloc_prologue [where base = base])
  fix epr tot start
  assume ep: "unat epr = e" and tot: "unat tot = n * e" and start: "unat start = cursor_pos e cursor"
    and ne: "n * e < 2 ^ 62"
    and al: "alloc_contiguous_clusters_in_refblocks blocks cs 16 rbc base count cursor =
      (case find_run (read_entry blocks cs 16 epr) start count tot of
         Inl e \<Rightarrow> (Inl e, blocks, cursor)
       | Inr None \<Rightarrow> (Inl SnapRefcountExhausted, blocks, cursor)
       | Inr (Some s) \<Rightarrow>
         (case claim_run blocks cs 16 epr s (s + count) of
            (Some e, blocks') \<Rightarrow> (Inl e, blocks', cursor)
          | (None, blocks') \<Rightarrow>
            (ok_or (Option.bind (checked_mul s cs) (\<lambda>v. checked_add v base)) ParseFailed, blocks',
             cursor\<lparr>next_refblock := (s + count) div epr, next_entry_in_refblock := (s + count) mod epr,
                    allocated := allocated cursor + count\<rparr>)))"
  have rd: "read_entry blocks cs 16 epr j = Inr (of_nat (rc_flat blocks (unat j)))"
    if "unat j < unat tot" for j
    using that read_entry_flat [OF st, of epr j] by (simp add: tot ep e)
  have zero: "(\<lambda>j. (of_nat (rc_flat blocks j) :: u64) = 0) = (\<lambda>j. rc_flat blocks j = 0)"
    by (simp add: fun_eq_iff word_unat_eq_iff [where 'a = 64] del: of_nat_eq_0_iff)
  have big: "unat tot + unat count < 2 ^ 64" "unat start \<le> unat tot"
    using ne count(2) tot start pos by auto
  from find_run_first_fit [of tot "read_entry blocks cs 16 epr" "\<lambda>j. of_nat (rc_flat blocks j)"
      count start, OF rd big]
  obtain r where fr: "find_run (read_entry blocks cs 16 epr) start count tot = Inr r"
    and ff: "first_fit (\<lambda>j. rc_flat blocks j = 0) (cursor_pos e cursor) (unat count) (n * e)
               (map_option unat r)"
    unfolding zero tot start by blast
  show ?thesis
  proof (cases r)
    case None
    with ff fr al show ?thesis by (intro exI [of _ None]) simp
  next
    case (Some s)
    have s: "unat s + unat count \<le> n * e" using ff Some by (simp add: first_fit_def)
    have sum: "unat (s + count) = unat s + unat count" using s ne by (intro unat_add_small) simp
    obtain blocks' where cl: "claim_run blocks cs 16 epr s (s + count) = (None, blocks')"
      "length blocks' = length blocks"
      "\<forall>j < n * e. rc_flat blocks' j = (if unat s \<le> j \<and> j < unat s + unat count then 1 else rc_flat blocks j)"
      using claim_run_flat [OF st, of epr "s + count" s] s by (auto simp: ep sum e)
    have "unat s * unat cs \<le> n * e * unat cs" using s by (intro mult_le_mono1) simp
    then have h: "unat s * unat cs + unat base < 2 ^ 64" using base by linarith
    then have um: "unat (s * cs) = unat s * unat cs" by (intro unat_mult_small) simp
    have uh: "unat (s * cs + base) = unat s * unat cs + unat base"
      using h um unat_add_small [of "s * cs" base] by simp
    have "cursor_pos e (cursor\<lparr>next_refblock := (s + count) div epr,
        next_entry_in_refblock := (s + count) mod epr, allocated := allocated cursor + count\<rparr>) =
        unat s + unat count"
      by (simp add: cursor_pos_def unat_div unat_mod ep sum)
    with ff Some cl(2,3) uh show ?thesis
      using al fr cl(1) h um by (intro exI [of _ "Some (unat s)"]) (simp add: checked_mul_def checked_add_def)
  qed
qed

lemma check_addend_dec:
  "bits \<noteq> 0 \<Longrightarrow> check_refcount_after_addend c (- 1) bits =
     (if c = 0 then Inl ParseFailed else Inr (c - 1))"
  by (simp add: check_refcount_after_addend_def Let_def word_less_nat_alt unat_eq_0 [symmetric])

lemma check_addend_inc:
  assumes w: "valid_width bits" and c: "unat c < 2 ^ unat bits"
  shows "check_refcount_after_addend c 1 bits =
     (if unat c + 1 < 2 ^ unat bits then Inr (c + 1) else Inl (RefcountOverflow 0))"
proof -
  define mx :: u64 where "mx = (if 64 \<le> bits then - 1 else push_bit (unat bits) 1 - 1)"
  have mx: "unat mx = 2 ^ unat bits - 1" and b: "bits \<noteq> 0" "unat bits \<le> 64"
    using w unfolding mx_def valid_width_def
    by (auto simp: word_le_nat_alt unsigned_minus_1_eq_mask mask_eq_exp_minus_1)
  have le: "(2 :: nat) ^ unat bits \<le> 2 ^ 64" using b(2) by (intro power_increasing) auto
  show ?thesis
  proof (cases "unat c + 1 < 2 ^ 64")
    case True
    then have "unat (c + 1) = unat c + 1" using unat_add_small [of c 1] by simp
    then have "mx < c + 1 \<longleftrightarrow> \<not> unat c + 1 < 2 ^ unat bits"
      using mx by (auto simp: word_less_nat_alt)
    with True b show ?thesis
      by (simp add: check_refcount_after_addend_def Let_def mx_def [symmetric] checked_add_def)
  next
    case False
    with le b show ?thesis
      by (simp add: check_refcount_after_addend_def Let_def checked_add_def)
  qed
qed

section \<open>Properties\<close>





text \<open>(C10) The allocator is first fit: from the cursor on, it claims the least run of \<open>count\<close> free clusters of the
  staged refblocks, sets exactly these refcounts to one, returns the host offset of the run and moves the cursor
  behind it; when there is no such run it reports exhaustion and changes nothing.\<close>

theorem alloc_first_fit:
  assumes "staged_blocks cs n blocks" and "unat rbc = n" and "e = unat cs div 2"
    and "0 < unat count" "unat count < 2 ^ 62" and "cursor_pos e cursor \<le> n * e"
    and "n * e * unat cs + unat base < 2 ^ 64"
  shows "\<exists>r. first_fit (\<lambda>j. rc_flat blocks j = 0) (cursor_pos e cursor) (unat count) (n * e) r \<and>
    (case r of
       None \<Rightarrow> alloc_contiguous_clusters_in_refblocks blocks cs 16 rbc base count cursor =
                 (Inl SnapRefcountExhausted, blocks, cursor)
     | Some s \<Rightarrow> \<exists>host blocks' cursor'.
         alloc_contiguous_clusters_in_refblocks blocks cs 16 rbc base count cursor =
           (Inr host, blocks', cursor') \<and> unat host = s * unat cs + unat base \<and>
         length blocks' = length blocks \<and>
         (\<forall>j < n * e. rc_flat blocks' j = (if s \<le> j \<and> j < s + unat count then 1 else rc_flat blocks j)) \<and>
         cursor_pos e cursor' = s + unat count \<and> allocated cursor' = allocated cursor + count)"
  using assms by (rule alloc_contiguous_first_fit)

theorem alloc_first_fit_witness:
  "first_fit (\<lambda>j. rc_flat [0, 1, 0, 0, 0, 1, 0, 0] j = 0) 0 1 4 (Some 1) \<and>
   alloc_contiguous_clusters_in_refblocks [0, 1, 0, 0, 0, 1, 0, 0] 8 16 1 0 1 empty_cursor =
     (Inr 8, [0, 1, 0, 1, 0, 1, 0, 0], \<lparr>next_refblock = 0, next_entry_in_refblock = 2, allocated = 1\<rparr>)"
proof -
  let ?b = "[0, 1, 0, 0, 0, 1, 0, 0] :: bytes"
  have al: "alloc_contiguous_clusters_in_refblocks ?b 8 16 1 0 1 empty_cursor =
     (Inr 8, [0, 1, 0, 1, 0, 1, 0, 0], \<lparr>next_refblock = 0, next_entry_in_refblock = 2, allocated = 1\<rparr>)"
    by (simp add: alloc_contiguous_clusters_in_refblocks_def Let_def empty_cursor_def checked_mul_def checked_add_def
        find_run.simps probe_run.simps claim_run.simps read_entry_def read_refcount_in_block_def slice_at_def
        splice_at_def set_refcount_in_block_def be_val_def ok_or_def)
  have "staged_blocks 8 1 ?b" by (simp add: staged_blocks_def)
  from alloc_first_fit[OF this, of 1 4 1 empty_cursor 0] obtain r
    where r: "first_fit (\<lambda>j. rc_flat ?b j = 0) 0 1 4 r" "r \<noteq> None" and s: "\<And>s. r = Some s \<Longrightarrow> s * 8 = 8"
    using al by (auto simp: cursor_pos_def empty_cursor_def split: option.splits)
  then have "r = Some 1" by (cases r) auto
  then show ?thesis using r al by simp
qed

text \<open>(C13) Refcount arithmetic: adding one to a counter that fits its width gives the next value, or an overflow
  error exactly at the greatest value of the width; subtracting one gives the previous value, or an error exactly
  at zero.\<close>

theorem refcount_addend_exact:
  assumes "valid_width bits" and "unat c < 2 ^ unat bits"
  shows "check_refcount_after_addend c 1 bits = (if unat c + 1 < 2 ^ unat bits then Inr (c + 1) else Inl (RefcountOverflow 0)) \<and>
    check_refcount_after_addend c (- 1) bits = (if c = 0 then Inl ParseFailed else Inr (c - 1))"
proof -
  have "bits \<noteq> 0" using assms(1) by (auto simp: valid_width_def)
  then show ?thesis using check_addend_inc[OF assms] check_addend_dec by blast
qed

theorem refcount_addend_exact_witness:
  "check_refcount_after_addend 65535 1 16 = Inl (RefcountOverflow 0) \<and> check_refcount_after_addend 65534 1 16 = Inr 65535"
  using refcount_addend_exact[of 16 65535] refcount_addend_exact[of 16 65534] by (simp add: valid_width_def)

end
