(* ===== verification/Qcow2_Format.thy ===== *)
theory Qcow2_Format
  imports Instar_Base
begin

text \<open>
  The on-disk vocabulary of the qcow2 format as the parser crate reads it
  (\<^verbatim>\<open>src/src/crates/qcow2/src/lib.rs\<close>): entry flags and masks, the image header and its parser,
  the L2-entry and subcluster classifiers, and the codec of compressed L2 entries.  The lemmas bound
  what an accepted header can say, show that the subcluster runs are maximal and uniform, and that
  compressed entries round-trip.
\<close>

section \<open>Flags, masks and header offsets\<close>

definition INCOMPAT_DIRTY :: u64 where "INCOMPAT_DIRTY = 1"
definition INCOMPAT_CORRUPT :: u64 where "INCOMPAT_CORRUPT = 2"
definition INCOMPAT_EXTERNAL_DATA :: u64 where "INCOMPAT_EXTERNAL_DATA = 4"
definition INCOMPAT_COMPRESSION :: u64 where "INCOMPAT_COMPRESSION = 8"
definition INCOMPAT_EXTENDED_L2 :: u64 where "INCOMPAT_EXTENDED_L2 = 16"
definition COMPAT_LAZY_REFCOUNTS :: u64 where "COMPAT_LAZY_REFCOUNTS = 1"

definition QCOW_OFLAG_ZERO :: u64 where "QCOW_OFLAG_ZERO = 1"
definition OFLAG_COMPRESSED :: u64 where "OFLAG_COMPRESSED = 0x4000000000000000"
definition OFLAG_COPIED :: u64 where "OFLAG_COPIED = 0x8000000000000000"
definition L1_OFFSET_MASK :: u64 where "L1_OFFSET_MASK = 0x00fffffffffffe00"
definition L2_OFFSET_MASK :: u64 where "L2_OFFSET_MASK = 0x00fffffffffffe00"

definition QCOW2_MAX_L1_SIZE_ENTRIES :: u32 where "QCOW2_MAX_L1_SIZE_ENTRIES = 4194304"

lemmas feature_bits =
  INCOMPAT_DIRTY_def INCOMPAT_CORRUPT_def INCOMPAT_EXTERNAL_DATA_def INCOMPAT_COMPRESSION_def
  INCOMPAT_EXTENDED_L2_def COMPAT_LAZY_REFCOUNTS_def

lemmas entry_bits =
  QCOW_OFLAG_ZERO_def OFLAG_COMPRESSED_def OFLAG_COPIED_def L1_OFFSET_MASK_def L2_OFFSET_MASK_def

section \<open>The image header\<close>

record qcow_header =
  h_version :: u32
  h_header_length :: u32
  h_cluster_bits :: u32
  h_cluster_size :: u64
  h_virtual_size :: u64
  h_l1_size :: u32
  h_l1_table_offset :: u64
  h_backing_file_offset :: u64
  h_backing_file_size :: u32
  h_crypt_method :: u32
  h_refcount_table_offset :: u64
  h_refcount_table_clusters :: u32
  h_refcount_bits :: u32
  h_incompatible_features :: u64
  h_compatible_features :: u64
  h_compression_type :: u8
  h_nb_snapshots :: u32
  h_snapshots_offset :: u64
  h_dirty :: bool
  h_corrupt :: bool
  h_has_external_data :: bool
  h_extended_l2 :: bool
  h_lazy_refcounts :: bool

text \<open>\<^verbatim>\<open>be_u32\<close> and \<^verbatim>\<open>be_u64\<close> of \<^verbatim>\<open>src/src/shared/src/lib.rs\<close>; the parser calls them after its length
  check only.\<close>

definition be_u32 :: "bytes \<Rightarrow> nat \<Rightarrow> u32" where
  "be_u32 buf off = u32_from_be (slice_at off 4 buf)"

definition be_u64 :: "bytes \<Rightarrow> nat \<Rightarrow> u64" where
  "be_u64 buf off = u64_from_be (slice_at off 8 buf)"

definition parse_header :: "bytes \<Rightarrow> qcow_header option" where
  "parse_header hdr =
   (if length hdr < 105 then None
    else let version = be_u32 hdr 4 in
    if version \<noteq> 2 \<and> version \<noteq> 3 then None
    else let header_length = (if 3 \<le> version then be_u32 hdr 100 else 72);
             cluster_bits = be_u32 hdr 20 in
    if \<not> (9 \<le> cluster_bits \<and> cluster_bits \<le> 21) then None
    else let cluster_size = shl 1 (unat cluster_bits);
             virtual_size = be_u64 hdr 24;
             l1_size = be_u32 hdr 36 in
    if QCOW2_MAX_L1_SIZE_ENTRIES < l1_size then None
    else let (refcount_bits, incompat, compat, ct) =
           (if 3 \<le> version then
              (let refcount_order = be_u32 hdr 96 in
               (if refcount_order \<le> 6 then shl 1 (unat refcount_order) else 16,
                be_u64 hdr 72, be_u64 hdr 80, hdr ! 104))
            else (16, 0, 0, 0));
             l2_entry_size = (if incompat AND INCOMPAT_EXTENDED_L2 \<noteq> 0 then 16 else 8);
             l2_coverage = cluster_size * (cluster_size div l2_entry_size) in
    if ucast QCOW2_MAX_L1_SIZE_ENTRIES < div_ceil virtual_size l2_coverage then None
    else Some \<lparr>h_version = version, h_header_length = header_length,
        h_cluster_bits = cluster_bits, h_cluster_size = cluster_size,
        h_virtual_size = virtual_size, h_l1_size = l1_size,
        h_l1_table_offset = be_u64 hdr 40, h_backing_file_offset = be_u64 hdr 8,
        h_backing_file_size = be_u32 hdr 16, h_crypt_method = be_u32 hdr 32,
        h_refcount_table_offset = be_u64 hdr 48, h_refcount_table_clusters = be_u32 hdr 56,
        h_refcount_bits = refcount_bits, h_incompatible_features = incompat,
        h_compatible_features = compat, h_compression_type = ct,
        h_nb_snapshots = be_u32 hdr 60, h_snapshots_offset = be_u64 hdr 64,
        h_dirty = (incompat AND INCOMPAT_DIRTY \<noteq> 0),
        h_corrupt = (incompat AND INCOMPAT_CORRUPT \<noteq> 0),
        h_has_external_data = (incompat AND INCOMPAT_EXTERNAL_DATA \<noteq> 0),
        h_extended_l2 = (incompat AND INCOMPAT_EXTENDED_L2 \<noteq> 0),
        h_lazy_refcounts = (compat AND COMPAT_LAZY_REFCOUNTS \<noteq> 0)\<rparr>)"

definition qemu_disk_size :: "qcow_header \<Rightarrow> u64" where
  "qemu_disk_size h =
     (let l1_table_end = saturating_add (h_l1_table_offset h) (saturating_mul (ucast (h_l1_size h)) 8)
      in saturating_mul (saturating_add l1_table_end 511 div 512) 512)"

definition compat_str :: "qcow_header \<Rightarrow> string" where
  "compat_str h = (if 3 \<le> h_version h then ''1.1'' else ''0.10'')"

definition compat_value :: "qcow_header \<Rightarrow> u8" where
  "compat_value h = (if 3 \<le> h_version h then 1 else 0)"

section \<open>Classification of L2 entries and subclusters\<close>

datatype subcluster_type =
  ScNormal | ScZeroAlloc | ScZeroPlain | ScUnallocatedAlloc | ScUnallocatedPlain | ScCompressed | ScInvalid

datatype cluster_type = CtUnallocated | CtZeroPlain | CtZeroAlloc | CtNormal | CtCompressed

definition get_cluster_type :: "u64 \<Rightarrow> bool \<Rightarrow> bool \<Rightarrow> cluster_type" where
  "get_cluster_type l2_entry extended_l2 has_data_file =
     (if l2_entry AND OFLAG_COMPRESSED \<noteq> 0 then CtCompressed
      else if l2_entry AND QCOW_OFLAG_ZERO \<noteq> 0 \<and> \<not> extended_l2 then
        (if l2_entry AND L2_OFFSET_MASK \<noteq> 0 then CtZeroAlloc else CtZeroPlain)
      else if l2_entry AND L2_OFFSET_MASK = 0 then
        (if has_data_file \<and> l2_entry AND OFLAG_COPIED \<noteq> 0 then CtNormal else CtUnallocated)
      else CtNormal)"

definition l2_entry_names_host_cluster :: "u64 \<Rightarrow> bool \<Rightarrow> bool \<Rightarrow> bool" where
  "l2_entry_names_host_cluster l2_entry extended_l2 has_data_file =
     (case get_cluster_type l2_entry extended_l2 has_data_file of
        CtNormal \<Rightarrow> True | CtZeroAlloc \<Rightarrow> True | _ \<Rightarrow> False)"

definition subclusters_per_cluster :: "bool \<Rightarrow> u32" where
  "subclusters_per_cluster extended_l2 = (if extended_l2 then 32 else 1)"

definition sub_alloc_range :: "u32 \<Rightarrow> u32 \<Rightarrow> u32" where
  "sub_alloc_range from to = ucast (shl 1 (unat to) - shl 1 (unat from) :: u64)"

definition get_subcluster_type :: "u64 \<Rightarrow> u64 \<Rightarrow> u32 \<Rightarrow> bool \<Rightarrow> bool \<Rightarrow> subcluster_type" where
  "get_subcluster_type l2_entry bitmap sc_index extended_l2 has_data_file =
     (if subclusters_per_cluster extended_l2 \<le> sc_index then ScInvalid
      else let ctype = get_cluster_type l2_entry extended_l2 has_data_file in
        if \<not> extended_l2 then
          (case ctype of
             CtCompressed \<Rightarrow> ScCompressed
           | CtZeroPlain \<Rightarrow> ScZeroPlain
           | CtZeroAlloc \<Rightarrow> ScZeroAlloc
           | CtNormal \<Rightarrow> ScNormal
           | CtUnallocated \<Rightarrow> ScUnallocatedPlain)
        else
          let alloc_bits = (ucast bitmap :: u32);
              zero_bits = (ucast (drop_bit 32 bitmap) :: u32);
              sc_bit = shl 1 (unat sc_index) in
          (case ctype of
             CtCompressed \<Rightarrow> ScCompressed
           | CtNormal \<Rightarrow>
               (if zero_bits AND alloc_bits \<noteq> 0 then ScInvalid
                else if zero_bits AND sc_bit \<noteq> 0 then ScZeroAlloc
                else if alloc_bits AND sc_bit \<noteq> 0 then ScNormal
                else ScUnallocatedAlloc)
           | CtUnallocated \<Rightarrow>
               (if alloc_bits \<noteq> 0 then ScInvalid
                else if zero_bits AND sc_bit \<noteq> 0 then ScZeroPlain
                else ScUnallocatedPlain)
           | CtZeroPlain \<Rightarrow> ScInvalid
           | CtZeroAlloc \<Rightarrow> ScInvalid))"

text \<open>\<^verbatim>\<open>u32::trailing_ones\<close> and \<^verbatim>\<open>u32::trailing_zeros\<close>: the number of consecutive set (clear) bits
  from bit 0, 32 when every bit is.\<close>

primrec count_from :: "(nat \<Rightarrow> bool) \<Rightarrow> nat \<Rightarrow> nat \<Rightarrow> nat" where
  "count_from p i 0 = i"
| "count_from p i (Suc k) = (if p i then count_from p (Suc i) k else i)"

definition trailing_ones :: "u32 \<Rightarrow> u32" where
  "trailing_ones w = of_nat (count_from (bit w) 0 32)"

definition trailing_zeros :: "u32 \<Rightarrow> u32" where
  "trailing_zeros w = of_nat (count_from (\<lambda>i. \<not> bit w i) 0 32)"

definition subcluster_range :: "u64 \<Rightarrow> u64 \<Rightarrow> u32 \<Rightarrow> bool \<Rightarrow> bool \<Rightarrow> subcluster_type \<times> u32" where
  "subcluster_range l2_entry bitmap sc_from extended_l2 has_data_file =
     (let ty = get_subcluster_type l2_entry bitmap sc_from extended_l2 has_data_file;
          per_cluster = subclusters_per_cluster extended_l2 in
      if ty = ScInvalid then (ty, 0)
      else if \<not> extended_l2 \<or> ty = ScCompressed then (ty, per_cluster - sc_from)
      else
        let alloc_bits = (ucast bitmap :: u32);
            zero_bits = (ucast (drop_bit 32 bitmap) :: u32);
            below = sub_alloc_range 0 sc_from;
            run = (case ty of
               ScNormal \<Rightarrow> trailing_ones (alloc_bits OR below) - sc_from
             | ScZeroPlain \<Rightarrow> trailing_ones (zero_bits OR below) - sc_from
             | ScZeroAlloc \<Rightarrow> trailing_ones (zero_bits OR below) - sc_from
             | ScUnallocatedPlain \<Rightarrow> trailing_zeros ((zero_bits OR alloc_bits) AND NOT below) - sc_from
             | ScUnallocatedAlloc \<Rightarrow> trailing_zeros ((zero_bits OR alloc_bits) AND NOT below) - sc_from
             | ScCompressed \<Rightarrow> 0
             | ScInvalid \<Rightarrow> 0) in
        (ty, run))"




section \<open>Compressed L2 entries\<close>

definition encode_compressed_l2_entry :: "u64 \<Rightarrow> u64 \<Rightarrow> u32 \<Rightarrow> u64" where
  "encode_compressed_l2_entry host_offset compressed_bytes cluster_bits =
     (let csize_shift = (62 - (ucast cluster_bits - 8) :: u64);
          offset_mask = shl 1 (unat csize_shift) - 1;
          nb_sectors = div_ceil compressed_bytes 512 in
      OFLAG_COMPRESSED OR shl (nb_sectors - 1) (unat csize_shift) OR (host_offset AND offset_mask))"

definition parse_compressed_l2_entry :: "u64 \<Rightarrow> u32 \<Rightarrow> (u64 \<times> u64) option" where
  "parse_compressed_l2_entry l2_entry cluster_bits =
     (let csize_shift = (62 - (ucast cluster_bits - 8) :: u64);
          csize_mask = shl 1 (unat (ucast cluster_bits - 8 :: u64)) - 1;
          offset_mask = shl 1 (unat csize_shift) - 1;
          compressed_offset = l2_entry AND offset_mask;
          nb_sectors = (shr l2_entry (unat csize_shift) AND csize_mask) + 1 in
      case checked_mul nb_sectors 512 of
        None \<Rightarrow> None
      | Some nb_sectors_bytes \<Rightarrow>
          (let offset_remainder = compressed_offset AND 511 in
           if nb_sectors_bytes < offset_remainder then None
           else let compressed_size = nb_sectors_bytes - offset_remainder in
             if compressed_size = 0 then None else Some (compressed_offset, compressed_size)))"

section \<open>What an accepted header can say\<close>

lemma cluster_bits_cases [consumes 2]:
  fixes cb :: u32
  assumes "9 \<le> cb" "cb \<le> 21"
  obtains "cb = 9" | "cb = 10" | "cb = 11" | "cb = 12" | "cb = 13" | "cb = 14" | "cb = 15" | "cb = 16"
    | "cb = 17" | "cb = 18" | "cb = 19" | "cb = 20" | "cb = 21"
proof -
  define n where "n = unat cb"
  have n: "9 \<le> n" "n \<le> 21" using assms by (simp_all add: n_def word_le_nat_alt)
  have cb: "cb = of_nat n" by (simp add: n_def)
  have "n = 9 \<or> n = 10 \<or> n = 11 \<or> n = 12 \<or> n = 13 \<or> n = 14 \<or> n = 15 \<or> n = 16 \<or> n = 17 \<or> n = 18
      \<or> n = 19 \<or> n = 20 \<or> n = 21" using n by presburger
  then show thesis using that cb by auto
qed

lemma parse_header_Some:
  assumes "parse_header hdr = Some h"
  obtains "105 \<le> length hdr" "h_version h = 2 \<or> h_version h = 3" "9 \<le> h_cluster_bits h" "h_cluster_bits h \<le> 21"
    "h_cluster_size h = shl 1 (unat (h_cluster_bits h))" "h_l1_size h \<le> QCOW2_MAX_L1_SIZE_ENTRIES"
    "h_refcount_bits h = 16 \<or> (\<exists>k::u32. k \<le> 6 \<and> h_refcount_bits h = shl 1 (unat k))"
    "div_ceil (h_virtual_size h) (h_cluster_size h * (h_cluster_size h div (if h_extended_l2 h then 16 else 8)))
       \<le> ucast QCOW2_MAX_L1_SIZE_ENTRIES"
proof -
  have "105 \<le> length hdr \<and> (h_version h = 2 \<or> h_version h = 3) \<and> 9 \<le> h_cluster_bits h \<and> h_cluster_bits h \<le> 21 \<and>
    h_cluster_size h = shl 1 (unat (h_cluster_bits h)) \<and> h_l1_size h \<le> QCOW2_MAX_L1_SIZE_ENTRIES \<and>
    (h_refcount_bits h = 16 \<or> (\<exists>k::u32. k \<le> 6 \<and> h_refcount_bits h = shl 1 (unat k))) \<and>
    div_ceil (h_virtual_size h) (h_cluster_size h * (h_cluster_size h div (if h_extended_l2 h then 16 else 8)))
       \<le> ucast QCOW2_MAX_L1_SIZE_ENTRIES"
    using assms unfolding parse_header_def Let_def
    by (auto simp: not_less split: if_splits)
  then show thesis using that by blast
qed

lemma max_l1_unat [simp]: "unat QCOW2_MAX_L1_SIZE_ENTRIES = 4194304"
  by (simp add: QCOW2_MAX_L1_SIZE_ENTRIES_def)

lemma l2_coverage_unat:
  assumes "9 \<le> cb" "cb \<le> (21 :: u32)"
  shows "unat (shl 1 (unat cb) * (shl 1 (unat cb) div (if ext then 16 else 8)) :: u64) = 2 ^ (2 * unat cb - (if ext then 4 else 3))"
  using assms by (cases rule: cluster_bits_cases) (simp_all add: shl_def)

lemma header_refcount_width:
  assumes "k \<le> (6 :: u32)" shows "unat (shl 1 (unat k) :: u32) = 2 ^ unat k"
  using assms by (simp add: shl_one word_le_nat_alt)

lemma parse_header_bounds:
  assumes "parse_header hdr = Some h"
  shows "h_version h \<in> {2, 3}"
    and "9 \<le> unat (h_cluster_bits h)" and "unat (h_cluster_bits h) \<le> 21"
    and "unat (h_cluster_size h) = 2 ^ unat (h_cluster_bits h)"
    and "unat (h_l1_size h) \<le> 4194304"
    and "unat (h_refcount_bits h) \<in> {1, 2, 4, 8, 16, 32, 64}"
    and "unat (h_virtual_size h) \<le> 4194304 * 2 ^ (2 * unat (h_cluster_bits h) - (if h_extended_l2 h then 4 else 3))"
proof -
  note H = parse_header_Some[OF assms]
  show "h_version h \<in> {2, 3}" by (rule H) auto
  show cb: "9 \<le> unat (h_cluster_bits h)" "unat (h_cluster_bits h) \<le> 21" by (rule H; simp add: word_le_nat_alt)+
  show "unat (h_cluster_size h) = 2 ^ unat (h_cluster_bits h)" using cb by (rule_tac H) (simp add: shl_one)
  show "unat (h_l1_size h) \<le> 4194304" by (rule H) (simp add: word_le_nat_alt)
  show "unat (h_refcount_bits h) \<in> {1, 2, 4, 8, 16, 32, 64}"
  proof (rule H)
    assume "h_refcount_bits h = 16 \<or> (\<exists>k::u32. k \<le> 6 \<and> h_refcount_bits h = shl 1 (unat k))"
    then show ?thesis
    proof (elim disjE exE conjE)
      fix k :: u32 assume k: "k \<le> 6" "h_refcount_bits h = shl 1 (unat k)"
      have "unat k \<le> 6" using k by (simp add: word_le_nat_alt)
      then have "unat k = 0 \<or> unat k = 1 \<or> unat k = 2 \<or> unat k = 3 \<or> unat k = 4 \<or> unat k = 5 \<or> unat k = 6" by linarith
      then show ?thesis using k header_refcount_width[OF k(1)] by auto
    qed simp
  qed
  show "unat (h_virtual_size h) \<le> 4194304 * 2 ^ (2 * unat (h_cluster_bits h) - (if h_extended_l2 h then 4 else 3))"
  proof (rule H)
    let ?cov = "h_cluster_size h * (h_cluster_size h div (if h_extended_l2 h then 16 else 8))"
    assume A: "9 \<le> h_cluster_bits h" "h_cluster_bits h \<le> 21" "h_cluster_size h = shl 1 (unat (h_cluster_bits h))"
      "div_ceil (h_virtual_size h) ?cov \<le> ucast QCOW2_MAX_L1_SIZE_ENTRIES"
    have cov: "unat ?cov = 2 ^ (2 * unat (h_cluster_bits h) - (if h_extended_l2 h then 4 else 3))"
      using l2_coverage_unat[OF A(1,2)] A(3) by simp
    then have "?cov \<noteq> 0" by (metis power_eq_0_iff unat_0 zero_neq_numeral)
    from le_div_ceilD[OF this A(4)] show ?thesis unfolding cov by (simp add: QCOW2_MAX_L1_SIZE_ENTRIES_def)
  qed
qed

lemma round_up_no_overflow:
  assumes "parse_header hdr = Some h"
  shows "unat (div_ceil (h_virtual_size h) (h_cluster_size h)) * unat (h_cluster_size h) < 2 ^ 62"
proof -
  let ?cs = "unat (h_cluster_size h)" and ?cb = "unat (h_cluster_bits h)" and ?v = "unat (h_virtual_size h)"
  note B = parse_header_bounds[OF assms]
  have cs: "?cs = 2 ^ ?cb" by (rule B(4))
  have cs21: "?cs \<le> 2 ^ 21" unfolding cs using B(3) by (rule power_increasing) simp
  have "h_cluster_size h \<noteq> 0" using cs by (metis power_eq_0_iff unat_0 zero_neq_numeral)
  then have "unat (div_ceil (h_virtual_size h) (h_cluster_size h)) * ?cs = (?v + ?cs - 1) div ?cs * ?cs"
    by (simp add: unat_div_ceil)
  also have "\<dots> \<le> ?v + ?cs" by (metis (no_types, lifting) diff_le_self div_times_less_eq_dividend le_trans)
  also have "?v \<le> 4194304 * 2 ^ 39"
  proof -
    have "2 * ?cb - (if h_extended_l2 h then 4 else 3) \<le> 39" using B(3) by (cases "h_extended_l2 h") simp_all
    then have "(2::nat) ^ (2 * ?cb - (if h_extended_l2 h then 4 else 3)) \<le> 2 ^ 39" by (rule power_increasing) simp
    then show ?thesis using B(7) by linarith
  qed
  finally show ?thesis using cs21 by simp
qed

section \<open>Subcluster runs are maximal\<close>

lemma count_from_spec:
  "i \<le> count_from p i k \<and> count_from p i k \<le> i + k \<and> (\<forall>j. i \<le> j \<and> j < count_from p i k \<longrightarrow> p j) \<and>
   (count_from p i k < i + k \<longrightarrow> \<not> p (count_from p i k))"
proof (induction k arbitrary: i)
  case (Suc k)
  show ?case
  proof (cases "p i")
    case True
    have "p j" if "i \<le> j" "j < count_from p (Suc i) k" for j
      using Suc[of "Suc i"] that True by (cases "j = i") auto
    then show ?thesis using True Suc[of "Suc i"] by auto
  qed auto
qed auto

lemma bit_sub_alloc_range:
  assumes "unat sc \<le> 32" shows "bit (sub_alloc_range 0 sc) i \<longleftrightarrow> i < 32 \<and> i < unat sc"
proof -
  have "shl 1 (unat sc) - shl 1 (unat (0::u32)) = (mask (unat sc) :: u64)"
    using assms by (simp add: shl_def mask_eq_exp_minus_1)
  then show ?thesis using assms by (auto simp: sub_alloc_range_def bit_ucast_iff bit_mask_iff)
qed

abbreviation abit :: "u64 \<Rightarrow> nat \<Rightarrow> bool" where "abit bm i \<equiv> bit bm i"
abbreviation zbit :: "u64 \<Rightarrow> nat \<Rightarrow> bool" where "zbit bm i \<equiv> bit bm (32 + i)"

lemma alloc_bit: "bit (ucast (bm :: u64) :: u32) i \<longleftrightarrow> i < 32 \<and> abit bm i"
  by (simp add: bit_ucast_iff)
lemma zero_bit: "bit (ucast (drop_bit 32 (bm :: u64)) :: u32) i \<longleftrightarrow> i < 32 \<and> zbit bm i"
  by (auto simp: bit_ucast_iff bit_drop_bit_eq)

lemma ext_ctype: "get_cluster_type e True df \<in> {CtCompressed, CtNormal, CtUnallocated}"
  by (auto simp: get_cluster_type_def)

lemma ext_subcluster_type:
  assumes "i < 32"
  shows "get_subcluster_type e bm (of_nat i) True df =
   (if get_cluster_type e True df = CtCompressed then ScCompressed
    else if get_cluster_type e True df = CtNormal then
      (if \<exists>j<32. abit bm j \<and> zbit bm j then ScInvalid else if zbit bm i then ScZeroAlloc
       else if abit bm i then ScNormal else ScUnallocatedAlloc)
    else if \<exists>j<32. abit bm j then ScInvalid else if zbit bm i then ScZeroPlain else ScUnallocatedPlain)"
proof -
  let ?a = "ucast bm :: u32" and ?z = "ucast (drop_bit 32 bm) :: u32"
  have u: "unat (of_nat i :: u32) = i" using assms by (simp add: unat_of_nat take_bit_nat_eq_self)
  have lt: "\<not> subclusters_per_cluster True \<le> of_nat i"
    using assms u by (simp add: subclusters_per_cluster_def word_le_nat_alt)
  have az: "?z AND ?a = 0 \<longleftrightarrow> \<not> (\<exists>j<32. abit bm j \<and> zbit bm j)"
    by (auto simp: bit_eq_iff bit_and_iff alloc_bit zero_bit bit_drop_bit_eq)
  have a0: "?a = 0 \<longleftrightarrow> \<not> (\<exists>j<32. abit bm j)" by (auto simp: bit_eq_iff alloc_bit)
  have zi: "?z AND shl 1 i = 0 \<longleftrightarrow> \<not> zbit bm i" "?a AND shl 1 i = 0 \<longleftrightarrow> \<not> abit bm i"
    using assms and_shl_1[of i ?z] and_shl_1[of i ?a] by (auto simp: zero_bit alloc_bit bit_drop_bit_eq)
  show ?thesis unfolding get_subcluster_type_def Let_def u if_not_P[OF lt] az zi a0 not_not
    using ext_ctype[of e df] by (cases "get_cluster_type e True df") auto
qed

lemma ext_run:
  assumes sc: "i < 32" and p: "p i" and q: "\<And>j. j < 32 \<Longrightarrow> q j \<longleftrightarrow> j < i \<or> p j"
    and r: "r = of_nat (count_from q 0 32) - (of_nat i :: u32)"
  shows "0 < unat r \<and> i + unat r \<le> 32 \<and> (\<forall>j<unat r. p (i + j)) \<and> (i + unat r < 32 \<longrightarrow> \<not> p (i + unat r))"
proof -
  let ?c = "count_from q 0 32"
  have c: "?c \<le> 32" "\<forall>j<?c. q j" "?c < 32 \<longrightarrow> \<not> q ?c" using count_from_spec[of 0 q 32] by auto
  have ic: "i < ?c" using c(3) q[of ?c] p sc by (cases "?c = i") (auto simp: not_less_iff_gr_or_eq)
  have "unat r = ?c - i"
  proof -
    have u: "unat (of_nat ?c :: u32) = ?c" "unat (of_nat i :: u32) = i"
      using c(1) sc by (simp_all add: unat_of_nat take_bit_nat_eq_self)
    then have "(of_nat i :: u32) \<le> of_nat ?c" using ic by (simp add: word_le_nat_alt)
    then show ?thesis using u unfolding r by (simp add: unat_sub)
  qed
  moreover have "p j" if "i \<le> j" "j < ?c" for j using that c(1,2) q[of j] by auto
  ultimately show ?thesis using ic c q[of ?c] by auto
qed

lemma subcluster_range_ext:
  assumes i: "i < 32" and ty: "get_subcluster_type e bm (of_nat i) True df = ty" "ty \<noteq> ScInvalid" "ty \<noteq> ScCompressed"
  shows "\<exists>q. subcluster_range e bm (of_nat i) True df = (ty, of_nat (count_from q 0 32) - of_nat i) \<and>
     (\<forall>j<32. q j \<longleftrightarrow> j < i \<or> get_subcluster_type e bm (of_nat j) True df = ty)"
proof -
  let ?a = "ucast bm :: u32" and ?z = "ucast (drop_bit 32 bm) :: u32" and ?b = "sub_alloc_range 0 (of_nat i)"
  have u: "unat (of_nat i :: u32) = i" using i by (simp add: unat_of_nat take_bit_nat_eq_self)
  have bb: "bit ?b j \<longleftrightarrow> j < i" if "j < 32" for j using bit_sub_alloc_range[of "of_nat i" j] u i that by simp
  have fin: ?thesis
    if run: "(case ty of ScNormal \<Rightarrow> trailing_ones (?a OR ?b) - of_nat i
             | ScZeroPlain \<Rightarrow> trailing_ones (?z OR ?b) - of_nat i
             | ScZeroAlloc \<Rightarrow> trailing_ones (?z OR ?b) - of_nat i
             | ScUnallocatedPlain \<Rightarrow> trailing_zeros ((?z OR ?a) AND NOT ?b) - of_nat i
             | ScUnallocatedAlloc \<Rightarrow> trailing_zeros ((?z OR ?a) AND NOT ?b) - of_nat i
             | ScCompressed \<Rightarrow> 0 | ScInvalid \<Rightarrow> 0) = of_nat (count_from q 0 32) - of_nat i"
      and q: "\<forall>j<32. q j \<longleftrightarrow> j < i \<or> p j" and p: "\<forall>j<32. p j \<longleftrightarrow> get_subcluster_type e bm (of_nat j) True df = ty"
    for p q
  proof (intro exI conjI)
    show "subcluster_range e bm (of_nat i) True df = (ty, of_nat (count_from q 0 32) - of_nat i)"
      using ty run unfolding subcluster_range_def Let_def by simp
  qed (use p q in blast)
  note T = ext_subcluster_type
  show ?thesis
  proof (cases ty)
    case ScNormal
    have c: "get_cluster_type e True df = CtNormal" "\<not> (\<exists>j<32. abit bm j \<and> zbit bm j)"
      using ty(1) ScNormal T[OF i, of e bm df] by (auto split: if_splits)
    have p: "\<forall>j<32. (abit bm) j \<longleftrightarrow> get_subcluster_type e bm (of_nat j) True df = ty"
      using c by (auto simp: T ScNormal)
    have q: "\<forall>j<32. (bit (?a OR ?b)) j \<longleftrightarrow> j < i \<or> (abit bm) j" by (auto simp: bit_or_iff alloc_bit zero_bit bit_drop_bit_eq bb)
    show ?thesis by (rule fin[OF _ q p]) (simp add: ScNormal trailing_ones_def)
  next
    case ScZeroAlloc
    have c: "get_cluster_type e True df = CtNormal" "\<not> (\<exists>j<32. abit bm j \<and> zbit bm j)"
      using ty(1) ScZeroAlloc T[OF i, of e bm df] by (auto split: if_splits)
    have p: "\<forall>j<32. (\<lambda>j. zbit bm j) j \<longleftrightarrow> get_subcluster_type e bm (of_nat j) True df = ty"
      using c by (auto simp: T ScZeroAlloc)
    have q: "\<forall>j<32. (bit (?z OR ?b)) j \<longleftrightarrow> j < i \<or> (\<lambda>j. zbit bm j) j" by (auto simp: bit_or_iff alloc_bit zero_bit bit_drop_bit_eq bb)
    show ?thesis by (rule fin[OF _ q p]) (simp add: ScZeroAlloc trailing_ones_def)
  next
    case ScZeroPlain
    have c: "get_cluster_type e True df \<noteq> CtNormal \<and> get_cluster_type e True df \<noteq> CtCompressed" "\<not> (\<exists>j<32. abit bm j)"
      using ty(1) ScZeroPlain T[OF i, of e bm df] by (auto split: if_splits)
    have p: "\<forall>j<32. (\<lambda>j. zbit bm j) j \<longleftrightarrow> get_subcluster_type e bm (of_nat j) True df = ty"
      using c by (auto simp: T ScZeroPlain)
    have q: "\<forall>j<32. (bit (?z OR ?b)) j \<longleftrightarrow> j < i \<or> (\<lambda>j. zbit bm j) j" by (auto simp: bit_or_iff alloc_bit zero_bit bit_drop_bit_eq bb)
    show ?thesis by (rule fin[OF _ q p]) (simp add: ScZeroPlain trailing_ones_def)
  next
    case ScUnallocatedAlloc
    have c: "get_cluster_type e True df = CtNormal" "\<not> (\<exists>j<32. abit bm j \<and> zbit bm j)"
      using ty(1) ScUnallocatedAlloc T[OF i, of e bm df] by (auto split: if_splits)
    have p: "\<forall>j<32. (\<lambda>j. \<not> abit bm j \<and> \<not> zbit bm j) j \<longleftrightarrow> get_subcluster_type e bm (of_nat j) True df = ty"
      using c by (auto simp: T ScUnallocatedAlloc)
    have q: "\<forall>j<32. (\<lambda>j. \<not> bit ((?z OR ?a) AND NOT ?b) j) j \<longleftrightarrow> j < i \<or> (\<lambda>j. \<not> abit bm j \<and> \<not> zbit bm j) j" by (auto simp: bit_or_iff bit_and_iff bit_not_iff zero_bit alloc_bit bit_drop_bit_eq bb)
    show ?thesis by (rule fin[OF _ q p]) (simp add: ScUnallocatedAlloc trailing_zeros_def)
  next
    case ScUnallocatedPlain
    have c: "get_cluster_type e True df \<noteq> CtNormal \<and> get_cluster_type e True df \<noteq> CtCompressed" "\<not> (\<exists>j<32. abit bm j)"
      using ty(1) ScUnallocatedPlain T[OF i, of e bm df] by (auto split: if_splits)
    have p: "\<forall>j<32. (\<lambda>j. \<not> abit bm j \<and> \<not> zbit bm j) j \<longleftrightarrow> get_subcluster_type e bm (of_nat j) True df = ty"
      using c by (auto simp: T ScUnallocatedPlain)
    have q: "\<forall>j<32. (\<lambda>j. \<not> bit ((?z OR ?a) AND NOT ?b) j) j \<longleftrightarrow> j < i \<or> (\<lambda>j. \<not> abit bm j \<and> \<not> zbit bm j) j" by (auto simp: bit_or_iff bit_and_iff bit_not_iff zero_bit alloc_bit bit_drop_bit_eq bb)
    show ?thesis by (rule fin[OF _ q p]) (simp add: ScUnallocatedPlain trailing_zeros_def)
  qed (use ty in auto)
qed

lemma subcluster_range_maximal_ext:
  assumes i: "i < 32" and r: "subcluster_range e bm (of_nat i) True df = (ty, run)" and ty: "ty \<noteq> ScInvalid"
  shows "ty = get_subcluster_type e bm (of_nat i) True df \<and> 0 < unat run \<and> i + unat run \<le> 32 \<and>
    (\<forall>j<unat run. get_subcluster_type e bm (of_nat (i + j)) True df = ty) \<and>
    (i + unat run < 32 \<longrightarrow> get_subcluster_type e bm (of_nat (i + unat run)) True df \<noteq> ty)"
proof -
  have ty': "get_subcluster_type e bm (of_nat i) True df = ty"
    using r by (auto simp: subcluster_range_def Let_def split: if_splits)
  have u: "unat (of_nat i :: u32) = i" using i by (simp add: unat_of_nat take_bit_nat_eq_self)
  show ?thesis
  proof (cases "ty = ScCompressed")
    case True
    have "(of_nat i :: u32) \<le> 32" using u i by (simp add: word_le_nat_alt)
    moreover have "run = 32 - of_nat i" using r ty' True by (simp add: subcluster_range_def subclusters_per_cluster_def)
    ultimately have "unat run = 32 - i" using u by (simp add: unat_sub)
    moreover have "get_cluster_type e True df = CtCompressed"
      using ty' True ext_subcluster_type[OF i, of e bm df] by (auto split: if_splits)
    ultimately show ?thesis using ty' True i by (simp add: ext_subcluster_type del: of_nat_add)
  next
    case False
    from subcluster_range_ext[OF i ty' ty False] r obtain q where
      "run = of_nat (count_from q 0 32) - of_nat i"
      "\<forall>j<32. q j \<longleftrightarrow> j < i \<or> get_subcluster_type e bm (of_nat j) True df = ty" by auto
    then show ?thesis
      using ext_run[of i "\<lambda>j. get_subcluster_type e bm (of_nat j) True df = ty" q run] ty' i by metis
  qed
qed


section \<open>Compressed entries round-trip\<close>

lemma packed_fields:
  fixes n off :: u64
  assumes sk: "s + k = 62" and n: "take_bit k n = n" and off: "take_bit s off = off"
  shows "(OFLAG_COMPRESSED OR push_bit s n OR off) AND mask s = off"
    and "drop_bit s (OFLAG_COMPRESSED OR push_bit s n OR off) AND mask k = n"
proof -
  have f: "bit OFLAG_COMPRESSED i \<longleftrightarrow> i = 62" for i
  proof -
    have "OFLAG_COMPRESSED = push_bit 62 1" by (simp add: OFLAG_COMPRESSED_def)
    moreover have "bit (push_bit 62 (1 :: u64)) i \<longleftrightarrow> i = 62"
      by (auto simp: bit_push_bit_iff bit_1_iff possible_bit_def simp del: push_bit_of_1)
    ultimately show ?thesis by simp
  qed
  have nb: "bit n i \<Longrightarrow> i < k" for i using n by (metis bit_take_bit_iff)
  have ob: "bit off i \<Longrightarrow> i < s" for i using off by (metis bit_take_bit_iff)
  show "(OFLAG_COMPRESSED OR push_bit s n OR off) AND mask s = off"
    by (rule bit_eqI) (use sk in \<open>auto simp: bit_and_iff bit_or_iff bit_push_bit_iff bit_mask_iff f dest: ob\<close>)
  show "drop_bit s (OFLAG_COMPRESSED OR push_bit s n OR off) AND mask k = n"
    by (rule bit_eqI) (use sk in \<open>auto simp: bit_and_iff bit_or_iff bit_push_bit_iff bit_drop_bit_eq bit_mask_iff f
        dest: ob nb\<close>)
qed

lemma compressed_roundtrip:
  assumes cb: "9 \<le> cb" "cb \<le> (21 :: u32)" and off: "unat off < 2 ^ (70 - unat cb)" "512 dvd unat off"
    and len: "0 < unat len" "unat len \<le> 2 ^ unat cb"
  shows "parse_compressed_l2_entry (encode_compressed_l2_entry off len cb) cb = Some (off, 512 * div_ceil len 512)"
proof -
  let ?s = "70 - unat cb" and ?k = "unat cb - 8" and ?nb = "div_ceil len 512 :: u64"
  have ub: "9 \<le> unat cb" "unat cb \<le> 21" using cb by (simp_all add: word_le_nat_alt)
  have sh: "unat (62 - (ucast cb - 8) :: u64) = ?s" "unat (ucast cb - 8 :: u64) = ?k"
    using cb by (cases rule: cluster_bits_cases; simp)+
  have m: "shl 1 ?s - 1 = (mask ?s :: u64)" "shl 1 ?k - 1 = (mask ?k :: u64)"
    using ub by (simp_all add: shl_def mask_eq_exp_minus_1)
  have sk: "?s + ?k = 62" using ub by simp
  have nb: "unat ?nb = (unat len + 511) div 512" by (simp add: unat_div_ceil)
  have p: "(2::nat) ^ unat cb = 512 * 2 ^ (unat cb - 9)" "(2::nat) ^ ?k = 2 * 2 ^ (unat cb - 9)"
    using cb by (cases rule: cluster_bits_cases; simp)+
  have nbb: "unat ?nb \<le> 2 ^ (unat cb - 9)" "1 \<le> unat ?nb" using len p nb by simp_all
  have one: "unat (?nb - 1) = unat ?nb - 1" using nbb(2) by (simp add: unat_sub word_le_nat_alt)
  have n: "take_bit ?k (?nb - 1) = ?nb - 1"
    using nbb p one by (simp add: word_unat_eq_iff unsigned_take_bit_eq take_bit_nat_eq_self_iff)
  have o: "take_bit ?s off = off" using off by (simp add: word_unat_eq_iff unsigned_take_bit_eq take_bit_nat_eq_self_iff)
  have shs: "shl x ?s = push_bit ?s x" "shr x ?s = drop_bit ?s x" for x :: u64 using ub by (simp_all add: shl_def shr_def)
  have e: "encode_compressed_l2_entry off len cb = OFLAG_COMPRESSED OR push_bit ?s (?nb - 1) OR off"
    unfolding encode_compressed_l2_entry_def Let_def sh m unfolding shs using o by (simp add: take_bit_eq_mask)
  have a: "off AND 511 = 0"
  proof -
    have "off AND 511 = take_bit 9 off" by (simp add: take_bit_eq_mask mask_eq_exp_minus_1)
    also have "\<dots> = 0" using off(2) by (simp add: word_unat_eq_iff unsigned_take_bit_eq take_bit_eq_mod dvd_eq_mod_eq_0 unat_mod)
    finally show ?thesis .
  qed
  have "(2::nat) ^ (unat cb - 9) \<le> 2 ^ 12" using ub by (intro power_increasing) simp_all
  then have nb12: "unat ?nb \<le> 4096" using nbb(1) by simp
  have cm: "checked_mul ?nb 512 = Some (512 * ?nb)" using nb12 by (simp add: checked_mul_def mult.commute)
  have "unat (512 * ?nb) = 512 * unat ?nb" using nb12 by (simp add: unat_mult_small)
  then have nz: "512 * ?nb \<noteq> 0" using nbb(2) by (metis mult_eq_0_iff not_one_le_zero unat_0 zero_neq_numeral)
  show ?thesis
    unfolding parse_compressed_l2_entry_def Let_def e sh m unfolding shs packed_fields[OF sk n o] a
    using cm nz by simp
qed

section \<open>Properties\<close>

text \<open>A qcow2 version 3 header with 512-byte clusters, a 4 KiB disk and 16-bit refcounts.\<close>

definition ex_hdr :: bytes where
  "ex_hdr = [0x51, 0x46, 0x49, 0xfb, 0, 0, 0, 3] @ replicate 8 0 @ [0, 0, 0, 0, 0, 0, 0, 9, 0, 0, 0, 0, 0, 0, 16, 0] @
     [0, 0, 0, 0, 0, 0, 0, 1, 0, 0, 0, 0, 0, 0, 6, 0, 0, 0, 0, 0, 0, 0, 2, 0, 0, 0, 0, 1] @
     replicate 36 0 @ [0, 0, 0, 4, 0, 0, 0, 104, 0]"

definition ex_h :: qcow_header where
  "ex_h = the (parse_header ex_hdr)"

lemma ex_header: "parse_header ex_hdr = Some ex_h"
  unfolding ex_h_def by code_simp

text \<open>(C17) What an accepted header can say: the parser accepts versions 2 and 3 only, cluster sizes from 512 bytes
  to 2 MiB, at most \<open>2 ^ 22\<close> L1 entries, a refcount width of the format, and a virtual size that such an L1 table
  can map.\<close>

theorem header_accepted_bounds:
  assumes "parse_header hdr = Some h"
  shows "h_version h \<in> {2, 3} \<and> 9 \<le> unat (h_cluster_bits h) \<and> unat (h_cluster_bits h) \<le> 21 \<and>
    unat (h_cluster_size h) = 2 ^ unat (h_cluster_bits h) \<and> unat (h_l1_size h) \<le> 4194304 \<and>
    unat (h_refcount_bits h) \<in> {1, 2, 4, 8, 16, 32, 64} \<and>
    unat (h_virtual_size h) \<le> 4194304 * 2 ^ (2 * unat (h_cluster_bits h) - (if h_extended_l2 h then 4 else 3))"
  by (intro conjI parse_header_bounds[OF assms])

theorem header_accepted_bounds_witness: "parse_header ex_hdr = Some ex_h \<and> unat (h_virtual_size ex_h) \<le> 4194304 * 2 ^ 15"
proof -
  have "unat (h_cluster_bits ex_h) = 9" "\<not> h_extended_l2 ex_h" by code_simp+
  then show ?thesis using header_accepted_bounds[OF ex_header] ex_header by auto
qed

text \<open>(C18) No overflow behind the parser: for an accepted header, rounding the virtual size up to whole clusters
  stays below \<open>2 ^ 62\<close>, so the 64-bit cluster arithmetic of the callers does not wrap.\<close>

theorem header_cluster_round_up:
  assumes "parse_header hdr = Some h"
  shows "unat (div_ceil (h_virtual_size h) (h_cluster_size h) * h_cluster_size h) < 2 ^ 62 \<and>
    unat (h_virtual_size h) \<le> unat (div_ceil (h_virtual_size h) (h_cluster_size h) * h_cluster_size h)"
proof -
  let ?d = "div_ceil (h_virtual_size h) (h_cluster_size h)"
  note b = round_up_no_overflow[OF assms]
  have cs: "unat (h_cluster_size h) = 2 ^ unat (h_cluster_bits h)" by (rule parse_header_bounds(4)[OF assms])
  then have nz: "h_cluster_size h \<noteq> 0" by (metis power_eq_0_iff unat_0 zero_neq_numeral)
  have u: "unat (?d * h_cluster_size h) = unat ?d * unat (h_cluster_size h)" using b by (intro unat_mult_small) simp
  have "unat (h_virtual_size h) \<le> unat ?d * unat (h_cluster_size h)" using le_div_ceilD[OF nz, of "h_virtual_size h" ?d] by simp
  then show ?thesis using b u by simp
qed

theorem header_cluster_round_up_witness:
  "parse_header ex_hdr = Some ex_h \<and> unat (div_ceil (h_virtual_size ex_h) (h_cluster_size ex_h) * h_cluster_size ex_h) < 2 ^ 62"
  using header_cluster_round_up[OF ex_header] ex_header by simp

text \<open>(C19) A subcluster run is maximal: on an image with extended L2 entries, the run that \<open>subcluster_range\<close>
  returns from subcluster \<open>i\<close> is non-empty, stays inside the cluster, contains subclusters of the reported type
  only, and ends at the cluster's end or before a subcluster of another type.\<close>

theorem subcluster_range_maximal:
  assumes "i < 32" and "subcluster_range e bm (of_nat i) True df = (ty, run)" and "ty \<noteq> ScInvalid"
  shows "ty = get_subcluster_type e bm (of_nat i) True df \<and> 0 < unat run \<and> i + unat run \<le> 32 \<and>
    (\<forall>j<unat run. get_subcluster_type e bm (of_nat (i + j)) True df = ty) \<and>
    (i + unat run < 32 \<longrightarrow> get_subcluster_type e bm (of_nat (i + unat run)) True df \<noteq> ty)"
  using assms by (rule subcluster_range_maximal_ext)

theorem subcluster_range_maximal_witness:
  "subcluster_range 0x8000000000010000 0xF0 4 True False = (ScNormal, 4) \<and>
   get_subcluster_type 0x8000000000010000 0xF0 8 True False \<noteq> ScNormal"
proof -
  have r: "subcluster_range 0x8000000000010000 0xF0 (of_nat 4) True False = (ScNormal, 4)" by code_simp
  show ?thesis using subcluster_range_maximal[OF _ r] r by simp
qed



text \<open>(C21) Compressed cluster descriptors round trip: for every cluster size, a sector-aligned host offset and a
  length of at most one cluster survive encoding and parsing, the length rounded up to whole sectors.\<close>

theorem compressed_l2_entry_roundtrip:
  assumes "9 \<le> cb" "cb \<le> (21 :: u32)" and "unat off < 2 ^ (70 - unat cb)" "512 dvd unat off"
    and "0 < unat len" "unat len \<le> 2 ^ unat cb"
  shows "parse_compressed_l2_entry (encode_compressed_l2_entry off len cb) cb = Some (off, 512 * div_ceil len 512)"
  using assms by (rule compressed_roundtrip)

theorem compressed_l2_entry_roundtrip_witness:
  "parse_compressed_l2_entry (encode_compressed_l2_entry 0x50000 1000 16) 16 = Some (0x50000, 1024)"
  using compressed_l2_entry_roundtrip[of 16 "0x50000" 1000] by (simp add: div_ceil_def)

end
