(* ===== verification/Write_Types.thy ===== *)
theory Write_Types
  imports Refcount_Blocks Qcow2_Format
begin

text \<open>
  Types, envelope and state of the crash-ordered qcow2 write planner
  (\<^verbatim>\<open>src/src/crates/qcow2-write/src/lib.rs\<close>): image geometry, the step vocabulary and its bounded
  buffer, the envelope gates, the planner state with its L2 window and dirty bitsets, and the step
  builders.  Fixed-size arrays are lists; indexing one out of range is a Rust panic and is \<open>None\<close>
  here.  \<open>ws_inv\<close> is the type invariant of a planner state: it is established by the constructors
  and kept by every operation.
\<close>

section \<open>Capacity constants and geometry\<close>

definition MAX_L2_SLOTS :: nat where "MAX_L2_SLOTS = 256"
definition MAX_REFBLOCKS :: nat where "MAX_REFBLOCKS = 2048"

record geometry =
  g_cluster_bits :: u32
  g_cluster_size :: u64
  g_virtual_size :: u64
  g_l1_table_offset :: u64
  g_l1_size :: u32
  g_refcount_table_offset :: u64
  g_refcount_table_clusters :: u32
  g_refcount_bits :: u32
  g_entries_per_l2 :: u64
  g_l2_coverage :: u64
  g_entries_per_refblock :: u64

definition from_header :: "qcow_header \<Rightarrow> geometry" where
  "from_header hdr =
     (let entries_per_l2 = h_cluster_size hdr div 8 in
      \<lparr>g_cluster_bits = h_cluster_bits hdr, g_cluster_size = h_cluster_size hdr,
       g_virtual_size = h_virtual_size hdr, g_l1_table_offset = h_l1_table_offset hdr,
       g_l1_size = h_l1_size hdr, g_refcount_table_offset = h_refcount_table_offset hdr,
       g_refcount_table_clusters = h_refcount_table_clusters hdr,
       g_refcount_bits = h_refcount_bits hdr, g_entries_per_l2 = entries_per_l2,
       g_l2_coverage = h_cluster_size hdr * entries_per_l2,
       g_entries_per_refblock = h_cluster_size hdr * 8 div ucast (h_refcount_bits hdr)\<rparr>)"

section \<open>Staging configuration and step vocabulary\<close>

datatype target_device = Input0 | Output

record staging_config =
  c_l2_slots :: nat
  c_max_refblocks :: nat
  c_device :: target_device

datatype region_id = RL1 | RL2Slot u16 | RRefcountTable | RRefblocks | RBounce | RCallerData

datatype barrier_class = Ordering | Durability

datatype step_kind =
    ReadCluster | WriteRange | ZeroRange | FillRange | PatchEntryU64 | LoadCluster
  | WritebackCluster | ZeroRegion | Barrier barrier_class

record step =
  s_kind :: step_kind
  s_device :: target_device
  s_region :: region_id
  s_region_offset :: u64
  s_disk_offset :: u64
  s_len :: u64
  s_value :: u64

section \<open>The step buffer\<close>

text \<open>The caller's slice and the emitted-count cursor.\<close>

record step_buf =
  sb_buf :: "step list"
  sb_emitted :: nat

definition sb_new :: "step list \<Rightarrow> step_buf" where
  "sb_new buf = \<lparr>sb_buf = buf, sb_emitted = 0\<rparr>"

text \<open>\<open>None\<close> is the \<^verbatim>\<open>BufFull\<close> signal.\<close>

definition sb_push :: "step_buf \<Rightarrow> step \<Rightarrow> step_buf option" where
  "sb_push b s = (if sb_emitted b = length (sb_buf b) then None
     else Some (b\<lparr>sb_buf := (sb_buf b)[sb_emitted b := s], sb_emitted := sb_emitted b + 1\<rparr>))"

definition sb_capacity :: "step_buf \<Rightarrow> nat" where "sb_capacity b = length (sb_buf b)"
definition sb_remaining :: "step_buf \<Rightarrow> nat" where "sb_remaining b = length (sb_buf b) - sb_emitted b"
definition sb_steps :: "step_buf \<Rightarrow> step list" where "sb_steps b = take (sb_emitted b) (sb_buf b)"
definition sb_reset :: "step_buf \<Rightarrow> step_buf" where "sb_reset b = b\<lparr>sb_emitted := 0\<rparr>"

section \<open>Staged regions\<close>

record staged_regions =
  sr_l1 :: bytes
  sr_l2_window :: bytes
  sr_refcount_table :: bytes
  sr_refblocks :: bytes

section \<open>Envelope gates\<close>

datatype gate =
    GRefcountWidth | GUnknownIncompatible | GExtendedL2 | GExternalDataFile | GEncryption
  | GDirtyCorrupt | GHasSnapshots | GUnsupportedVersion | GInvalidStagingConfig

fun gate_code :: "gate \<Rightarrow> u32" where
  "gate_code GRefcountWidth = 1"
| "gate_code GUnknownIncompatible = 2"
| "gate_code GExtendedL2 = 3"
| "gate_code GExternalDataFile = 4"
| "gate_code GEncryption = 5"
| "gate_code GDirtyCorrupt = 6"
| "gate_code GHasSnapshots = 7"
| "gate_code GUnsupportedVersion = 8"
| "gate_code GInvalidStagingConfig = 9"

definition KNOWN_INCOMPAT :: u64 where
  "KNOWN_INCOMPAT = INCOMPAT_DIRTY OR INCOMPAT_CORRUPT OR INCOMPAT_EXTERNAL_DATA OR INCOMPAT_EXTENDED_L2"

definition check_envelope_with :: "qcow_header \<Rightarrow> bool \<Rightarrow> gate + unit" where
  "check_envelope_with hdr allow_snapshots =
     (if h_version hdr \<noteq> 2 \<and> h_version hdr \<noteq> 3 then Inl GUnsupportedVersion
      else if h_refcount_bits hdr \<noteq> 16 then Inl GRefcountWidth
      else if h_incompatible_features hdr AND INCOMPAT_COMPRESSION \<noteq> 0
            \<or> h_incompatible_features hdr AND NOT KNOWN_INCOMPAT \<noteq> 0 then Inl GUnknownIncompatible
      else if h_extended_l2 hdr then Inl GExtendedL2
      else if h_has_external_data hdr then Inl GExternalDataFile
      else if h_crypt_method hdr \<noteq> 0 then Inl GEncryption
      else if h_dirty hdr \<or> h_corrupt hdr then Inl GDirtyCorrupt
      else if \<not> allow_snapshots \<and> 0 < h_nb_snapshots hdr then Inl GHasSnapshots
      else Inr ())"

definition check_envelope :: "qcow_header \<Rightarrow> gate + unit" where
  "check_envelope hdr = check_envelope_with hdr False"

section \<open>Planner errors and data sources\<close>

datatype write_error =
    BufFull | WRefcountExhausted | NotImplemented | OutOfBounds | ResumeMismatch
  | StagedRegionsMismatch | CompressedCluster | SnapshotShared | SnapshotSharedL2Table
  | UnknownL1Entry | UnknownL2Entry | RefcountInconsistent | RefcountCoverage | NeedsBackingFill

fun write_error_code :: "write_error \<Rightarrow> u32" where
  "write_error_code BufFull = 1"
| "write_error_code WRefcountExhausted = 2"
| "write_error_code NotImplemented = 3"
| "write_error_code OutOfBounds = 4"
| "write_error_code ResumeMismatch = 5"
| "write_error_code StagedRegionsMismatch = 6"
| "write_error_code CompressedCluster = 7"
| "write_error_code SnapshotShared = 8"
| "write_error_code SnapshotSharedL2Table = 9"
| "write_error_code UnknownL1Entry = 10"
| "write_error_code UnknownL2Entry = 11"
| "write_error_code RefcountInconsistent = 12"
| "write_error_code RefcountCoverage = 13"
| "write_error_code NeedsBackingFill = 14"

datatype data_source = CallerData u64 | Fill u8

section \<open>Planner state\<close>

record l2_slot =
  l_valid :: bool
  l_dirty :: bool
  l_l1_idx :: u32
  l_host_offset :: u64
  l_last_access :: u64

definition L2Slot_EMPTY :: l2_slot where
  "L2Slot_EMPTY = \<lparr>l_valid = False, l_dirty = False, l_l1_idx = 0, l_host_offset = 0, l_last_access = 0\<rparr>"

datatype cluster_stage =
    Enter | SlotFree | FreshAlloc | FreshZeroed | SlotReady | DataAlloc | HeadDone | BodyDone
  | TailDone | CowL2Load | CowL2Repoint | CowL2Decrement | CowDataEnter | CowDataCopy
  | CowDataBody | CowDataPatch | CowDataDecrement

record write_progress =
  p_voff :: u64
  p_len :: u64
  p_data :: data_source
  p_consumed :: u64
  p_stage :: cluster_stage
  p_slot :: u16
  p_l2_host :: u64
  p_data_host :: u64
  p_cow_src :: u64
  p_cow_zero_preimage :: bool

datatype flush_stage =
  PreBarrier | L2Writebacks | L1Barrier | L1Write | RbBarrier | RbWritebacks | EndBarrier

record flush_progress =
  f_stage :: flush_stage
  f_next_idx :: u32

datatype pending = Idle | PWrite write_progress | PFlush flush_progress

record write_state =
  ws_geometry :: geometry
  ws_config :: staging_config
  ws_l2_slots :: "l2_slot list"
  ws_refblock_dirty :: "u64 list"
  ws_access_counter :: u64
  ws_alloc_cursor :: alloc_cursor
  ws_has_backing :: bool
  ws_cow_enabled :: bool
  ws_l1_dirty :: bool
  ws_steps_since_barrier :: u64
  ws_slot_pending_zero :: "u64 list"
  ws_pending :: pending

text \<open>\<^verbatim>\<open>(word >> bit) & 1 != 0\<close> over an array of u64 words.\<close>

definition bitset_get :: "u64 list \<Rightarrow> nat \<Rightarrow> bool" where
  "bitset_get ws idx \<longleftrightarrow> shr (ws ! (idx div 64)) (idx mod 64) AND 1 \<noteq> 0"

definition state_l2_slot :: "write_state \<Rightarrow> nat \<Rightarrow> l2_slot option" where
  "state_l2_slot st idx =
     (if idx < c_l2_slots (ws_config st) \<and> idx < length (ws_l2_slots st)
      then Some (ws_l2_slots st ! idx) else None)"

definition refblock_dirty :: "write_state \<Rightarrow> nat \<Rightarrow> bool" where
  "refblock_dirty st idx \<longleftrightarrow>
     \<not> c_max_refblocks (ws_config st) \<le> idx \<and> bitset_get (ws_refblock_dirty st) idx"

definition find_slot :: "write_state \<Rightarrow> u32 \<Rightarrow> nat option" where
  "find_slot st l1_idx =
     List.find (\<lambda>i. l_valid (ws_l2_slots st ! i) \<and> l_l1_idx (ws_l2_slots st ! i) = l1_idx)
       [0..<c_l2_slots (ws_config st)]"

fun pick_victim_loop :: "l2_slot list \<Rightarrow> nat list \<Rightarrow> nat \<Rightarrow> u64 \<Rightarrow> nat" where
  "pick_victim_loop slots [] best best_access = best"
| "pick_victim_loop slots (i # is) best best_access =
     (if \<not> l_valid (slots ! i) then i
      else if l_last_access (slots ! i) < best_access
        then pick_victim_loop slots is i (l_last_access (slots ! i))
      else pick_victim_loop slots is best best_access)"

definition pick_victim :: "write_state \<Rightarrow> nat" where
  "pick_victim st = pick_victim_loop (ws_l2_slots st) [0..<c_l2_slots (ws_config st)] 0 (- 1)"

text \<open>\<^verbatim>\<open>state.l2_slots[i]\<close>, read and assigned.\<close>

definition slot_at :: "write_state \<Rightarrow> nat \<Rightarrow> l2_slot option" where
  "slot_at st i = (if i < length (ws_l2_slots st) then Some (ws_l2_slots st ! i) else None)"

definition put_slot :: "write_state \<Rightarrow> nat \<Rightarrow> l2_slot \<Rightarrow> write_state option" where
  "put_slot st i sl =
     (if i < length (ws_l2_slots st) then Some (st\<lparr>ws_l2_slots := (ws_l2_slots st)[i := sl]\<rparr>) else None)"

definition touch :: "write_state \<Rightarrow> nat \<Rightarrow> write_state option" where
  "touch st idx =
     (let n = ws_access_counter st + 1; st' = st\<lparr>ws_access_counter := n\<rparr> in
      case slot_at st' idx of None \<Rightarrow> None
      | Some sl \<Rightarrow> put_slot st' idx (sl\<lparr>l_last_access := n\<rparr>))"

definition pending_zero_set :: "write_state \<Rightarrow> nat \<Rightarrow> write_state option" where
  "pending_zero_set st idx =
     (let ws = ws_slot_pending_zero st; k = idx div 64 in
      if k < length ws then Some (st\<lparr>ws_slot_pending_zero := ws[k := ws ! k OR shl 1 (idx mod 64)]\<rparr>)
      else None)"

definition pending_zero_get :: "write_state \<Rightarrow> nat \<Rightarrow> bool option" where
  "pending_zero_get st idx =
     (if idx div 64 < length (ws_slot_pending_zero st)
      then Some (bitset_get (ws_slot_pending_zero st) idx) else None)"

definition pending_zero_clear_all :: "write_state \<Rightarrow> write_state" where
  "pending_zero_clear_all st = st\<lparr>ws_slot_pending_zero := replicate (MAX_L2_SLOTS div 64) 0\<rparr>"

definition refblock_dirty_set :: "write_state \<Rightarrow> nat \<Rightarrow> write_state option" where
  "refblock_dirty_set st idx =
     (let ws = ws_refblock_dirty st; k = idx div 64 in
      if k < length ws then Some (st\<lparr>ws_refblock_dirty := ws[k := ws ! k OR shl 1 (idx mod 64)]\<rparr>)
      else None)"

definition refblock_dirty_clear :: "write_state \<Rightarrow> nat \<Rightarrow> write_state option" where
  "refblock_dirty_clear st idx =
     (let ws = ws_refblock_dirty st; k = idx div 64 in
      if k < length ws then Some (st\<lparr>ws_refblock_dirty := ws[k := ws ! k AND NOT (shl 1 (idx mod 64))]\<rparr>)
      else None)"

definition next_dirty_slot :: "write_state \<Rightarrow> nat \<Rightarrow> nat option" where
  "next_dirty_slot st from =
     List.find (\<lambda>i. l_valid (ws_l2_slots st ! i) \<and> l_dirty (ws_l2_slots st ! i))
       [from..<c_l2_slots (ws_config st)]"

definition next_dirty_refblock :: "write_state \<Rightarrow> nat \<Rightarrow> nat option" where
  "next_dirty_refblock st from =
     List.find (refblock_dirty st) [from..<c_max_refblocks (ws_config st)]"

definition new_state_impl :: "qcow_header \<Rightarrow> staging_config \<Rightarrow> bool \<Rightarrow> gate + write_state" where
  "new_state_impl hdr cfg cow_enabled =
     bind_res (check_envelope_with hdr cow_enabled) (\<lambda>_.
       if c_l2_slots cfg = 0 \<or> MAX_L2_SLOTS < c_l2_slots cfg
          \<or> c_max_refblocks cfg = 0 \<or> MAX_REFBLOCKS < c_max_refblocks cfg
       then Inl GInvalidStagingConfig
       else Inr \<lparr>ws_geometry = from_header hdr, ws_config = cfg,
              ws_l2_slots = replicate MAX_L2_SLOTS L2Slot_EMPTY,
              ws_refblock_dirty = replicate (MAX_REFBLOCKS div 64) 0,
              ws_access_counter = 0, ws_alloc_cursor = empty_cursor,
              ws_has_backing = (h_backing_file_offset hdr \<noteq> 0),
              ws_cow_enabled = cow_enabled, ws_l1_dirty = False,
              ws_steps_since_barrier = 0,
              ws_slot_pending_zero = replicate (MAX_L2_SLOTS div 64) 0,
              ws_pending = Idle\<rparr>)"

definition new_state :: "qcow_header \<Rightarrow> staging_config \<Rightarrow> gate + write_state" where
  "new_state hdr cfg = new_state_impl hdr cfg False"

definition new_state_cow :: "qcow_header \<Rightarrow> staging_config \<Rightarrow> gate + write_state" where
  "new_state_cow hdr cfg = new_state_impl hdr cfg True"

section \<open>The step buffer is a bounded list\<close>

definition sb_ok :: "step_buf \<Rightarrow> bool" where
  "sb_ok b \<longleftrightarrow> sb_emitted b \<le> length (sb_buf b)"

lemma sb_push_Some:
  assumes "sb_ok b" "sb_push b s = Some b'"
  shows "sb_ok b'" and "sb_steps b' = sb_steps b @ [s]" and "sb_capacity b' = sb_capacity b"
    and "sb_emitted b' = Suc (sb_emitted b)" and "sb_remaining b = Suc (sb_remaining b')"
  using assms by (auto simp: sb_ok_def sb_push_def sb_steps_def sb_capacity_def sb_remaining_def
      take_Suc_conv_app_nth split: if_splits)

lemma sb_push_None: "sb_ok b \<Longrightarrow> sb_push b s = None \<longleftrightarrow> sb_remaining b = 0"
  by (auto simp: sb_ok_def sb_push_def sb_remaining_def)

lemma sb_ok_new [simp]: "sb_ok (sb_new buf)" "sb_steps (sb_new buf) = []" "sb_capacity (sb_new buf) = length buf"
  by (simp_all add: sb_ok_def sb_new_def sb_steps_def sb_capacity_def)

lemma sb_reset_simps [simp]: "sb_ok (sb_reset b)" "sb_steps (sb_reset b) = []" "sb_capacity (sb_reset b) = sb_capacity b"
  "sb_remaining (sb_reset b) = sb_capacity b"
  by (simp_all add: sb_ok_def sb_reset_def sb_steps_def sb_capacity_def sb_remaining_def)

lemma length_sb_steps: "sb_ok b \<Longrightarrow> length (sb_steps b) = sb_emitted b"
  by (simp add: sb_ok_def sb_steps_def)

section \<open>Bitsets over u64 words\<close>

lemma bitset_get_bit: "bitset_get ws i \<longleftrightarrow> bit (ws ! (i div 64)) (i mod 64)"
  by (simp add: bitset_get_def shr_def and_one_eq odd_iff_mod_2_eq_one[symmetric] bit_iff_odd_drop_bit)

lemma bitset_get_set:
  assumes "idx div 64 < length ws"
  shows "bitset_get (ws[idx div 64 := ws ! (idx div 64) OR shl 1 (idx mod 64)]) i \<longleftrightarrow> i = idx \<or> bitset_get ws i"
proof (cases "i div 64 = idx div 64")
  case True
  then have "i = idx \<longleftrightarrow> i mod 64 = idx mod 64" by (metis div_mult_mod_eq)
  then show ?thesis using assms True
    by (auto simp: bitset_get_bit shl_def bit_or_iff bit_exp_iff)
next
  case False
  then show ?thesis using assms by (auto simp: bitset_get_bit)
qed

lemma bitset_get_clear:
  assumes "idx div 64 < length ws"
  shows "bitset_get (ws[idx div 64 := ws ! (idx div 64) AND NOT (shl 1 (idx mod 64))]) i \<longleftrightarrow> i \<noteq> idx \<and> bitset_get ws i"
proof (cases "i div 64 = idx div 64")
  case True
  then have "i = idx \<longleftrightarrow> i mod 64 = idx mod 64" by (metis div_mult_mod_eq)
  then show ?thesis using assms True
    by (auto simp: bitset_get_bit shl_def bit_and_iff bit_not_iff bit_exp_iff)
next
  case False
  then show ?thesis using assms by (auto simp: bitset_get_bit)
qed

lemma bitset_get_zero [simp]: "i < 64 * n \<Longrightarrow> \<not> bitset_get (replicate n 0) i"
  by (simp add: bitset_get_bit less_mult_imp_div_less mult.commute)

section \<open>Slot lookup and eviction\<close>

lemma find_Some_upt:
  "List.find P [a..<b] = Some i \<longleftrightarrow> a \<le> i \<and> i < b \<and> P i \<and> (\<forall>j. a \<le> j \<and> j < i \<longrightarrow> \<not> P j)"
proof -
  have "List.find P [a..<b] = Some i \<longleftrightarrow> (\<exists>k<b - a. P (a + k) \<and> i = a + k \<and> (\<forall>j<k. \<not> P (a + j)))"
    by (auto simp: find_Some_iff)
  also have "\<dots> \<longleftrightarrow> a \<le> i \<and> i < b \<and> P i \<and> (\<forall>j. a \<le> j \<and> j < i \<longrightarrow> \<not> P j)"
  proof
    assume "\<exists>k<b - a. P (a + k) \<and> i = a + k \<and> (\<forall>j<k. \<not> P (a + j))"
    then obtain k where k: "k < b - a" "P (a + k)" "i = a + k" "\<forall>j<k. \<not> P (a + j)" by blast
    have "\<not> P j" if "a \<le> j" "j < i" for j using k(3,4) that by (metis le_add_diff_inverse nat_add_left_cancel_less)
    then show "a \<le> i \<and> i < b \<and> P i \<and> (\<forall>j. a \<le> j \<and> j < i \<longrightarrow> \<not> P j)" using k by auto
  next
    assume "a \<le> i \<and> i < b \<and> P i \<and> (\<forall>j. a \<le> j \<and> j < i \<longrightarrow> \<not> P j)"
    then show "\<exists>k<b - a. P (a + k) \<and> i = a + k \<and> (\<forall>j<k. \<not> P (a + j))"
      by (intro exI[of _ "i - a"]) auto
  qed
  finally show ?thesis .
qed

lemma find_None_upt: "List.find P [a..<b] = None \<longleftrightarrow> (\<forall>i. a \<le> i \<and> i < b \<longrightarrow> \<not> P i)"
  by (auto simp: find_None_iff)

lemma pick_victim_loop_in:
  "pick_victim_loop slots is best acc \<in> set is \<union> {best}"
  by (induction slots "is" best acc rule: pick_victim_loop.induct) auto

lemma pick_victim_loop_free:
  "filter (\<lambda>i. \<not> l_valid (slots ! i)) is \<noteq> [] \<Longrightarrow>
   pick_victim_loop slots is best acc = hd (filter (\<lambda>i. \<not> l_valid (slots ! i)) is)"
  by (induction slots "is" best acc rule: pick_victim_loop.induct) auto

lemma pick_victim_loop_lru:
  "\<forall>i\<in>set is. l_valid (slots ! i) \<Longrightarrow> sorted_wrt (<) is \<Longrightarrow> r = pick_victim_loop slots is best acc \<Longrightarrow>
    (r = best \<and> (\<forall>i\<in>set is. acc \<le> l_last_access (slots ! i))) \<or>
    (r \<in> set is \<and> l_last_access (slots ! r) < acc \<and>
     (\<forall>i\<in>set is. l_last_access (slots ! r) \<le> l_last_access (slots ! i)) \<and>
     (\<forall>i\<in>set is. i < r \<longrightarrow> l_last_access (slots ! r) < l_last_access (slots ! i)))"
proof (induction slots "is" best acc rule: pick_victim_loop.induct)
  case (2 slots i "is" best acc)
  note IH = 2(1,2) and v = 2(3) and so = 2(4) and r = 2(5)
  show ?case
  proof (cases "l_last_access (slots ! i) < acc")
    case True
    have IH': "(r = i \<and> (\<forall>j\<in>set is. l_last_access (slots ! i) \<le> l_last_access (slots ! j))) \<or>
       (r \<in> set is \<and> l_last_access (slots ! r) < l_last_access (slots ! i) \<and>
        (\<forall>j\<in>set is. l_last_access (slots ! r) \<le> l_last_access (slots ! j)) \<and>
        (\<forall>j\<in>set is. j < r \<longrightarrow> l_last_access (slots ! r) < l_last_access (slots ! j)))"
      using IH(1) True v so r by simp
    then show ?thesis using True v so by (auto intro: less_trans less_imp_le)
  next
    case False
    have IH': "(r = best \<and> (\<forall>j\<in>set is. acc \<le> l_last_access (slots ! j))) \<or>
       (r \<in> set is \<and> l_last_access (slots ! r) < acc \<and>
        (\<forall>j\<in>set is. l_last_access (slots ! r) \<le> l_last_access (slots ! j)) \<and>
        (\<forall>j\<in>set is. j < r \<longrightarrow> l_last_access (slots ! r) < l_last_access (slots ! j)))"
      using IH(2) False v so r by simp
    then show ?thesis using False v so by (auto simp: not_less intro: less_le_trans)
  qed
qed simp

lemma hd_filter_find: "List.find P xs = Some i \<Longrightarrow> hd (filter P xs) = i"
  by (induction xs) (auto split: if_splits)

lemma pick_victim_free:
  assumes "\<exists>i<c_l2_slots (ws_config st). \<not> l_valid (ws_l2_slots st ! i)"
  shows "pick_victim st < c_l2_slots (ws_config st)" "\<not> l_valid (ws_l2_slots st ! pick_victim st)"
    "\<forall>j<pick_victim st. l_valid (ws_l2_slots st ! j)"
proof -
  let ?n = "c_l2_slots (ws_config st)" and ?P = "\<lambda>i. \<not> l_valid (ws_l2_slots st ! i)"
  obtain i where i: "List.find ?P [0..<?n] = Some i"
    using assms by (cases "List.find ?P [0..<?n]") (auto simp: find_None_upt)
  have ne: "filter ?P [0..<?n] \<noteq> []" using assms by (auto simp: filter_empty_conv)
  have "pick_victim st = i"
    using i unfolding pick_victim_def pick_victim_loop_free[OF ne] by (rule hd_filter_find)
  then show "pick_victim st < ?n" "\<not> l_valid (ws_l2_slots st ! pick_victim st)"
    "\<forall>j<pick_victim st. l_valid (ws_l2_slots st ! j)" using i by (auto simp: find_Some_upt)
qed

lemma pick_victim_lru:
  assumes n: "0 < c_l2_slots (ws_config st)" and v: "\<forall>i<c_l2_slots (ws_config st). l_valid (ws_l2_slots st ! i)"
  shows "pick_victim st < c_l2_slots (ws_config st)"
    "\<forall>i<c_l2_slots (ws_config st). l_last_access (ws_l2_slots st ! pick_victim st) \<le> l_last_access (ws_l2_slots st ! i)"
    "\<forall>i<pick_victim st. l_last_access (ws_l2_slots st ! pick_victim st) < l_last_access (ws_l2_slots st ! i)"
proof -
  let ?n = "c_l2_slots (ws_config st)" and ?a = "\<lambda>i. l_last_access (ws_l2_slots st ! i)"
  have "(pick_victim st = 0 \<and> (\<forall>i<?n. - 1 \<le> ?a i)) \<or> (pick_victim st < ?n \<and> ?a (pick_victim st) < - 1 \<and>
      (\<forall>i<?n. ?a (pick_victim st) \<le> ?a i) \<and> (\<forall>i<?n. i < pick_victim st \<longrightarrow> ?a (pick_victim st) < ?a i))"
    using pick_victim_loop_lru[of "[0..<?n]" "ws_l2_slots st" _ 0 "- 1"] v unfolding pick_victim_def by auto
  moreover have top: "x \<le> - 1" for x :: u64 by (rule word_n1_ge)
  ultimately show "pick_victim st < ?n" "\<forall>i<?n. ?a (pick_victim st) \<le> ?a i"
    "\<forall>i<pick_victim st. ?a (pick_victim st) < ?a i"
    using n by (auto intro: order_trans)
qed

lemma pick_victim_less: "0 < c_l2_slots (ws_config st) \<Longrightarrow> pick_victim st < c_l2_slots (ws_config st)"
  using pick_victim_free(1) pick_victim_lru(1) by blast

section \<open>The envelope\<close>

lemma check_envelope_with_ok:
  "check_envelope_with h a = Inr () \<longleftrightarrow>
     (h_version h = 2 \<or> h_version h = 3) \<and> h_refcount_bits h = 16 \<and>
     h_incompatible_features h AND INCOMPAT_COMPRESSION = 0 \<and> h_incompatible_features h AND NOT KNOWN_INCOMPAT = 0 \<and>
     \<not> h_extended_l2 h \<and> \<not> h_has_external_data h \<and> h_crypt_method h = 0 \<and> \<not> h_dirty h \<and> \<not> h_corrupt h \<and>
     (a \<or> h_nb_snapshots h = 0)"
  by (auto simp: check_envelope_with_def word_gt_0)

text \<open>The geometry of an image inside the envelope, and the type invariant of a planner state.\<close>

definition geo_ok :: "geometry \<Rightarrow> bool" where
  "geo_ok g \<longleftrightarrow> 9 \<le> unat (g_cluster_bits g) \<and> unat (g_cluster_bits g) \<le> 21 \<and>
     unat (g_cluster_size g) = 2 ^ unat (g_cluster_bits g) \<and>
     unat (g_entries_per_l2 g) = 2 ^ (unat (g_cluster_bits g) - 3) \<and>
     unat (g_l2_coverage g) = 2 ^ (2 * unat (g_cluster_bits g) - 3) \<and>
     unat (g_entries_per_refblock g) = 2 ^ (unat (g_cluster_bits g) - 1) \<and>
     g_refcount_bits g = 16 \<and> unat (g_l1_size g) \<le> 4194304 \<and>
     unat (g_virtual_size g) \<le> 4194304 * unat (g_l2_coverage g)"

definition ws_inv :: "write_state \<Rightarrow> bool" where
  "ws_inv st \<longleftrightarrow> geo_ok (ws_geometry st) \<and>
     0 < c_l2_slots (ws_config st) \<and> c_l2_slots (ws_config st) \<le> MAX_L2_SLOTS \<and>
     0 < c_max_refblocks (ws_config st) \<and> c_max_refblocks (ws_config st) \<le> MAX_REFBLOCKS \<and>
     length (ws_l2_slots st) = MAX_L2_SLOTS \<and> length (ws_refblock_dirty st) = MAX_REFBLOCKS div 64 \<and>
     length (ws_slot_pending_zero st) = MAX_L2_SLOTS div 64"

lemma geo_ok_from_header:
  assumes "parse_header hdr = Some h" "h_refcount_bits h = 16" "\<not> h_extended_l2 h"
  shows "geo_ok (from_header h)"
proof -
  note B = parse_header_bounds[OF assms(1)]
  have "9 \<le> h_cluster_bits h" "h_cluster_bits h \<le> 21" "h_cluster_size h = shl 1 (unat (h_cluster_bits h))"
    by (rule parse_header_Some[OF assms(1)]; simp)+
  then have "unat (h_cluster_size h div 8) = 2 ^ (unat (h_cluster_bits h) - 3) \<and>
      unat (h_cluster_size h * (h_cluster_size h div 8)) = 2 ^ (2 * unat (h_cluster_bits h) - 3) \<and>
      unat (h_cluster_size h * 8 div 16) = 2 ^ (unat (h_cluster_bits h) - 1)"
    by (cases rule: cluster_bits_cases) (simp_all add: shl_def)
  then show ?thesis using B assms by (simp add: geo_ok_def from_header_def Let_def)
qed

lemma new_state_impl_Inr:
  "new_state_impl h cfg cow = Inr st \<longleftrightarrow>
     check_envelope_with h cow = Inr () \<and> 0 < c_l2_slots cfg \<and> c_l2_slots cfg \<le> MAX_L2_SLOTS \<and>
     0 < c_max_refblocks cfg \<and> c_max_refblocks cfg \<le> MAX_REFBLOCKS \<and>
     st = \<lparr>ws_geometry = from_header h, ws_config = cfg,
              ws_l2_slots = replicate MAX_L2_SLOTS L2Slot_EMPTY,
              ws_refblock_dirty = replicate (MAX_REFBLOCKS div 64) 0,
              ws_access_counter = 0, ws_alloc_cursor = empty_cursor,
              ws_has_backing = (h_backing_file_offset h \<noteq> 0),
              ws_cow_enabled = cow, ws_l1_dirty = False,
              ws_steps_since_barrier = 0,
              ws_slot_pending_zero = replicate (MAX_L2_SLOTS div 64) 0,
              ws_pending = Idle\<rparr>"
  by (auto simp: new_state_impl_def not_less)

lemma new_state_inv:
  assumes "parse_header hdr = Some h" "new_state_impl h cfg cow = Inr st"
  shows "ws_inv st"
  using assms geo_ok_from_header[OF assms(1)]
  by (auto simp: new_state_impl_Inr check_envelope_with_ok ws_inv_def)

lemma geo_ok_nz:
  assumes "geo_ok g"
  shows "g_cluster_size g \<noteq> 0" "g_entries_per_l2 g \<noteq> 0" "g_l2_coverage g \<noteq> 0" "g_entries_per_refblock g \<noteq> 0"
  using assms unfolding geo_ok_def by (metis power_eq_0_iff unat_0 zero_neq_numeral)+

section \<open>Properties\<close>


text \<open>(C15) The type invariant of a fresh planner state: for a parsed header inside the envelope every derived size is
  the exact power of two (no wrap-around), and the slot array and the two bitsets have their fixed lengths.\<close>

theorem new_state_well_typed:
  assumes "parse_header hdr = Some h" "new_state_impl h cfg cow = Inr st"
  shows "ws_inv st"
  using assms by (rule new_state_inv)

theorem new_state_well_typed_witness:
  "ws_inv (projr (new_state_impl ex_h \<lparr>c_l2_slots = 1, c_max_refblocks = 1, c_device = Input0\<rparr> False))"
proof -
  let ?cfg = "\<lparr>c_l2_slots = 1, c_max_refblocks = 1, c_device = Input0\<rparr>"
  have "check_envelope_with ex_h False = Inr ()" by code_simp
  then obtain st where st: "new_state_impl ex_h ?cfg False = Inr st"
    by (simp add: new_state_impl_Inr MAX_L2_SLOTS_def MAX_REFBLOCKS_def)
  show ?thesis using new_state_well_typed[OF ex_header st] by (simp only: st sum.sel)
qed

text \<open>A state whose two window slots are valid, the second one stamped earlier.\<close>

definition ex_two_slots :: write_state where
  "ex_two_slots = \<lparr>ws_geometry = from_header ex_h, ws_config = \<lparr>c_l2_slots = 2, c_max_refblocks = 1, c_device = Input0\<rparr>,
     ws_l2_slots = [\<lparr>l_valid = True, l_dirty = False, l_l1_idx = 0, l_host_offset = 0, l_last_access = 5\<rparr>,
       \<lparr>l_valid = True, l_dirty = True, l_l1_idx = 1, l_host_offset = 512, l_last_access = 3\<rparr>],
     ws_refblock_dirty = [], ws_access_counter = 6, ws_alloc_cursor = empty_cursor, ws_has_backing = False,
     ws_cow_enabled = False, ws_l1_dirty = False, ws_steps_since_barrier = 0, ws_slot_pending_zero = [],
     ws_pending = Idle\<rparr>"

text \<open>(C16) Slot replacement is least recently used: when every window slot is valid, the victim is the first slot with
  the least access stamp.\<close>

theorem pick_victim_least_recent:
  assumes "0 < c_l2_slots (ws_config st)" and "\<forall>i<c_l2_slots (ws_config st). l_valid (ws_l2_slots st ! i)"
  shows "pick_victim st < c_l2_slots (ws_config st) \<and>
    (\<forall>i<c_l2_slots (ws_config st). l_last_access (ws_l2_slots st ! pick_victim st) \<le> l_last_access (ws_l2_slots st ! i)) \<and>
    (\<forall>i<pick_victim st. l_last_access (ws_l2_slots st ! pick_victim st) < l_last_access (ws_l2_slots st ! i))"
  using pick_victim_lru[OF assms] by blast

theorem pick_victim_least_recent_witness: "pick_victim ex_two_slots = 1"
proof -
  have e: "c_l2_slots (ws_config ex_two_slots) = 2" "l_valid (ws_l2_slots ex_two_slots ! 0)" "l_valid (ws_l2_slots ex_two_slots ! 1)"
    and a: "l_last_access (ws_l2_slots ex_two_slots ! 0) = 5" "l_last_access (ws_l2_slots ex_two_slots ! 1) = 3"
    by (simp_all add: ex_two_slots_def)
  have "\<forall>i<c_l2_slots (ws_config ex_two_slots). l_valid (ws_l2_slots ex_two_slots ! i)"
    using e by (simp add: less_2_cases_iff)
  from pick_victim_least_recent[OF _ this] have p: "pick_victim ex_two_slots < 2"
    "\<forall>i<2. l_last_access (ws_l2_slots ex_two_slots ! pick_victim ex_two_slots) \<le> l_last_access (ws_l2_slots ex_two_slots ! i)"
    using e(1) by simp_all
  have "pick_victim ex_two_slots \<noteq> 0"
  proof
    assume "pick_victim ex_two_slots = 0"
    then show False using p(2)[rule_format, of 1] a by simp
  qed
  then show ?thesis using p(1) by linarith
qed

end
