(* ===== verification/Write_Plan.thy ===== *)
theory Write_Plan
  imports Write_Types
begin

text \<open>
  The planners of \<^verbatim>\<open>src/src/crates/qcow2-write/src/lib.rs\<close>: step builders, staged-region reads,
  classification of L1 and L2 entries, and the resumable emission loops \<open>drive_write\<close> and
  \<open>drive_flush\<close> behind \<open>plan_write\<close> and \<open>plan_flush\<close>.  Each arm of the stage \<^verbatim>\<open>match\<close> is one
  definition; the loops are total functions whose termination is proved from the stage order and
  the unconsumed bytes.  A panic of the Rust code is \<open>Panicked\<close> (in the loops) or \<open>None\<close>.
\<close>

section \<open>Emitting steps\<close>

definition push_step :: "write_state \<Rightarrow> step_buf \<Rightarrow> step \<Rightarrow> (write_state \<times> step_buf) option" where
  "push_step st steps s =
     (case sb_push steps s of
        None \<Rightarrow> None
      | Some steps' \<Rightarrow>
          Some (st\<lparr>ws_steps_since_barrier :=
                    (case s_kind s of Barrier _ \<Rightarrow> 0 | _ \<Rightarrow> ws_steps_since_barrier st + 1)\<rparr>,
                steps'))"

definition barrier_step :: "target_device \<Rightarrow> step" where
  "barrier_step dev = \<lparr>s_kind = Barrier Durability, s_device = dev, s_region = RBounce,
     s_region_offset = 0, s_disk_offset = 0, s_len = 0, s_value = 0\<rparr>"

definition barrier_if_needed :: "write_state \<Rightarrow> step_buf \<Rightarrow> (write_state \<times> step_buf) option" where
  "barrier_if_needed st steps =
     (if ws_steps_since_barrier st = 0 then Some (st, steps)
      else push_step st steps (barrier_step (c_device (ws_config st))))"

definition load_step :: "u16 \<Rightarrow> u64 \<Rightarrow> u64 \<Rightarrow> target_device \<Rightarrow> step" where
  "load_step slot l2_host cs dev = \<lparr>s_kind = LoadCluster, s_device = dev, s_region = RL2Slot slot,
     s_region_offset = 0, s_disk_offset = l2_host, s_len = cs, s_value = 0\<rparr>"

definition writeback_step :: "u16 \<Rightarrow> u64 \<Rightarrow> u64 \<Rightarrow> target_device \<Rightarrow> step" where
  "writeback_step slot l2_host cs dev = \<lparr>s_kind = WritebackCluster, s_device = dev,
     s_region = RL2Slot slot, s_region_offset = 0, s_disk_offset = l2_host, s_len = cs, s_value = 0\<rparr>"

definition zero_region_step :: "u16 \<Rightarrow> u64 \<Rightarrow> target_device \<Rightarrow> step" where
  "zero_region_step slot cs dev = \<lparr>s_kind = ZeroRegion, s_device = dev, s_region = RL2Slot slot,
     s_region_offset = 0, s_disk_offset = 0, s_len = cs, s_value = 0\<rparr>"

definition patch_step :: "region_id \<Rightarrow> u64 \<Rightarrow> u64 \<Rightarrow> target_device \<Rightarrow> step" where
  "patch_step region region_offset v dev = \<lparr>s_kind = PatchEntryU64, s_device = dev,
     s_region = region, s_region_offset = region_offset, s_disk_offset = 0, s_len = 0, s_value = v\<rparr>"

definition zero_range_step :: "u64 \<Rightarrow> u64 \<Rightarrow> target_device \<Rightarrow> step" where
  "zero_range_step disk_offset len dev = \<lparr>s_kind = ZeroRange, s_device = dev, s_region = RBounce,
     s_region_offset = 0, s_disk_offset = disk_offset, s_len = len, s_value = 0\<rparr>"

definition read_cluster_to_bounce_step :: "u64 \<Rightarrow> u64 \<Rightarrow> target_device \<Rightarrow> step" where
  "read_cluster_to_bounce_step disk_offset cs dev = \<lparr>s_kind = ReadCluster, s_device = dev,
     s_region = RBounce, s_region_offset = 0, s_disk_offset = disk_offset, s_len = cs, s_value = 0\<rparr>"

definition write_bounce_cluster_step :: "u64 \<Rightarrow> u64 \<Rightarrow> target_device \<Rightarrow> step" where
  "write_bounce_cluster_step disk_offset cs dev = \<lparr>s_kind = WriteRange, s_device = dev,
     s_region = RBounce, s_region_offset = 0, s_disk_offset = disk_offset, s_len = cs, s_value = 0\<rparr>"

definition body_step :: "data_source \<Rightarrow> u64 \<Rightarrow> u64 \<Rightarrow> u64 \<Rightarrow> target_device \<Rightarrow> step" where
  "body_step data consumed disk_offset len dev =
     (case data of
        CallerData offset \<Rightarrow>
          \<lparr>s_kind = WriteRange, s_device = dev, s_region = RCallerData,
           s_region_offset = offset + consumed, s_disk_offset = disk_offset, s_len = len, s_value = 0\<rparr>
      | Fill byte \<Rightarrow>
          \<lparr>s_kind = FillRange, s_device = dev, s_region = RBounce, s_region_offset = 0,
           s_disk_offset = disk_offset, s_len = len, s_value = ucast byte\<rparr>)"

lemmas step_builders =
  barrier_step_def load_step_def writeback_step_def zero_region_step_def patch_step_def
  zero_range_step_def read_cluster_to_bounce_step_def write_bounce_cluster_step_def body_step_def

section \<open>Staged regions: validation and refcounts\<close>

definition validate_staged :: "write_state \<Rightarrow> staged_regions \<Rightarrow> step_buf \<Rightarrow> (write_error + unit) option" where
  "validate_staged st sr steps =
     (let geo = ws_geometry st; cs = unat (g_cluster_size geo) in
      if sb_capacity steps = 0 then Some (Inl StagedRegionsMismatch)
      else if length (sr_l1 sr) < unat (g_l1_size geo) * 8 then Some (Inl StagedRegionsMismatch)
      else if length (sr_l2_window sr) < c_l2_slots (ws_config st) * cs then Some (Inl StagedRegionsMismatch)
      else if \<not> cs dvd length (sr_refblocks sr) then Some (Inl StagedRegionsMismatch)
      else if cs = 0 then None
      else let rb_count = length (sr_refblocks sr) div cs in
        if c_max_refblocks (ws_config st) < rb_count then Some (Inl StagedRegionsMismatch)
        else if length (sr_refcount_table sr) < rb_count * 8 then Some (Inl StagedRegionsMismatch)
        else Some (Inr ()))"

text \<open>\<^verbatim>\<open>is_multiple_of\<close> is divisibility (by zero: only zero is a multiple); the division after it
  panics on a zero cluster size.  The three refcount operations divide by the cluster size and by the entries per refblock;
  a zero divisor is a panic (\<open>None\<close>).\<close>

definition read_staged_refcount ::
    "write_state \<Rightarrow> staged_regions \<Rightarrow> u64 \<Rightarrow> (write_error + u64) option" where
  "read_staged_refcount st sr host =
     (let geo = ws_geometry st; cs = g_cluster_size geo; epr = g_entries_per_refblock geo in
      if cs = 0 \<or> epr = 0 then None
      else let cluster_index = host div cs;
               rb_idx = unat (cluster_index div epr);
               rb_count = length (sr_refblocks sr) div unat cs in
        if rb_count \<le> rb_idx then Some (Inl RefcountCoverage)
        else case read_refcount_in_block (slice_at (rb_idx * unat cs) (unat cs) (sr_refblocks sr))
                    (cluster_index mod epr) (g_refcount_bits geo) of
            Inl _ \<Rightarrow> Some (Inl StagedRegionsMismatch)
          | Inr v \<Rightarrow> Some (Inr v))"

definition alloc_cluster ::
    "write_state \<Rightarrow> staged_regions \<Rightarrow> ((write_error + u64) \<times> write_state \<times> staged_regions) option" where
  "alloc_cluster st sr =
     (let geo = ws_geometry st; cs = g_cluster_size geo in
      if cs = 0 then None
      else let rb_count = of_nat (length (sr_refblocks sr)) div cs in
        case alloc_cluster_in_refblocks (sr_refblocks sr) cs (g_refcount_bits geo) rb_count 0
               (ws_alloc_cursor st) of
          (res, blocks', cursor') \<Rightarrow>
            (let st' = st\<lparr>ws_alloc_cursor := cursor'\<rparr>; sr' = sr\<lparr>sr_refblocks := blocks'\<rparr> in
             case res of
               Inr host \<Rightarrow>
                 (if g_entries_per_refblock geo = 0 then None
                  else case refblock_dirty_set st' (unat ((host div cs) div g_entries_per_refblock geo)) of
                      None \<Rightarrow> None
                    | Some st'' \<Rightarrow> Some (Inr host, st'', sr'))
             | Inl SnapRefcountExhausted \<Rightarrow> Some (Inl WRefcountExhausted, st', sr')
             | Inl _ \<Rightarrow> Some (Inl StagedRegionsMismatch, st', sr')))"

definition dec_refcount ::
    "write_state \<Rightarrow> staged_regions \<Rightarrow> u64 \<Rightarrow> ((write_error + unit) \<times> write_state \<times> staged_regions) option" where
  "dec_refcount st sr host =
     (let geo = ws_geometry st; cs = g_cluster_size geo; epr = g_entries_per_refblock geo in
      if cs = 0 \<or> epr = 0 then None
      else let cluster_index = host div cs;
               rb_idx = unat (cluster_index div epr);
               rb_count = length (sr_refblocks sr) div unat cs in
        if rb_count \<le> rb_idx then Some (Inl RefcountCoverage, st, sr)
        else let start = rb_idx * unat cs;
                 block = slice_at start (unat cs) (sr_refblocks sr);
                 local_idx = cluster_index mod epr in
          case read_refcount_in_block block local_idx (g_refcount_bits geo) of
            Inl _ \<Rightarrow> Some (Inl StagedRegionsMismatch, st, sr)
          | Inr cur \<Rightarrow>
              (case check_refcount_after_addend cur (- 1) (g_refcount_bits geo) of
                 Inl _ \<Rightarrow> Some (Inl RefcountInconsistent, st, sr)
               | Inr nw \<Rightarrow>
                   (case set_refcount_in_block block local_idx (g_refcount_bits geo) nw of
                      Inl _ \<Rightarrow> Some (Inl StagedRegionsMismatch, st, sr)
                    | Inr block' \<Rightarrow>
                        (case refblock_dirty_set st rb_idx of
                           None \<Rightarrow> None
                         | Some st' \<Rightarrow>
                             Some (Inr (), st', sr\<lparr>sr_refblocks := splice_at start block' (sr_refblocks sr)\<rparr>)))))"

section \<open>Classification of L2 and L1 entries\<close>

datatype classified = Unallocated | Owned u64 | OwnedZero u64 | CowData u64 bool

definition classify_l2_entry ::
    "write_state \<Rightarrow> staged_regions \<Rightarrow> u64 \<Rightarrow> (write_error + classified) option" where
  "classify_l2_entry st sr entry =
     (if entry = 0 then Some (Inr Unallocated)
      else if entry AND OFLAG_COMPRESSED \<noteq> 0 then Some (Inl CompressedCluster)
      else if entry AND NOT (OFLAG_COPIED OR L2_OFFSET_MASK OR QCOW_OFLAG_ZERO) \<noteq> 0
        then Some (Inl UnknownL2Entry)
      else let host = entry AND L2_OFFSET_MASK; cs = g_cluster_size (ws_geometry st) in
        if entry AND QCOW_OFLAG_ZERO \<noteq> 0 then
          (if host = 0 then Some (Inr Unallocated)
           else if \<not> is_multiple_of host cs then Some (Inl UnknownL2Entry)
           else case read_staged_refcount st sr host of
               None \<Rightarrow> None
             | Some (Inl e) \<Rightarrow> Some (Inl e)
             | Some (Inr rc) \<Rightarrow>
                 (if rc = 0 then Some (Inl RefcountInconsistent)
                  else if 1 < rc then
                    (if ws_cow_enabled st then Some (Inr (CowData host True))
                     else Some (Inl SnapshotShared))
                  else Some (Inr (OwnedZero host))))
        else if host = 0 \<or> \<not> is_multiple_of host cs then Some (Inl UnknownL2Entry)
        else if entry AND OFLAG_COPIED = 0 then
          (if ws_cow_enabled st then Some (Inr (CowData host False)) else Some (Inl SnapshotShared))
        else case read_staged_refcount st sr host of
            None \<Rightarrow> None
          | Some (Inl e) \<Rightarrow> Some (Inl e)
          | Some (Inr rc) \<Rightarrow>
              (if rc = 0 then Some (Inl RefcountInconsistent)
               else if 1 < rc then
                 (if ws_cow_enabled st then Some (Inr (CowData host False))
                  else Some (Inl SnapshotShared))
               else Some (Inr (Owned host))))"

datatype l1_verdict = L1Owned u64 | CowL2 u64

definition validate_l1_entry ::
    "write_state \<Rightarrow> staged_regions \<Rightarrow> u64 \<Rightarrow> (write_error + l1_verdict) option" where
  "validate_l1_entry st sr raw =
     (if raw AND NOT (OFLAG_COPIED OR L1_OFFSET_MASK) \<noteq> 0 then Some (Inl UnknownL1Entry)
      else let host = raw AND L1_OFFSET_MASK in
        if host = 0 \<or> \<not> is_multiple_of host (g_cluster_size (ws_geometry st))
          then Some (Inl UnknownL1Entry)
        else if raw AND OFLAG_COPIED = 0 then
          (if ws_cow_enabled st then Some (Inr (CowL2 host)) else Some (Inl SnapshotSharedL2Table))
        else case read_staged_refcount st sr host of
            None \<Rightarrow> None
          | Some (Inl e) \<Rightarrow> Some (Inl e)
          | Some (Inr rc) \<Rightarrow>
              (if rc = 0 then Some (Inl RefcountInconsistent)
               else if 1 < rc then
                 (if ws_cow_enabled st then Some (Inr (CowL2 host))
                  else Some (Inl SnapshotSharedL2Table))
               else Some (Inr (L1Owned host))))"

definition read_staged_l2_entry ::
    "write_state \<Rightarrow> staged_regions \<Rightarrow> u16 \<Rightarrow> u64 \<Rightarrow> u64 option" where
  "read_staged_l2_entry st sr slot l2_idx =
     (case pending_zero_get st (unat slot) of
        None \<Rightarrow> None
      | Some True \<Rightarrow> Some 0
      | Some False \<Rightarrow>
          read_u64_be (sr_l2_window sr)
            (unat slot * unat (g_cluster_size (ws_geometry st)) + unat l2_idx * 8))"

section \<open>The write loop\<close>

text \<open>The mutable arguments of \<^verbatim>\<open>drive_write\<close>, and the result of one pass through a stage \<^verbatim>\<open>match\<close>:
  go round again, return, return an error, or panic.\<close>

record drive_ctx =
  d_state :: write_state
  d_staged :: staged_regions
  d_prog :: write_progress
  d_steps :: step_buf

datatype 'c drive_res = Next 'c | Finished 'c | Stop write_error 'c | Panicked

text \<open>\<^verbatim>\<open>push_step(...)?\<close>: a full buffer returns \<open>BufFull\<close> with the resume point as it is.\<close>

definition emit :: "step \<Rightarrow> drive_ctx \<Rightarrow> (drive_ctx \<Rightarrow> drive_ctx drive_res) \<Rightarrow> drive_ctx drive_res" where
  "emit s c k =
     (case push_step (d_state c) (d_steps c) s of
        None \<Rightarrow> Stop BufFull c
      | Some (st', steps') \<Rightarrow> k (c\<lparr>d_state := st', d_steps := steps'\<rparr>))"

text \<open>An indexing or arithmetic operation that panics when it has no value.\<close>

definition must :: "'a option \<Rightarrow> ('a \<Rightarrow> 'c drive_res) \<Rightarrow> 'c drive_res" where
  "must x k = (case x of None \<Rightarrow> Panicked | Some v \<Rightarrow> k v)"

definition set_stage :: "cluster_stage \<Rightarrow> drive_ctx \<Rightarrow> drive_ctx" where
  "set_stage s c = c\<lparr>d_prog := (d_prog c)\<lparr>p_stage := s\<rparr>\<rparr>"

text \<open>\<^verbatim>\<open>alloc_cluster(state, staged)?\<close> and \<^verbatim>\<open>dec_refcount(state, staged, host)?\<close> inside the loop.\<close>

definition alloc_in :: "drive_ctx \<Rightarrow> (u64 \<Rightarrow> drive_ctx \<Rightarrow> drive_ctx drive_res) \<Rightarrow> drive_ctx drive_res" where
  "alloc_in c k =
     must (alloc_cluster (d_state c) (d_staged c)) (\<lambda>(r, st', sr').
       let c' = c\<lparr>d_state := st', d_staged := sr'\<rparr> in
       case r of Inl e \<Rightarrow> Stop e c' | Inr host \<Rightarrow> k host c')"

definition dec_in :: "u64 \<Rightarrow> drive_ctx \<Rightarrow> (drive_ctx \<Rightarrow> drive_ctx drive_res) \<Rightarrow> drive_ctx drive_res" where
  "dec_in host c k =
     must (dec_refcount (d_state c) (d_staged c) host) (\<lambda>(r, st', sr').
       let c' = c\<lparr>d_state := st', d_staged := sr'\<rparr> in
       case r of Inl e \<Rightarrow> Stop e c' | Inr _ \<Rightarrow> k c')"

text \<open>The per-cluster quantities of the loop head.\<close>

definition w_cur :: "write_progress \<Rightarrow> u64" where
  "w_cur p = p_voff p + p_consumed p"

definition w_l1_idx :: "geometry \<Rightarrow> write_progress \<Rightarrow> u32" where
  "w_l1_idx geo p = ucast (w_cur p div g_l2_coverage geo)"

definition w_l2_idx :: "geometry \<Rightarrow> write_progress \<Rightarrow> u64" where
  "w_l2_idx geo p = (w_cur p div g_cluster_size geo) mod g_entries_per_l2 geo"

definition w_in_off :: "geometry \<Rightarrow> write_progress \<Rightarrow> u64" where
  "w_in_off geo p = w_cur p mod g_cluster_size geo"

definition w_win_len :: "geometry \<Rightarrow> write_progress \<Rightarrow> u64" where
  "w_win_len geo p = min (g_cluster_size geo - w_in_off geo p) (p_len p - p_consumed p)"

text \<open>\<^verbatim>\<open>prog.consumed += win_len; prog.stage = Enter; break 'cluster\<close>.\<close>

definition next_cluster :: "drive_ctx \<Rightarrow> drive_ctx" where
  "next_cluster c =
     (let p = d_prog c in
      c\<lparr>d_prog := p\<lparr>p_consumed := p_consumed p + w_win_len (ws_geometry (d_state c)) p, p_stage := Enter\<rparr>\<rparr>)"

abbreviation "ctx_geo c \<equiv> ws_geometry (d_state c)"
abbreviation "ctx_cs c \<equiv> g_cluster_size (ctx_geo c)"
abbreviation "ctx_dev c \<equiv> c_device (ws_config (d_state c))"

definition dw_enter :: "drive_ctx \<Rightarrow> drive_ctx drive_res" where
  "dw_enter c =
     (let st = d_state c; p = d_prog c; l1_idx = w_l1_idx (ctx_geo c) p in
      case find_slot st l1_idx of
        Some hit \<Rightarrow>
          must (touch st hit) (\<lambda>st'.
            Next (c\<lparr>d_state := st', d_prog := p\<lparr>p_slot := of_nat hit, p_stage := SlotReady\<rparr>\<rparr>))
      | None \<Rightarrow>
          (let victim = pick_victim st; c1 = c\<lparr>d_prog := p\<lparr>p_slot := of_nat victim\<rparr>\<rparr> in
           must (slot_at st victim) (\<lambda>sl.
             if l_valid sl \<and> l_dirty sl then
               emit (writeback_step (of_nat victim) (l_host_offset sl) (ctx_cs c) (ctx_dev c)) c1 (\<lambda>c2.
                 must (put_slot (d_state c2) victim (sl\<lparr>l_valid := False, l_dirty := False\<rparr>)) (\<lambda>st'.
                   Next (set_stage SlotFree (c2\<lparr>d_state := st'\<rparr>))))
             else Next (set_stage SlotFree c1))))"

text \<open>Assign window slot \<open>p_slot\<close> to the table at \<open>host\<close>, keeping its access stamp.\<close>

definition assign_slot :: "drive_ctx \<Rightarrow> bool \<Rightarrow> u64 \<Rightarrow> (write_state \<Rightarrow> drive_ctx drive_res) \<Rightarrow> drive_ctx drive_res" where
  "assign_slot c dirty host k =
     (let v = unat (p_slot (d_prog c)) in
      must (slot_at (d_state c) v) (\<lambda>sl.
        must (put_slot (d_state c) v
          \<lparr>l_valid = True, l_dirty = dirty, l_l1_idx = w_l1_idx (ctx_geo c) (d_prog c),
           l_host_offset = host, l_last_access = l_last_access sl\<rparr>) k))"

definition dw_slot_free :: "drive_ctx \<Rightarrow> drive_ctx drive_res" where
  "dw_slot_free c =
     (let p = d_prog c; l1_idx = w_l1_idx (ctx_geo c) p in
      must (read_u64_be (sr_l1 (d_staged c)) (unat l1_idx * 8)) (\<lambda>raw.
        if raw = 0 then
          alloc_in c (\<lambda>host c'. Next (c'\<lparr>d_prog := p\<lparr>p_l2_host := host, p_stage := FreshAlloc\<rparr>\<rparr>))
        else must (validate_l1_entry (d_state c) (d_staged c) raw) (\<lambda>v.
          case v of
            Inl e \<Rightarrow> Stop e c
          | Inr (L1Owned l2_host) \<Rightarrow>
              emit (load_step (p_slot p) l2_host (ctx_cs c) (ctx_dev c)) c (\<lambda>c1.
                assign_slot c1 False l2_host (\<lambda>st'.
                  Stop BufFull (set_stage Enter (c1\<lparr>d_state := st'\<rparr>))))
          | Inr (CowL2 old_l2_host) \<Rightarrow>
              alloc_in c (\<lambda>host c'.
                Next (c'\<lparr>d_prog := p\<lparr>p_l2_host := host, p_cow_src := old_l2_host, p_stage := CowL2Load\<rparr>\<rparr>)))))"

definition dw_fresh_alloc :: "drive_ctx \<Rightarrow> drive_ctx drive_res" where
  "dw_fresh_alloc c =
     emit (zero_region_step (p_slot (d_prog c)) (ctx_cs c) (ctx_dev c)) c (\<lambda>c1.
       assign_slot c1 True (p_l2_host (d_prog c)) (\<lambda>st'.
         must (pending_zero_set st' (unat (p_slot (d_prog c)))) (\<lambda>st''.
           Next (set_stage FreshZeroed (c1\<lparr>d_state := st''\<rparr>)))))"

definition dw_fresh_zeroed :: "drive_ctx \<Rightarrow> drive_ctx drive_res" where
  "dw_fresh_zeroed c =
     (let p = d_prog c in
      emit (patch_step RL1 (ucast (w_l1_idx (ctx_geo c) p) * 8) (p_l2_host p OR OFLAG_COPIED) (ctx_dev c)) c
        (\<lambda>c1. must (touch ((d_state c1)\<lparr>ws_l1_dirty := True\<rparr>) (unat (p_slot p))) (\<lambda>st'.
           Next (set_stage SlotReady (c1\<lparr>d_state := st'\<rparr>)))))"

definition dw_slot_ready :: "drive_ctx \<Rightarrow> drive_ctx drive_res" where
  "dw_slot_ready c =
     (let st = d_state c; sr = d_staged c; p = d_prog c; geo = ctx_geo c; cs = ctx_cs c;
          in_off = w_in_off geo p; win_len = w_win_len geo p in
      must (read_staged_l2_entry st sr (p_slot p) (w_l2_idx geo p)) (\<lambda>entry.
        must (classify_l2_entry st sr entry) (\<lambda>v.
          case v of
            Inl e \<Rightarrow> Stop e c
          | Inr (Owned host) \<Rightarrow>
              emit (body_step (p_data p) (p_consumed p) (host + in_off) win_len (ctx_dev c)) c (\<lambda>c1.
                Next (next_cluster c1))
          | Inr (OwnedZero host) \<Rightarrow>
              Next (c\<lparr>d_prog := p\<lparr>p_data_host := host, p_stage := DataAlloc\<rparr>\<rparr>)
          | Inr (CowData old zero_preimage) \<Rightarrow>
              alloc_in c (\<lambda>host c'.
                Next (c'\<lparr>d_prog := p\<lparr>p_data_host := host, p_cow_src := old,
                        p_cow_zero_preimage := zero_preimage, p_stage := CowDataEnter\<rparr>\<rparr>))
          | Inr Unallocated \<Rightarrow>
              (let eff_end = min cs (g_virtual_size geo - (w_cur p - in_off)) in
               if ws_has_backing st \<and> (in_off \<noteq> 0 \<or> in_off + win_len < eff_end)
               then Stop NeedsBackingFill c
               else alloc_in c (\<lambda>host c'.
                 Next (c'\<lparr>d_prog := p\<lparr>p_data_host := host, p_stage := DataAlloc\<rparr>\<rparr>))))))"

definition dw_data_alloc :: "drive_ctx \<Rightarrow> drive_ctx drive_res" where
  "dw_data_alloc c =
     (let p = d_prog c; in_off = w_in_off (ctx_geo c) p in
      if 0 < in_off
      then emit (zero_range_step (p_data_host p) in_off (ctx_dev c)) c (\<lambda>c1. Next (set_stage HeadDone c1))
      else Next (set_stage HeadDone c))"

text \<open>The body write of the caller's bytes into the cluster at \<open>p_data_host\<close>.\<close>

definition emit_body :: "drive_ctx \<Rightarrow> (drive_ctx \<Rightarrow> drive_ctx drive_res) \<Rightarrow> drive_ctx drive_res" where
  "emit_body c k =
     (let p = d_prog c; geo = ctx_geo c in
      emit (body_step (p_data p) (p_consumed p) (p_data_host p + w_in_off geo p) (w_win_len geo p) (ctx_dev c))
        c k)"

definition dw_head_done :: "drive_ctx \<Rightarrow> drive_ctx drive_res" where
  "dw_head_done c = emit_body c (\<lambda>c1. Next (set_stage BodyDone c1))"

definition dw_body_done :: "drive_ctx \<Rightarrow> drive_ctx drive_res" where
  "dw_body_done c =
     (let p = d_prog c; cs = ctx_cs c; tail_off = w_in_off (ctx_geo c) p + w_win_len (ctx_geo c) p in
      if tail_off < cs
      then emit (zero_range_step (p_data_host p + tail_off) (cs - tail_off) (ctx_dev c)) c
             (\<lambda>c1. Next (set_stage TailDone c1))
      else Next (set_stage TailDone c))"

text \<open>The L2 patch that makes the cluster at \<open>p_data_host\<close> reachable, marking the slot dirty.\<close>

definition emit_l2_patch :: "drive_ctx \<Rightarrow> (drive_ctx \<Rightarrow> drive_ctx drive_res) \<Rightarrow> drive_ctx drive_res" where
  "emit_l2_patch c k =
     (let p = d_prog c; v = unat (p_slot p) in
      emit (patch_step (RL2Slot (p_slot p)) (w_l2_idx (ctx_geo c) p * 8)
              (p_data_host p OR OFLAG_COPIED) (ctx_dev c)) c (\<lambda>c1.
        must (slot_at (d_state c1) v) (\<lambda>sl.
          must (put_slot (d_state c1) v (sl\<lparr>l_dirty := True\<rparr>)) (\<lambda>st'.
            k (c1\<lparr>d_state := st'\<rparr>)))))"

definition dw_tail_done :: "drive_ctx \<Rightarrow> drive_ctx drive_res" where
  "dw_tail_done c = emit_l2_patch c (\<lambda>c1. Next (next_cluster c1))"

definition dw_cow_l2_load :: "drive_ctx \<Rightarrow> drive_ctx drive_res" where
  "dw_cow_l2_load c =
     emit (load_step (p_slot (d_prog c)) (p_cow_src (d_prog c)) (ctx_cs c) (ctx_dev c)) c (\<lambda>c1.
       assign_slot c1 True (p_l2_host (d_prog c)) (\<lambda>st'.
         Next (set_stage CowL2Repoint (c1\<lparr>d_state := st'\<rparr>))))"

definition dw_cow_l2_repoint :: "drive_ctx \<Rightarrow> drive_ctx drive_res" where
  "dw_cow_l2_repoint c =
     (let p = d_prog c in
      emit (patch_step RL1 (ucast (w_l1_idx (ctx_geo c) p) * 8) (p_l2_host p OR OFLAG_COPIED) (ctx_dev c)) c
        (\<lambda>c1. Next (set_stage CowL2Decrement (c1\<lparr>d_state := (d_state c1)\<lparr>ws_l1_dirty := True\<rparr>\<rparr>))))"

definition dw_cow_l2_decrement :: "drive_ctx \<Rightarrow> drive_ctx drive_res" where
  "dw_cow_l2_decrement c =
     dec_in (p_cow_src (d_prog c)) c (\<lambda>c1. Stop BufFull (set_stage Enter c1))"

definition dw_cow_data_enter :: "drive_ctx \<Rightarrow> drive_ctx drive_res" where
  "dw_cow_data_enter c =
     (let p = d_prog c; cs = ctx_cs c;
          full = (w_in_off (ctx_geo c) p = 0 \<and> w_win_len (ctx_geo c) p = cs) in
      if full then Next (set_stage CowDataBody c)
      else if p_cow_zero_preimage p then
        emit (zero_range_step (p_data_host p) cs (ctx_dev c)) c (\<lambda>c1. Next (set_stage CowDataBody c1))
      else
        emit (read_cluster_to_bounce_step (p_cow_src p) cs (ctx_dev c)) c
          (\<lambda>c1. Next (set_stage CowDataCopy c1)))"

definition dw_cow_data_copy :: "drive_ctx \<Rightarrow> drive_ctx drive_res" where
  "dw_cow_data_copy c =
     emit (write_bounce_cluster_step (p_data_host (d_prog c)) (ctx_cs c) (ctx_dev c)) c
       (\<lambda>c1. Next (set_stage CowDataBody c1))"

definition dw_cow_data_body :: "drive_ctx \<Rightarrow> drive_ctx drive_res" where
  "dw_cow_data_body c = emit_body c (\<lambda>c1. Next (set_stage CowDataPatch c1))"

definition dw_cow_data_patch :: "drive_ctx \<Rightarrow> drive_ctx drive_res" where
  "dw_cow_data_patch c = emit_l2_patch c (\<lambda>c1. Next (set_stage CowDataDecrement c1))"

definition dw_cow_data_decrement :: "drive_ctx \<Rightarrow> drive_ctx drive_res" where
  "dw_cow_data_decrement c = dec_in (p_cow_src (d_prog c)) c (\<lambda>c1. Next (next_cluster c1))"

definition dw_step :: "drive_ctx \<Rightarrow> drive_ctx drive_res" where
  "dw_step c =
     (if \<not> p_consumed (d_prog c) < p_len (d_prog c) then Finished c
      else if g_l2_coverage (ctx_geo c) = 0 \<or> ctx_cs c = 0 \<or> g_entries_per_l2 (ctx_geo c) = 0 then Panicked
      else case p_stage (d_prog c) of
          Enter \<Rightarrow> dw_enter c
        | SlotFree \<Rightarrow> dw_slot_free c
        | FreshAlloc \<Rightarrow> dw_fresh_alloc c
        | FreshZeroed \<Rightarrow> dw_fresh_zeroed c
        | SlotReady \<Rightarrow> dw_slot_ready c
        | DataAlloc \<Rightarrow> dw_data_alloc c
        | HeadDone \<Rightarrow> dw_head_done c
        | BodyDone \<Rightarrow> dw_body_done c
        | TailDone \<Rightarrow> dw_tail_done c
        | CowL2Load \<Rightarrow> dw_cow_l2_load c
        | CowL2Repoint \<Rightarrow> dw_cow_l2_repoint c
        | CowL2Decrement \<Rightarrow> dw_cow_l2_decrement c
        | CowDataEnter \<Rightarrow> dw_cow_data_enter c
        | CowDataCopy \<Rightarrow> dw_cow_data_copy c
        | CowDataBody \<Rightarrow> dw_cow_data_body c
        | CowDataPatch \<Rightarrow> dw_cow_data_patch c
        | CowDataDecrement \<Rightarrow> dw_cow_data_decrement c)"

section \<open>The loop terminates\<close>

fun stage_rank :: "cluster_stage \<Rightarrow> nat" where
  "stage_rank Enter = 12" | "stage_rank SlotFree = 11" | "stage_rank FreshAlloc = 10"
| "stage_rank FreshZeroed = 9" | "stage_rank CowL2Load = 10" | "stage_rank CowL2Repoint = 9"
| "stage_rank CowL2Decrement = 8" | "stage_rank SlotReady = 7" | "stage_rank DataAlloc = 6"
| "stage_rank HeadDone = 5" | "stage_rank BodyDone = 4" | "stage_rank TailDone = 3"
| "stage_rank CowDataEnter = 6" | "stage_rank CowDataCopy = 5" | "stage_rank CowDataBody = 4"
| "stage_rank CowDataPatch = 3" | "stage_rank CowDataDecrement = 2"

text \<open>The state after a step was pushed.\<close>

definition bump :: "step \<Rightarrow> write_state \<Rightarrow> write_state" where
  "bump s st = st\<lparr>ws_steps_since_barrier := (case s_kind s of Barrier _ \<Rightarrow> 0 | _ \<Rightarrow> ws_steps_since_barrier st + 1)\<rparr>"

lemma bump_simps [simp]:
  "ws_geometry (bump s st) = ws_geometry st" "ws_config (bump s st) = ws_config st"
  "ws_l2_slots (bump s st) = ws_l2_slots st" "ws_refblock_dirty (bump s st) = ws_refblock_dirty st"
  "ws_alloc_cursor (bump s st) = ws_alloc_cursor st" "ws_cow_enabled (bump s st) = ws_cow_enabled st"
  "ws_has_backing (bump s st) = ws_has_backing st" "ws_l1_dirty (bump s st) = ws_l1_dirty st"
  "ws_slot_pending_zero (bump s st) = ws_slot_pending_zero st" "ws_pending (bump s st) = ws_pending st"
  "ws_access_counter (bump s st) = ws_access_counter st"
  by (simp_all add: bump_def)

lemma emit_eq:
  "emit s c k = (case sb_push (d_steps c) s of None \<Rightarrow> Stop BufFull c
     | Some b \<Rightarrow> k (c\<lparr>d_state := bump s (d_state c), d_steps := b\<rparr>))"
  by (simp add: emit_def push_step_def bump_def split: option.splits)

lemma emit_Next: "emit s c k = Next r \<longleftrightarrow>
    (\<exists>b. sb_push (d_steps c) s = Some b \<and> k (c\<lparr>d_state := bump s (d_state c), d_steps := b\<rparr>) = Next r)"
  by (simp add: emit_eq split: option.splits)

lemma must_Next: "must x k = Next r \<longleftrightarrow> (\<exists>v. x = Some v \<and> k v = Next r)"
  by (simp add: must_def split: option.splits)

lemma put_slot_Some: "put_slot st i sl = Some st' \<longleftrightarrow>
    i < length (ws_l2_slots st) \<and> st' = st\<lparr>ws_l2_slots := (ws_l2_slots st)[i := sl]\<rparr>"
  by (auto simp: put_slot_def)

lemma slot_at_Some: "slot_at st i = Some sl \<longleftrightarrow> i < length (ws_l2_slots st) \<and> sl = ws_l2_slots st ! i"
  by (auto simp: slot_at_def)

lemma touch_Some: "touch st i = Some st' \<longleftrightarrow> i < length (ws_l2_slots st) \<and>
   st' = st\<lparr>ws_access_counter := ws_access_counter st + 1,
     ws_l2_slots := (ws_l2_slots st)[i := (ws_l2_slots st ! i)\<lparr>l_last_access := ws_access_counter st + 1\<rparr>]\<rparr>"
  by (auto simp: touch_def Let_def put_slot_Some slot_at_def split: option.splits)

lemma refblock_dirty_set_Some: "refblock_dirty_set st i = Some st' \<longleftrightarrow>
   i div 64 < length (ws_refblock_dirty st) \<and>
   st' = st\<lparr>ws_refblock_dirty := (ws_refblock_dirty st)[i div 64 := ws_refblock_dirty st ! (i div 64) OR shl 1 (i mod 64)]\<rparr>"
  by (auto simp: refblock_dirty_set_def Let_def)

lemma pending_zero_set_Some: "pending_zero_set st i = Some st' \<longleftrightarrow>
   i div 64 < length (ws_slot_pending_zero st) \<and>
   st' = st\<lparr>ws_slot_pending_zero := (ws_slot_pending_zero st)[i div 64 := ws_slot_pending_zero st ! (i div 64) OR shl 1 (i mod 64)]\<rparr>"
  by (auto simp: pending_zero_set_def Let_def)

lemma alloc_cluster_frame:
  assumes "alloc_cluster st sr = Some (r, st', sr')"
  shows "\<exists>cur rd rb. st' = st\<lparr>ws_alloc_cursor := cur, ws_refblock_dirty := rd\<rparr> \<and> sr' = sr\<lparr>sr_refblocks := rb\<rparr> \<and>
     length rd = length (ws_refblock_dirty st)"
proof -
  obtain res rb cur where A: "alloc_cluster_in_refblocks (sr_refblocks sr) (g_cluster_size (ws_geometry st))
      (g_refcount_bits (ws_geometry st)) (of_nat (length (sr_refblocks sr)) div g_cluster_size (ws_geometry st)) 0
      (ws_alloc_cursor st) = (res, rb, cur)" by (metis prod_cases3)
  have "(\<exists>rd. st' = st\<lparr>ws_alloc_cursor := cur, ws_refblock_dirty := rd\<rparr> \<and> length rd = length (ws_refblock_dirty st)) \<and>
     sr' = sr\<lparr>sr_refblocks := rb\<rparr>"
  proof (cases res)
    case (Inl e)
    then show ?thesis using assms A
      by (cases e) (auto simp: alloc_cluster_def Let_def split: if_splits intro!: exI[of _ "ws_refblock_dirty st"])
  next
    case (Inr h)
    then show ?thesis using assms A
      by (auto simp: alloc_cluster_def Let_def refblock_dirty_set_Some split: if_splits option.splits)
  qed
  then show ?thesis by blast
qed

lemma dec_refcount_frame:
  assumes "dec_refcount st sr host = Some (r, st', sr')"
  shows "\<exists>rd rb. st' = st\<lparr>ws_refblock_dirty := rd\<rparr> \<and> sr' = sr\<lparr>sr_refblocks := rb\<rparr> \<and>
     length rd = length (ws_refblock_dirty st)"
proof -
  have "(st', sr') = (st, sr) \<or> (\<exists>i rb. refblock_dirty_set st i = Some st' \<and> sr' = sr\<lparr>sr_refblocks := rb\<rparr>)"
    using assms by (auto simp: dec_refcount_def Let_def split: if_splits sum.splits option.splits)
  then show ?thesis
  proof
    assume "(st', sr') = (st, sr)"
    then show ?thesis by (intro exI[of _ "ws_refblock_dirty st"] exI[of _ "sr_refblocks sr"]) simp
  qed (auto simp: refblock_dirty_set_Some)
qed

lemma alloc_in_Next: "alloc_in c k = Next r \<longleftrightarrow> (\<exists>host cur rd rb.
     alloc_cluster (d_state c) (d_staged c) =
       Some (Inr host, (d_state c)\<lparr>ws_alloc_cursor := cur, ws_refblock_dirty := rd\<rparr>, (d_staged c)\<lparr>sr_refblocks := rb\<rparr>) \<and>
     length rd = length (ws_refblock_dirty (d_state c)) \<and>
     k host (c\<lparr>d_state := (d_state c)\<lparr>ws_alloc_cursor := cur, ws_refblock_dirty := rd\<rparr>,
               d_staged := (d_staged c)\<lparr>sr_refblocks := rb\<rparr>\<rparr>) = Next r)"
proof (cases "alloc_cluster (d_state c) (d_staged c)")
  case (Some t)
  obtain q st' sr' where t: "t = (q, st', sr')" by (metis prod_cases3)
  obtain cur rd rb where "st' = (d_state c)\<lparr>ws_alloc_cursor := cur, ws_refblock_dirty := rd\<rparr>"
    "sr' = (d_staged c)\<lparr>sr_refblocks := rb\<rparr>" "length rd = length (ws_refblock_dirty (d_state c))"
    using alloc_cluster_frame Some t by metis
  then show ?thesis using Some t by (cases q) (auto simp: alloc_in_def must_def Let_def)
qed (simp add: alloc_in_def must_def)

lemma dec_in_Next: "dec_in host c k = Next r \<longleftrightarrow> (\<exists>rd rb.
     dec_refcount (d_state c) (d_staged c) host =
       Some (Inr (), (d_state c)\<lparr>ws_refblock_dirty := rd\<rparr>, (d_staged c)\<lparr>sr_refblocks := rb\<rparr>) \<and>
     length rd = length (ws_refblock_dirty (d_state c)) \<and>
     k (c\<lparr>d_state := (d_state c)\<lparr>ws_refblock_dirty := rd\<rparr>, d_staged := (d_staged c)\<lparr>sr_refblocks := rb\<rparr>\<rparr>) = Next r)"
proof (cases "dec_refcount (d_state c) (d_staged c) host")
  case (Some t)
  obtain q st' sr' where t: "t = (q, st', sr')" by (metis prod_cases3)
  obtain rd rb where "st' = (d_state c)\<lparr>ws_refblock_dirty := rd\<rparr>"
    "sr' = (d_staged c)\<lparr>sr_refblocks := rb\<rparr>" "length rd = length (ws_refblock_dirty (d_state c))"
    using dec_refcount_frame Some t by metis
  then show ?thesis using Some t by (cases q) (auto simp: dec_in_def must_def Let_def)
qed (simp add: dec_in_def must_def)

lemma assign_slot_Next: "assign_slot c d host k = Next r \<longleftrightarrow>
    unat (p_slot (d_prog c)) < length (ws_l2_slots (d_state c)) \<and>
    k ((d_state c)\<lparr>ws_l2_slots := (ws_l2_slots (d_state c))[unat (p_slot (d_prog c)) :=
        \<lparr>l_valid = True, l_dirty = d, l_l1_idx = w_l1_idx (ctx_geo c) (d_prog c), l_host_offset = host,
         l_last_access = l_last_access (ws_l2_slots (d_state c) ! unat (p_slot (d_prog c)))\<rparr>]\<rparr>) = Next r"
  by (auto simp: assign_slot_def must_Next put_slot_Some slot_at_Some Let_def)

lemma case_sum_Next: "(case v of Inl e \<Rightarrow> Stop e c | Inr x \<Rightarrow> f x) = Next r \<longleftrightarrow> (\<exists>x. v = Inr x \<and> f x = Next r)"
  by (cases v) auto

lemma case_l1_Next: "(case v of L1Owned a \<Rightarrow> f a | CowL2 b \<Rightarrow> g b) = Next r \<longleftrightarrow>
    (\<exists>a. v = L1Owned a \<and> f a = Next r) \<or> (\<exists>b. v = CowL2 b \<and> g b = Next r)"
  by (cases v) auto

lemma case_cl_Next: "(case v of Unallocated \<Rightarrow> u | Owned a \<Rightarrow> f a | OwnedZero a \<Rightarrow> g a | CowData a z \<Rightarrow> h a z) = Next r \<longleftrightarrow>
    (v = Unallocated \<and> u = Next r) \<or> (\<exists>a. v = Owned a \<and> f a = Next r) \<or> (\<exists>a. v = OwnedZero a \<and> g a = Next r) \<or>
    (\<exists>a z. v = CowData a z \<and> h a z = Next r)"
  by (cases v) auto

lemmas next_elims = case_sum_Next case_l1_Next case_cl_Next emit_Next must_Next alloc_in_Next dec_in_Next assign_slot_Next put_slot_Some slot_at_Some
  touch_Some pending_zero_set_Some

lemmas dw_defs = dw_enter_def dw_slot_free_def dw_fresh_alloc_def dw_fresh_zeroed_def dw_slot_ready_def
  dw_data_alloc_def dw_head_done_def dw_body_done_def dw_tail_done_def dw_cow_l2_load_def
  dw_cow_l2_repoint_def dw_cow_l2_decrement_def dw_cow_data_enter_def dw_cow_data_copy_def
  dw_cow_data_body_def dw_cow_data_patch_def dw_cow_data_decrement_def emit_body_def emit_l2_patch_def

definition advances :: "drive_ctx \<Rightarrow> drive_ctx \<Rightarrow> bool" where
  "advances c c' \<longleftrightarrow> ctx_geo c' = ctx_geo c \<and> ws_config (d_state c') = ws_config (d_state c) \<and>
     p_voff (d_prog c') = p_voff (d_prog c) \<and> p_len (d_prog c') = p_len (d_prog c) \<and> p_data (d_prog c') = p_data (d_prog c) \<and>
     (p_consumed (d_prog c') = p_consumed (d_prog c) \<and> stage_rank (p_stage (d_prog c')) < stage_rank (p_stage (d_prog c)) \<or>
      p_consumed (d_prog c') = p_consumed (d_prog c) + w_win_len (ctx_geo c) (d_prog c) \<and> p_stage (d_prog c') = Enter)"

lemma dw_step_advances:
  assumes "dw_step c = Next c'"
  shows "advances c c'"
proof -
  show ?thesis
  proof (cases "p_stage (d_prog c)")
    case Enter
    then show ?thesis using assms
      by (auto simp: dw_step_def dw_defs next_elims Let_def advances_def set_stage_def split: if_splits option.splits)
  next
    case SlotFree
    then show ?thesis using assms
      by (auto simp: dw_step_def dw_defs next_elims Let_def advances_def set_stage_def
          split: if_splits)
  next
    case SlotReady
    then show ?thesis using assms
      by (auto simp: dw_step_def dw_defs next_elims Let_def advances_def set_stage_def next_cluster_def
          split: if_splits)
  qed (use assms in \<open>auto simp: dw_step_def dw_defs next_elims Let_def advances_def set_stage_def next_cluster_def
      split: if_splits option.splits\<close>)
qed


lemma win_len_bounds:
  assumes "p_consumed p < p_len p" "g_cluster_size g \<noteq> 0"
  shows "0 < w_win_len g p" "w_win_len g p \<le> p_len p - p_consumed p" "w_in_off g p < g_cluster_size g"
    "w_win_len g p \<le> g_cluster_size g - w_in_off g p"
proof -
  have "0 < unat (g_cluster_size g)" using assms(2) by (simp add: unat_gt_0)
  then show io: "w_in_off g p < g_cluster_size g" by (simp add: w_in_off_def word_less_nat_alt unat_mod)
  then have "0 < g_cluster_size g - w_in_off g p" by (metis right_minus_eq word_gt_0 less_irrefl)
  moreover have "0 < p_len p - p_consumed p" using assms(1) by (metis right_minus_eq word_gt_0 less_irrefl)
  ultimately show "0 < w_win_len g p" by (simp add: w_win_len_def)
  show "w_win_len g p \<le> p_len p - p_consumed p" "w_win_len g p \<le> g_cluster_size g - w_in_off g p"
    by (simp_all add: w_win_len_def)
qed

lemma consumed_next:
  assumes "p_consumed p < p_len p" "g_cluster_size g \<noteq> 0"
  shows "unat (p_consumed p + w_win_len g p) = unat (p_consumed p) + unat (w_win_len g p)"
    and "p_consumed p + w_win_len g p \<le> p_len p"
proof -
  note w = win_len_bounds[OF assms]
  have "unat (p_len p - p_consumed p) = unat (p_len p) - unat (p_consumed p)"
    using assms(1) by (simp add: unat_sub less_imp_le)
  then have le: "unat (p_consumed p) + unat (w_win_len g p) \<le> unat (p_len p)"
    using w(2) assms(1) by (simp add: word_le_nat_alt word_less_nat_alt)
  then have "unat (p_consumed p) + unat (w_win_len g p) < 2 ^ 64" using unat_u64_less[of "p_len p"] by linarith
  then show *: "unat (p_consumed p + w_win_len g p) = unat (p_consumed p) + unat (w_win_len g p)"
    by (simp add: unat_add_small)
  then show "p_consumed p + w_win_len g p \<le> p_len p" using le by (simp add: word_le_nat_alt)
qed

lemma dw_step_Next_guard:
  "dw_step c = Next c' \<Longrightarrow> p_consumed (d_prog c) < p_len (d_prog c) \<and> ctx_cs c \<noteq> 0"
  by (auto simp: dw_step_def split: if_splits)

function drive_write :: "drive_ctx \<Rightarrow> drive_ctx drive_res" where
  "drive_write c = (case dw_step c of Next c' \<Rightarrow> drive_write c' | r \<Rightarrow> r)"
  by pat_completeness auto
termination
proof (relation "measures [\<lambda>c. unat (p_len (d_prog c)) - unat (p_consumed (d_prog c)), \<lambda>c. stage_rank (p_stage (d_prog c))]")
  fix c c' assume *: "dw_step c = Next c'"
  note g = dw_step_Next_guard[OF *]
  show "(c', c) \<in> measures [\<lambda>c. unat (p_len (d_prog c)) - unat (p_consumed (d_prog c)), \<lambda>c. stage_rank (p_stage (d_prog c))]"
    using dw_step_advances[OF *] consumed_next(1)[of "d_prog c" "ctx_geo c"] win_len_bounds(1)[of "d_prog c" "ctx_geo c"] g
    by (auto simp: advances_def word_less_nat_alt)
qed simp

declare drive_write.simps [simp del]


section \<open>The flush loop\<close>

record flush_ctx =
  fl_state :: write_state
  fl_staged :: staged_regions
  fl_prog :: flush_progress
  fl_steps :: step_buf

definition fl_goto :: "flush_stage \<Rightarrow> flush_ctx \<Rightarrow> flush_ctx" where
  "fl_goto s c = c\<lparr>fl_prog := (fl_prog c)\<lparr>f_stage := s\<rparr>\<rparr>"

definition fl_next :: "u32 \<Rightarrow> flush_ctx \<Rightarrow> flush_ctx" where
  "fl_next i c = c\<lparr>fl_prog := (fl_prog c)\<lparr>f_next_idx := i\<rparr>\<rparr>"

text \<open>\<^verbatim>\<open>push_step(...)?\<close> and \<^verbatim>\<open>barrier_if_needed(...)?\<close> in the flush loop.\<close>

definition fl_emit :: "(write_state \<times> step_buf) option \<Rightarrow> flush_ctx \<Rightarrow> (flush_ctx \<Rightarrow> flush_ctx drive_res) \<Rightarrow>
    flush_ctx drive_res" where
  "fl_emit r c k = (case r of None \<Rightarrow> Stop BufFull c
     | Some (st', steps') \<Rightarrow> k (c\<lparr>fl_state := st', fl_steps := steps'\<rparr>))"

definition l1_writeback_step :: "geometry \<Rightarrow> target_device \<Rightarrow> step" where
  "l1_writeback_step geo dev = \<lparr>s_kind = WriteRange, s_device = dev, s_region = RL1, s_region_offset = 0,
     s_disk_offset = g_l1_table_offset geo, s_len = ucast (g_l1_size geo) * 8, s_value = 0\<rparr>"

definition refblock_writeback_step :: "nat \<Rightarrow> u64 \<Rightarrow> u64 \<Rightarrow> target_device \<Rightarrow> step" where
  "refblock_writeback_step idx host cs dev = \<lparr>s_kind = WriteRange, s_device = dev, s_region = RRefblocks,
     s_region_offset = of_nat idx * cs, s_disk_offset = host, s_len = cs, s_value = 0\<rparr>"

definition df_l2_writebacks :: "flush_ctx \<Rightarrow> flush_ctx drive_res" where
  "df_l2_writebacks c =
     (let st = fl_state c in
      case next_dirty_slot st (unat (f_next_idx (fl_prog c))) of
        Some idx \<Rightarrow>
          must (slot_at st idx) (\<lambda>sl.
            fl_emit (push_step st (fl_steps c)
                (writeback_step (of_nat idx) (l_host_offset sl) (g_cluster_size (ws_geometry st))
                  (c_device (ws_config st)))) c (\<lambda>c1.
              must (put_slot (fl_state c1) idx (sl\<lparr>l_dirty := False\<rparr>)) (\<lambda>st'.
                Next (fl_next (of_nat idx + 1) (c1\<lparr>fl_state := st'\<rparr>)))))
      | None \<Rightarrow> Next (fl_goto L1Barrier c))"

definition df_rb_writebacks :: "flush_ctx \<Rightarrow> flush_ctx drive_res" where
  "df_rb_writebacks c =
     (let st = fl_state c; cs = g_cluster_size (ws_geometry st);
          rb_count = length (sr_refblocks (fl_staged c)) div unat cs in
      case next_dirty_refblock st (unat (f_next_idx (fl_prog c))) of
        Some idx \<Rightarrow>
          (if rb_count \<le> idx then Stop StagedRegionsMismatch c
           else must (read_u64_be (sr_refcount_table (fl_staged c)) (idx * 8)) (\<lambda>rt_entry.
             let host = rt_entry AND L1_OFFSET_MASK in
             if host = 0 \<or> \<not> is_multiple_of host cs \<or> rt_entry AND 0x1ff \<noteq> 0
             then Stop StagedRegionsMismatch c
             else fl_emit (push_step st (fl_steps c) (refblock_writeback_step idx host cs (c_device (ws_config st)))) c
               (\<lambda>c1. must (refblock_dirty_clear (fl_state c1) idx) (\<lambda>st'.
                  Next (fl_next (of_nat idx + 1) (c1\<lparr>fl_state := st'\<rparr>))))))
      | None \<Rightarrow> Next (fl_goto EndBarrier c))"

definition df_step :: "flush_ctx \<Rightarrow> flush_ctx drive_res" where
  "df_step c =
     (let st = fl_state c in
      if g_cluster_size (ws_geometry st) = 0 then Panicked
      else case f_stage (fl_prog c) of
        PreBarrier \<Rightarrow>
          fl_emit (barrier_if_needed st (fl_steps c)) c (\<lambda>c1. Next (fl_next 0 (fl_goto L2Writebacks c1)))
      | L2Writebacks \<Rightarrow> df_l2_writebacks c
      | L1Barrier \<Rightarrow>
          (if ws_l1_dirty st then
             fl_emit (barrier_if_needed st (fl_steps c)) c (\<lambda>c1. Next (fl_goto L1Write c1))
           else Next (fl_goto RbBarrier c))
      | L1Write \<Rightarrow>
          fl_emit (push_step st (fl_steps c) (l1_writeback_step (ws_geometry st) (c_device (ws_config st)))) c
            (\<lambda>c1. Next (fl_goto RbBarrier (c1\<lparr>fl_state := (fl_state c1)\<lparr>ws_l1_dirty := False\<rparr>\<rparr>)))
      | RbBarrier \<Rightarrow>
          (if next_dirty_refblock st 0 \<noteq> None then
             fl_emit (barrier_if_needed st (fl_steps c)) c (\<lambda>c1. Next (fl_next 0 (fl_goto RbWritebacks c1)))
           else Next (fl_goto EndBarrier c))
      | RbWritebacks \<Rightarrow> df_rb_writebacks c
      | EndBarrier \<Rightarrow>
          fl_emit (barrier_if_needed st (fl_steps c)) c Finished)"

fun flush_rank :: "flush_stage \<Rightarrow> nat" where
  "flush_rank PreBarrier = 6" | "flush_rank L2Writebacks = 5" | "flush_rank L1Barrier = 4"
| "flush_rank L1Write = 3" | "flush_rank RbBarrier = 2" | "flush_rank RbWritebacks = 1"
| "flush_rank EndBarrier = 0"

definition dirty_slots :: "write_state \<Rightarrow> nat" where
  "dirty_slots st = length (filter l_dirty (ws_l2_slots st))"

definition dirty_bits :: "u64 list \<Rightarrow> nat" where
  "dirty_bits ws = card {i. i < 64 * length ws \<and> bitset_get ws i}"

lemma filter_update_less:
  "i < length xs \<Longrightarrow> P (xs ! i) \<Longrightarrow> \<not> P y \<Longrightarrow> length (filter P (xs[i := y])) < length (filter P xs)"
proof (induction xs arbitrary: i)
  case (Cons x xs)
  then show ?case by (cases i) auto
qed simp

lemma dirty_bits_clear:
  assumes "i div 64 < length ws" "bitset_get ws i"
  shows "dirty_bits (ws[i div 64 := ws ! (i div 64) AND NOT (shl 1 (i mod 64))]) < dirty_bits ws"
proof -
  let ?ws = "ws[i div 64 := ws ! (i div 64) AND NOT (shl 1 (i mod 64))]"
  have sub: "{j. j < 64 * length ?ws \<and> bitset_get ?ws j} = {j. j < 64 * length ws \<and> bitset_get ws j} - {i}"
    by (simp only: bitset_get_clear[OF assms(1)] length_list_update) blast
  have "i < 64 * length ws" using assms(1) by (simp add: div_less_iff_less_mult mult.commute)
  then have "i \<in> {j. j < 64 * length ws \<and> bitset_get ws j}" using assms(2) by simp
  then show ?thesis unfolding dirty_bits_def sub by (intro card_Diff1_less) simp_all
qed

lemma fl_emit_Next: "fl_emit r c k = Next c' \<longleftrightarrow> (\<exists>st' b. r = Some (st', b) \<and> k (c\<lparr>fl_state := st', fl_steps := b\<rparr>) = Next c')"
  by (auto simp: fl_emit_def split: option.splits)

lemma push_step_Some: "push_step st b s = Some (st', b') \<longleftrightarrow> sb_push b s = Some b' \<and> st' = bump s st"
  by (auto simp: push_step_def bump_def split: option.splits)

lemma refblock_dirty_clear_Some: "refblock_dirty_clear st i = Some st' \<longleftrightarrow>
   i div 64 < length (ws_refblock_dirty st) \<and>
   st' = st\<lparr>ws_refblock_dirty := (ws_refblock_dirty st)[i div 64 := ws_refblock_dirty st ! (i div 64) AND NOT (shl 1 (i mod 64))]\<rparr>"
  by (auto simp: refblock_dirty_clear_def Let_def)

lemma df_step_advances:
  assumes "df_step c = Next c'"
  shows "flush_rank (f_stage (fl_prog c')) < flush_rank (f_stage (fl_prog c)) \<or>
    f_stage (fl_prog c') = f_stage (fl_prog c) \<and>
     (dirty_slots (fl_state c') < dirty_slots (fl_state c) \<or>
      dirty_slots (fl_state c') = dirty_slots (fl_state c) \<and>
      dirty_bits (ws_refblock_dirty (fl_state c')) < dirty_bits (ws_refblock_dirty (fl_state c)))"
proof (cases "f_stage (fl_prog c)")
  case L2Writebacks
  then show ?thesis using assms
    by (auto simp: df_step_def Let_def df_l2_writebacks_def fl_emit_Next must_Next push_step_Some put_slot_Some slot_at_Some
        fl_goto_def fl_next_def next_dirty_slot_def find_Some_upt dirty_slots_def filter_update_less
        split: if_splits option.splits)
next
  case RbWritebacks
  then show ?thesis using assms
    by (auto simp: df_step_def Let_def df_rb_writebacks_def fl_emit_Next must_Next push_step_Some refblock_dirty_clear_Some
        fl_goto_def fl_next_def next_dirty_refblock_def find_Some_upt dirty_slots_def refblock_dirty_def dirty_bits_clear
        split: if_splits option.splits)
qed (use assms in \<open>auto simp: df_step_def Let_def fl_emit_Next fl_goto_def fl_next_def split: if_splits\<close>)

function drive_flush :: "flush_ctx \<Rightarrow> flush_ctx drive_res" where
  "drive_flush c = (case df_step c of Next c' \<Rightarrow> drive_flush c' | r \<Rightarrow> r)"
  by pat_completeness auto
termination
proof (relation "measures [\<lambda>c. flush_rank (f_stage (fl_prog c)), \<lambda>c. dirty_slots (fl_state c),
    \<lambda>c. dirty_bits (ws_refblock_dirty (fl_state c))]")
  fix c c' assume *: "df_step c = Next c'"
  show "(c', c) \<in> measures [\<lambda>c. flush_rank (f_stage (fl_prog c)), \<lambda>c. dirty_slots (fl_state c),
    \<lambda>c. dirty_bits (ws_refblock_dirty (fl_state c))]"
    using df_step_advances[OF *] by auto
qed simp

declare drive_flush.simps [simp del]

section \<open>The planners\<close>

text \<open>A completed call returns the number of steps it emitted (\<^verbatim>\<open>Window\<close>); the mutable arguments follow.\<close>

type_synonym plan_result = "((write_error + nat) \<times> write_state \<times> staged_regions \<times> step_buf) option"

text \<open>Request admission: \<open>Inr None\<close> is the empty request, which returns at once.\<close>

definition admit_write :: "geometry \<Rightarrow> u64 \<Rightarrow> u64 \<Rightarrow> data_source \<Rightarrow> (write_error + write_progress option) option" where
  "admit_write geo voff len data =
     (case checked_add voff len of
        None \<Rightarrow> Some (Inl OutOfBounds)
      | Some end_off \<Rightarrow>
          if g_virtual_size geo < end_off then Some (Inl OutOfBounds)
          else if (case data of CallerData offset \<Rightarrow> checked_add offset len = None | Fill _ \<Rightarrow> False)
            then Some (Inl OutOfBounds)
          else if len = 0 then Some (Inr None)
          else if g_l2_coverage geo = 0 then None
          else if ucast (g_l1_size geo) \<le> (end_off - 1) div g_l2_coverage geo then Some (Inl OutOfBounds)
          else Some (Inr (Some \<lparr>p_voff = voff, p_len = len, p_data = data, p_consumed = 0, p_stage = Enter,
                 p_slot = 0, p_l2_host = 0, p_data_host = 0, p_cow_src = 0, p_cow_zero_preimage = False\<rparr>)))"

definition run_write :: "write_state \<Rightarrow> staged_regions \<Rightarrow> write_progress \<Rightarrow> step_buf \<Rightarrow> plan_result" where
  "run_write st sr prog steps =
     (case drive_write \<lparr>d_state = pending_zero_clear_all (st\<lparr>ws_pending := Idle\<rparr>), d_staged = sr,
             d_prog = prog, d_steps = steps\<rparr> of
        Panicked \<Rightarrow> None
      | Next c \<Rightarrow> None
      | Finished c \<Rightarrow> Some (Inr (sb_emitted (d_steps c) - sb_emitted steps), d_state c, d_staged c, d_steps c)
      | Stop e c \<Rightarrow>
          Some (Inl e,
            if e = BufFull then (d_state c)\<lparr>ws_pending := PWrite (d_prog c)\<rparr> else d_state c,
            d_staged c, d_steps c))"

definition plan_write ::
    "write_state \<Rightarrow> staged_regions \<Rightarrow> u64 \<Rightarrow> u64 \<Rightarrow> data_source \<Rightarrow> step_buf \<Rightarrow> plan_result" where
  "plan_write st sr voff len data steps =
     (let mismatch = (case ws_pending st of PFlush _ \<Rightarrow> True
            | PWrite p \<Rightarrow> p_voff p \<noteq> voff \<or> p_len p \<noteq> len \<or> p_data p \<noteq> data
            | Idle \<Rightarrow> False) in
      if mismatch then Some (Inl ResumeMismatch, st, sr, steps)
      else case validate_staged st sr steps of
          None \<Rightarrow> None
        | Some (Inl e) \<Rightarrow> Some (Inl e, st, sr, steps)
        | Some (Inr _) \<Rightarrow>
            (case ws_pending st of
               PWrite p \<Rightarrow> run_write st sr p steps
             | _ \<Rightarrow>
                 (case admit_write (ws_geometry st) voff len data of
                    None \<Rightarrow> None
                  | Some (Inl e) \<Rightarrow> Some (Inl e, st, sr, steps)
                  | Some (Inr None) \<Rightarrow> Some (Inr 0, st, sr, steps)
                  | Some (Inr (Some p)) \<Rightarrow> run_write st sr p steps)))"

definition run_flush :: "write_state \<Rightarrow> staged_regions \<Rightarrow> flush_progress \<Rightarrow> step_buf \<Rightarrow> plan_result" where
  "run_flush st sr prog steps =
     (case drive_flush \<lparr>fl_state = pending_zero_clear_all (st\<lparr>ws_pending := Idle\<rparr>), fl_staged = sr,
             fl_prog = prog, fl_steps = steps\<rparr> of
        Panicked \<Rightarrow> None
      | Next c \<Rightarrow> None
      | Finished c \<Rightarrow> Some (Inr (sb_emitted (fl_steps c) - sb_emitted steps), fl_state c, fl_staged c, fl_steps c)
      | Stop e c \<Rightarrow>
          Some (Inl e,
            if e = BufFull then (fl_state c)\<lparr>ws_pending := PFlush (fl_prog c)\<rparr> else fl_state c,
            fl_staged c, fl_steps c))"

definition plan_flush :: "write_state \<Rightarrow> staged_regions \<Rightarrow> step_buf \<Rightarrow> plan_result" where
  "plan_flush st sr steps =
     (case ws_pending st of
        PWrite _ \<Rightarrow> Some (Inl ResumeMismatch, st, sr, steps)
      | _ \<Rightarrow>
          (case validate_staged st sr steps of
             None \<Rightarrow> None
           | Some (Inl e) \<Rightarrow> Some (Inl e, st, sr, steps)
           | Some (Inr _) \<Rightarrow>
               run_flush st sr
                 (case ws_pending st of PFlush p \<Rightarrow> p | _ \<Rightarrow> \<lparr>f_stage = PreBarrier, f_next_idx = 0\<rparr>) steps))"

end
