(* ===== verification/Write_Staging.thy ===== *)
theory Write_Staging
  imports Write_Plan
begin

text \<open>
  The staged regions a planner call works on, and the three refcount operations of the planner read
  as operations on a flat array of counters indexed by host cluster: \<open>read_staged_refcount\<close> reads one,
  \<open>alloc_cluster\<close> claims the first free one at or after the allocator cursor, and \<open>dec_refcount\<close>
  subtracts one reference, each marking the covering refblock dirty.  Only the allocator cursor, the
  dirty bits and the refblock bytes change (\<open>rc_frame\<close>).
\<close>

section \<open>Well-formed staging\<close>

definition rb_count :: "write_state \<Rightarrow> staged_regions \<Rightarrow> nat" where
  "rb_count st sr = length (sr_refblocks sr) div unat (g_cluster_size (ws_geometry st))"

text \<open>Number of host clusters whose refcount is staged.\<close>

definition covered :: "write_state \<Rightarrow> staged_regions \<Rightarrow> nat" where
  "covered st sr = rb_count st sr * (unat (g_cluster_size (ws_geometry st)) div 2)"

definition staging_ok :: "write_state \<Rightarrow> staged_regions \<Rightarrow> bool" where
  "staging_ok st sr \<longleftrightarrow> ws_inv st \<and>
     unat (g_l1_size (ws_geometry st)) * 8 \<le> length (sr_l1 sr) \<and>
     c_l2_slots (ws_config st) * unat (g_cluster_size (ws_geometry st)) \<le> length (sr_l2_window sr) \<and>
     unat (g_cluster_size (ws_geometry st)) dvd length (sr_refblocks sr) \<and>
     rb_count st sr \<le> c_max_refblocks (ws_config st) \<and>
     rb_count st sr * 8 \<le> length (sr_refcount_table sr) \<and>
     cursor_pos (unat (g_cluster_size (ws_geometry st)) div 2) (ws_alloc_cursor st) \<le> covered st sr"

text \<open>Host cluster index, and the staged refcount of a host cluster.\<close>

definition cidx :: "write_state \<Rightarrow> u64 \<Rightarrow> nat" where
  "cidx st host = unat host div unat (g_cluster_size (ws_geometry st))"

abbreviation staged_rc :: "staged_regions \<Rightarrow> nat \<Rightarrow> nat" where
  "staged_rc sr \<equiv> rc_flat (sr_refblocks sr)"

lemma geo_ok_cs:
  assumes "geo_ok g"
  shows "even (unat (g_cluster_size g))" "512 \<le> unat (g_cluster_size g)" "unat (g_cluster_size g) \<le> 2 ^ 21"
    "unat (g_entries_per_refblock g) = unat (g_cluster_size g) div 2"
    "unat (g_entries_per_l2 g) * 8 = unat (g_cluster_size g)"
    "unat (g_l2_coverage g) = unat (g_cluster_size g) * unat (g_entries_per_l2 g)"
    "unat (g_l2_coverage g) \<le> 2 ^ 39"
proof -
  let ?cb = "unat (g_cluster_bits g)"
  have cb: "9 \<le> ?cb" "?cb \<le> 21" and cs: "unat (g_cluster_size g) = 2 ^ ?cb" using assms by (auto simp: geo_ok_def)
  obtain k where k: "?cb = k + 9" using cb(1) by (metis add.commute le_Suc_ex)
  show "even (unat (g_cluster_size g))" unfolding cs k by simp
  show "512 \<le> unat (g_cluster_size g)" unfolding cs k by (simp add: power_add)
  show "unat (g_cluster_size g) \<le> 2 ^ 21" unfolding cs using cb(2) by (rule power_increasing) simp
  show "unat (g_entries_per_refblock g) = unat (g_cluster_size g) div 2"
    "unat (g_entries_per_l2 g) * 8 = unat (g_cluster_size g)"
    "unat (g_l2_coverage g) = unat (g_cluster_size g) * unat (g_entries_per_l2 g)"
  proof -
    have e: "?cb - 1 = k + 8" "?cb - 3 = k + 6" "2 * ?cb - 3 = (k + 9) + (k + 6)" using k by simp_all
    have "unat (g_entries_per_refblock g) = 2 ^ (k + 8)" "unat (g_entries_per_l2 g) = 2 ^ (k + 6)"
      "unat (g_l2_coverage g) = 2 ^ ((k + 9) + (k + 6))" "unat (g_cluster_size g) = 2 ^ (k + 9)"
      using assms e k unfolding geo_ok_def by metis+
    then show "unat (g_entries_per_refblock g) = unat (g_cluster_size g) div 2"
      "unat (g_entries_per_l2 g) * 8 = unat (g_cluster_size g)"
      "unat (g_l2_coverage g) = unat (g_cluster_size g) * unat (g_entries_per_l2 g)"
      by (simp_all only: power_add) simp_all
  qed
  have "unat (g_l2_coverage g) = 2 ^ (2 * ?cb - 3)" using assms by (simp add: geo_ok_def)
  also have "\<dots> \<le> 2 ^ 39" using cb(2) by (intro power_increasing) simp_all
  finally show "unat (g_l2_coverage g) \<le> 2 ^ 39" .
qed

lemma staging_blocks:
  assumes "staging_ok st sr"
  shows "staged_blocks (g_cluster_size (ws_geometry st)) (rb_count st sr) (sr_refblocks sr)"
    and "covered st sr * unat (g_cluster_size (ws_geometry st)) < 2 ^ 53"
    and "rb_count st sr \<le> 2048"
proof -
  let ?cs = "unat (g_cluster_size (ws_geometry st))"
  have g: "geo_ok (ws_geometry st)" and n: "rb_count st sr \<le> 2048"
    and d: "?cs dvd length (sr_refblocks sr)"
    using assms by (auto simp: staging_ok_def ws_inv_def MAX_REFBLOCKS_def)
  note c = geo_ok_cs[OF g]
  show "staged_blocks (g_cluster_size (ws_geometry st)) (rb_count st sr) (sr_refblocks sr)"
    using c d n unfolding staged_blocks_def rb_count_def by auto
  have "covered st sr * ?cs \<le> (2048 * 2 ^ 20) * 2 ^ 21"
    unfolding covered_def using n c by (intro mult_le_mono) auto
  then show "covered st sr * ?cs < 2 ^ 53" by simp
  show "rb_count st sr \<le> 2048" by (rule n)
qed

lemma is_multiple_of_cs:
  "geo_ok g \<Longrightarrow> is_multiple_of host (g_cluster_size g) \<longleftrightarrow> unat (g_cluster_size g) dvd unat host"
  using geo_ok_nz(1)[of g] by (auto simp: is_multiple_of_def word_unat_eq_iff unat_mod dvd_eq_mod_eq_0)

section \<open>The staged refcounts as flat counters\<close>

lemma cidx_unat:
  assumes "ws_inv st"
  shows "unat (host div g_cluster_size (ws_geometry st)) = cidx st host"
  by (simp add: cidx_def unat_div)

lemma staged_block_of:
  assumes ok: "staging_ok st sr" and j: "j < covered st sr"
  defines "e \<equiv> unat (g_cluster_size (ws_geometry st)) div 2" and "cs \<equiv> unat (g_cluster_size (ws_geometry st))"
  shows "j div e < rb_count st sr" "(j div e) * cs + cs \<le> length (sr_refblocks sr)" "(j mod e) * 2 + 2 \<le> cs"
    "(j div e) * cs + (j mod e) * 2 = 2 * j" "2 * j + 2 \<le> length (sr_refblocks sr)" "0 < e"
proof -
  have j': "j < rb_count st sr * e" using j by (simp add: covered_def e_def)
  note b = block_bounds[OF staging_blocks(1)[OF ok] e_def[THEN meta_eq_to_obj_eq] j']
  show *: "j div e < rb_count st sr" "(j div e) * cs + cs \<le> length (sr_refblocks sr)" "(j mod e) * 2 + 2 \<le> cs"
    using b by (simp_all add: cs_def)
  show e: "0 < e" using j' by (cases e) auto
  show f: "(j div e) * cs + (j mod e) * 2 = 2 * j" using flat_offset[OF b(5) e] by (simp add: cs_def)
  show "2 * j + 2 \<le> length (sr_refblocks sr)" using * f by linarith
qed

lemma rb_idx_bound:
  assumes ok: "staging_ok st sr"
  shows "rb_count st sr \<le> j div (unat (g_cluster_size (ws_geometry st)) div 2) \<longleftrightarrow> covered st sr \<le> j"
proof -
  have "0 < unat (g_cluster_size (ws_geometry st)) div 2"
    using geo_ok_cs(2)[of "ws_geometry st"] ok by (auto simp: staging_ok_def ws_inv_def)
  then show ?thesis by (simp add: covered_def less_eq_div_iff_mult_less_eq)
qed

lemma read_staged_refcount_flat:
  assumes ok: "staging_ok st sr"
  shows "read_staged_refcount st sr host =
    Some (if covered st sr \<le> cidx st host then Inl RefcountCoverage else Inr (of_nat (staged_rc sr (cidx st host))))"
proof -
  let ?g = "ws_geometry st" and ?j = "cidx st host"
  have g: "geo_ok ?g" and w: "ws_inv st" and b16: "g_refcount_bits ?g = 16" using ok by (auto simp: staging_ok_def ws_inv_def geo_ok_def)
  note nz = geo_ok_nz[OF g] and e = geo_ok_cs(4)[OF g]
  have idx: "unat (host div g_cluster_size ?g div g_entries_per_refblock ?g) = ?j div (unat (g_cluster_size ?g) div 2)"
    "unat (host div g_cluster_size ?g mod g_entries_per_refblock ?g) = ?j mod (unat (g_cluster_size ?g) div 2)"
    by (simp_all add: unat_div unat_mod e cidx_def)
  show ?thesis
  proof (cases "covered st sr \<le> ?j")
    case True
    then show ?thesis using nz rb_idx_bound[OF ok, of ?j]
      by (simp add: read_staged_refcount_def Let_def idx rb_count_def)
  next
    case False
    then have lt: "?j < covered st sr" by simp
    note s = staged_block_of[OF ok lt]
    let ?off = "?j div (unat (g_cluster_size ?g) div 2) * unat (g_cluster_size ?g)"
    have "read_refcount_in_block (slice_at ?off (unat (g_cluster_size ?g)) (sr_refblocks sr))
        (host div g_cluster_size ?g mod g_entries_per_refblock ?g) 16 = Inr (of_nat (staged_rc sr ?j))"
      using read_wide[of 16 2] s by (simp add: idx slice_slice rc_flat_def)
    then show ?thesis using False nz rb_idx_bound[OF ok, of ?j]
      by (simp add: read_staged_refcount_def Let_def idx rb_count_def b16)
  qed
qed

lemma dirty_set_rb:
  assumes "ws_inv st" "i < 2048"
  shows "\<exists>st'. refblock_dirty_set st i = Some st'"
  using assms by (simp add: refblock_dirty_set_Some ws_inv_def MAX_REFBLOCKS_def div_less_iff_less_mult)

text \<open>Only the allocator cursor and the dirty bits of the state, and only the refblocks of the staging, change.\<close>

definition rc_frame :: "write_state \<Rightarrow> staged_regions \<Rightarrow> write_state \<Rightarrow> staged_regions \<Rightarrow> bool" where
  "rc_frame st sr st' sr' \<longleftrightarrow> (\<exists>cur rd rb. st' = st\<lparr>ws_alloc_cursor := cur, ws_refblock_dirty := rd\<rparr> \<and>
     sr' = sr\<lparr>sr_refblocks := rb\<rparr> \<and> length rd = length (ws_refblock_dirty st) \<and> length rb = length (sr_refblocks sr))"

lemma rc_frameI:
  "length rd = length (ws_refblock_dirty st) \<Longrightarrow> length rb = length (sr_refblocks sr) \<Longrightarrow>
   rc_frame st sr (st\<lparr>ws_alloc_cursor := cur, ws_refblock_dirty := rd\<rparr>) (sr\<lparr>sr_refblocks := rb\<rparr>)"
  by (auto simp: rc_frame_def)

lemma rc_frame_simps:
  assumes "rc_frame st sr st' sr'"
  shows "ws_geometry st' = ws_geometry st" "ws_config st' = ws_config st" "covered st' sr' = covered st sr"
    "rb_count st' sr' = rb_count st sr" "cidx st' = cidx st" "ws_inv st' = ws_inv st"
  using assms by (auto simp: rc_frame_def covered_def rb_count_def cidx_def ws_inv_def fun_eq_iff)

lemma rc_frame_staging:
  assumes "rc_frame st sr st' sr'" "staging_ok st sr"
    "cursor_pos (unat (g_cluster_size (ws_geometry st)) div 2) (ws_alloc_cursor st') \<le> covered st sr"
  shows "staging_ok st' sr'"
  using assms(2,3) rc_frame_simps[OF assms(1)] assms(1) by (auto simp: staging_ok_def rc_frame_def)

lemma run_free_1: "run_free f s (unat (1 :: u64)) = f s"
  by (auto simp: run_free_def less_Suc_eq_le dest: antisym)

lemma alloc_cluster_flat:
  assumes ok: "staging_ok st sr"
  defines "free \<equiv> \<lambda>j. staged_rc sr j = 0"
    and "pos \<equiv> cursor_pos (unat (g_cluster_size (ws_geometry st)) div 2) (ws_alloc_cursor st)"
  shows "(alloc_cluster st sr = Some (Inl WRefcountExhausted, st, sr) \<and> (\<forall>j. pos \<le> j \<and> j < covered st sr \<longrightarrow> \<not> free j)) \<or>
    (\<exists>s host st' sr'. alloc_cluster st sr = Some (Inr host, st', sr') \<and>
       pos \<le> s \<and> s < covered st sr \<and> free s \<and> (\<forall>j. pos \<le> j \<and> j < s \<longrightarrow> \<not> free j) \<and>
       unat host = s * unat (g_cluster_size (ws_geometry st)) \<and>
       (\<forall>j<covered st sr. staged_rc sr' j = (if j = s then 1 else staged_rc sr j)) \<and>
       cursor_pos (unat (g_cluster_size (ws_geometry st)) div 2) (ws_alloc_cursor st') = s + 1 \<and>
       (\<forall>i. bitset_get (ws_refblock_dirty st') i \<longleftrightarrow>
          i = s div (unat (g_cluster_size (ws_geometry st)) div 2) \<or> bitset_get (ws_refblock_dirty st) i) \<and>
       rc_frame st sr st' sr' \<and> staging_ok st' sr')"
proof -
  let ?g = "ws_geometry st" let ?cs = "g_cluster_size ?g" let ?e = "unat ?cs div 2"
  have g: "geo_ok ?g" and w: "ws_inv st" and b16: "g_refcount_bits ?g = 16"
    using ok by (auto simp: staging_ok_def ws_inv_def geo_ok_def)
  note nz = geo_ok_nz[OF g] and e = geo_ok_cs(4)[OF g] and sb = staging_blocks[OF ok]
  have len: "length (sr_refblocks sr) < 2 ^ 64"
  proof -
    have "length (sr_refblocks sr) = rb_count st sr * unat ?cs" using sb(1) by (simp add: staged_blocks_def)
    also have "\<dots> \<le> 2048 * 2 ^ 21" using sb(3) geo_ok_cs(3)[OF g] by (intro mult_le_mono)
    finally show ?thesis by simp
  qed
  then have rbc: "unat (of_nat (length (sr_refblocks sr)) div ?cs) = rb_count st sr"
    by (simp add: rb_count_def unat_div unat_of_nat)
  have pos: "cursor_pos ?e (ws_alloc_cursor st) \<le> rb_count st sr * ?e" using ok by (simp add: staging_ok_def covered_def)
  have base: "rb_count st sr * ?e * unat ?cs + unat (0 :: u64) < 2 ^ 64" using sb(2) by (simp add: covered_def)
  obtain r where ff: "first_fit (\<lambda>j. rc_flat (sr_refblocks sr) j = 0) (cursor_pos ?e (ws_alloc_cursor st)) (unat (1 :: u64)) (rb_count st sr * ?e) r"
    and al: "case r of
       None \<Rightarrow> alloc_contiguous_clusters_in_refblocks (sr_refblocks sr) ?cs 16 (of_nat (length (sr_refblocks sr)) div ?cs) 0 1 (ws_alloc_cursor st) =
                 (Inl SnapRefcountExhausted, sr_refblocks sr, ws_alloc_cursor st)
     | Some s \<Rightarrow> \<exists>host blocks' cursor'.
         alloc_contiguous_clusters_in_refblocks (sr_refblocks sr) ?cs 16 (of_nat (length (sr_refblocks sr)) div ?cs) 0 1 (ws_alloc_cursor st) =
           (Inr host, blocks', cursor') \<and> unat host = s * unat ?cs + unat (0 :: u64) \<and>
         length blocks' = length (sr_refblocks sr) \<and>
         (\<forall>j < rb_count st sr * ?e. rc_flat blocks' j = (if s \<le> j \<and> j < s + unat (1 :: u64) then 1 else rc_flat (sr_refblocks sr) j)) \<and>
         cursor_pos ?e cursor' = s + unat (1 :: u64) \<and> allocated cursor' = allocated (ws_alloc_cursor st) + 1"
    using alloc_contiguous_first_fit[OF sb(1) rbc refl _ _ pos base, of 1] by auto
  show ?thesis
  proof (cases r)
    case None
    have "alloc_cluster st sr = Some (Inl WRefcountExhausted, st, sr)"
      using al None nz by (simp add: alloc_cluster_def Let_def alloc_cluster_in_refblocks_def b16)
    moreover have "\<forall>j. pos \<le> j \<and> j < covered st sr \<longrightarrow> \<not> free j"
      using ff None unfolding first_fit_def run_free_1 by (auto simp: covered_def free_def pos_def Suc_le_eq)
    ultimately show ?thesis by blast
  next
    case (Some s)
    obtain host blocks' cursor' where A: "alloc_contiguous_clusters_in_refblocks (sr_refblocks sr) ?cs 16
        (of_nat (length (sr_refblocks sr)) div ?cs) 0 1 (ws_alloc_cursor st) = (Inr host, blocks', cursor')"
      and host: "unat host = s * unat ?cs" and lb: "length blocks' = length (sr_refblocks sr)"
      and rc: "\<forall>j < covered st sr. rc_flat blocks' j = (if j = s then 1 else rc_flat (sr_refblocks sr) j)"
      and cur: "cursor_pos ?e cursor' = s + 1"
      using al Some by (auto simp: covered_def)
    have s: "pos \<le> s" "s < covered st sr" "free s" "\<forall>j. pos \<le> j \<and> j < s \<longrightarrow> \<not> free j"
      using ff Some unfolding first_fit_def run_free_1 by (auto simp: covered_def free_def pos_def Suc_le_eq)
    have idx: "unat (host div ?cs div g_entries_per_refblock ?g) = s div ?e"
      using host nz(1) by (simp add: unat_div e unat_eq_zero)
    have rbi: "s div ?e < rb_count st sr" using staged_block_of(1)[OF ok s(2)] .
    then have dv: "s div ?e div 64 < length (ws_refblock_dirty st)"
      using sb(3) w by (simp add: ws_inv_def MAX_REFBLOCKS_def div_less_iff_less_mult)
    define rd where "rd = (ws_refblock_dirty st)[s div ?e div 64 := ws_refblock_dirty st ! (s div ?e div 64) OR shl 1 (s div ?e mod 64)]"
    let ?st' = "st\<lparr>ws_alloc_cursor := cursor', ws_refblock_dirty := rd\<rparr>" and ?sr' = "sr\<lparr>sr_refblocks := blocks'\<rparr>"
    have "alloc_cluster st sr = Some (Inr host, ?st', ?sr')"
      using A nz dv by (simp add: alloc_cluster_def Let_def alloc_cluster_in_refblocks_def b16 idx refblock_dirty_set_def rd_def)
    moreover have fr: "rc_frame st sr ?st' ?sr'" by (rule rc_frameI) (simp_all add: rd_def lb)
    moreover have "staging_ok ?st' ?sr'" by (rule rc_frame_staging[OF fr ok]) (use cur s(2) in simp)
    moreover have "bitset_get rd i \<longleftrightarrow> i = s div ?e \<or> bitset_get (ws_refblock_dirty st) i" for i
      unfolding rd_def by (rule bitset_get_set[OF dv])
    ultimately show ?thesis using s host rc cur by (intro disjI2 exI[of _ s] exI[of _ host] exI[of _ ?st'] exI[of _ ?sr']) simp
  qed
qed

lemma dec_refcount_flat:
  fixes host :: u64
  assumes ok: "staging_ok st sr"
  defines "j \<equiv> cidx st host"
  shows "(covered st sr \<le> j \<longrightarrow> dec_refcount st sr host = Some (Inl RefcountCoverage, st, sr)) \<and>
    (j < covered st sr \<and> staged_rc sr j = 0 \<longrightarrow> dec_refcount st sr host = Some (Inl RefcountInconsistent, st, sr)) \<and>
    (j < covered st sr \<and> staged_rc sr j \<noteq> 0 \<longrightarrow>
      (\<exists>st' sr'. dec_refcount st sr host = Some (Inr (), st', sr') \<and>
        (\<forall>i<covered st sr. staged_rc sr' i = (if i = j then staged_rc sr j - 1 else staged_rc sr i)) \<and>
        (\<forall>i. bitset_get (ws_refblock_dirty st') i \<longleftrightarrow>
          i = j div (unat (g_cluster_size (ws_geometry st)) div 2) \<or> bitset_get (ws_refblock_dirty st) i) \<and>
        ws_alloc_cursor st' = ws_alloc_cursor st \<and> rc_frame st sr st' sr' \<and> staging_ok st' sr'))"
proof -
  let ?g = "ws_geometry st" let ?cs = "g_cluster_size ?g" let ?e = "unat ?cs div 2"
  have g: "geo_ok ?g" and w: "ws_inv st" and b16: "g_refcount_bits ?g = 16"
    using ok by (auto simp: staging_ok_def ws_inv_def geo_ok_def)
  note nz = geo_ok_nz[OF g] and e = geo_ok_cs(4)[OF g] and sb = staging_blocks[OF ok]
  have idx: "unat (host div ?cs div g_entries_per_refblock ?g) = j div ?e"
    "unat (host div ?cs mod g_entries_per_refblock ?g) = j mod ?e"
    by (simp_all add: unat_div unat_mod e j_def cidx_def)
  note rbb = rb_idx_bound[OF ok, of j, unfolded rb_count_def]
  show ?thesis
  proof (cases "covered st sr \<le> j")
    case True
    then show ?thesis using nz rbb by (simp add: dec_refcount_def Let_def idx)
  next
    case False
    then have lt: "j < covered st sr" by simp
    note s = staged_block_of[OF ok lt]
    let ?off = "j div ?e * unat ?cs" let ?blk = "slice_at ?off (unat ?cs) (sr_refblocks sr)" and ?l = "host div ?cs mod g_entries_per_refblock ?g"
    have rd: "read_refcount_in_block ?blk ?l 16 = Inr (of_nat (staged_rc sr j))"
      using read_wide[of 16 2] s by (simp add: idx slice_slice rc_flat_def)
    have rz: "(of_nat (staged_rc sr j) :: u64) = 0 \<longleftrightarrow> staged_rc sr j = 0"
      by (simp add: word_unat_eq_iff[where 'a = 64] del: of_nat_eq_0_iff)
    have chk: "check_refcount_after_addend (of_nat (staged_rc sr j)) (- 1) 16 =
        (if staged_rc sr j = 0 then Inl ParseFailed else Inr (of_nat (staged_rc sr j) - 1))"
      by (subst check_addend_dec) (simp_all only: rz, simp)
    show ?thesis
    proof (cases "staged_rc sr j = 0")
      case True
      then show ?thesis using nz rbb False rd chk by (simp add: dec_refcount_def Let_def idx b16)
    next
      case nzero: False
      let ?v = "of_nat (staged_rc sr j) - 1 :: u64"
      have v: "unat ?v = staged_rc sr j - 1" using nzero by (simp add: unat_sub word_le_nat_alt)
      have wr: "set_refcount_in_block ?blk ?l 16 ?v = Inr (splice_at (j mod ?e * 2) (be_enc 2 (staged_rc sr j - 1)) ?blk)"
        using set_wide[of 16 2 ?blk ?l ?v] s by (simp add: idx v)
      define rb where "rb = splice_at (2 * j) (be_enc 2 (staged_rc sr j - 1)) (sr_refblocks sr)"
      have sp: "splice_at ?off (splice_at (j mod ?e * 2) (be_enc 2 (staged_rc sr j - 1)) ?blk) (sr_refblocks sr) = rb"
        using s by (simp add: splice_slice rb_def)
      have lrb: "length rb = length (sr_refblocks sr)" using s(5) by (simp add: rb_def)
      have dv: "j div ?e div 64 < length (ws_refblock_dirty st)"
        using sb(3) w s(1) by (simp add: ws_inv_def MAX_REFBLOCKS_def div_less_iff_less_mult)
      define rdy where "rdy = (ws_refblock_dirty st)[j div ?e div 64 := ws_refblock_dirty st ! (j div ?e div 64) OR shl 1 (j div ?e mod 64)]"
      let ?st' = "st\<lparr>ws_refblock_dirty := rdy\<rparr>" and ?sr' = "sr\<lparr>sr_refblocks := rb\<rparr>"
      have "dec_refcount st sr host = Some (Inr (), ?st', ?sr')"
        using nz rbb False rd chk nzero wr sp dv by (simp add: dec_refcount_def Let_def idx b16 refblock_dirty_set_def rdy_def)
      moreover have fr: "rc_frame st sr ?st' ?sr'"
        using rc_frameI[of rdy st rb sr "ws_alloc_cursor st"] by (simp add: rdy_def lrb)
      moreover have "staging_ok ?st' ?sr'" by (rule rc_frame_staging[OF fr ok]) (use ok in \<open>simp add: staging_ok_def\<close>)
      moreover have "bitset_get rdy i \<longleftrightarrow> i = j div ?e \<or> bitset_get (ws_refblock_dirty st) i" for i
        unfolding rdy_def by (rule bitset_get_set[OF dv])
      moreover have "rc_flat rb i = (if i = j then staged_rc sr j - 1 else staged_rc sr i)" if "i < covered st sr" for i
        unfolding rb_def using s(5) staged_block_of(5)[OF ok that] rc_flat_less[of "sr_refblocks sr" j]
        by (intro rc_flat_splice) simp_all
      ultimately show ?thesis using False nzero by simp
    qed
  qed
qed
end
