(* ===== verification/Example_Image.thy ===== *)
theory Example_Image
  imports Write_Plan
begin

text \<open>
  A concrete image on which the planner runs: a qcow2 version 3 header with 512-byte clusters and a
  4 KiB virtual disk, clusters 0 to 3 in use (header, refcount table, refblock, L1 table), and an empty
  L1 table.  The lemmas evaluate header parsing, \<open>new_state\<close>, and one \<open>plan_write\<close> that allocates an L2
  table and a data cluster.
\<close>

section \<open>The image\<close>

definition ex_geo :: geometry where
  "ex_geo = \<lparr>g_cluster_bits = 9, g_cluster_size = 512, g_virtual_size = 4096, g_l1_table_offset = 1536,
     g_l1_size = 1, g_refcount_table_offset = 512, g_refcount_table_clusters = 1, g_refcount_bits = 16,
     g_entries_per_l2 = 64, g_l2_coverage = 32768, g_entries_per_refblock = 256\<rparr>"

definition ex_cfg :: staging_config where
  "ex_cfg = \<lparr>c_l2_slots = 1, c_max_refblocks = 1, c_device = Input0\<rparr>"

definition ex_st :: write_state where
  "ex_st = \<lparr>ws_geometry = ex_geo, ws_config = ex_cfg, ws_l2_slots = replicate 256 L2Slot_EMPTY,
     ws_refblock_dirty = replicate 32 0, ws_access_counter = 0, ws_alloc_cursor = empty_cursor,
     ws_has_backing = False, ws_cow_enabled = False, ws_l1_dirty = False, ws_steps_since_barrier = 0,
     ws_slot_pending_zero = replicate 4 0, ws_pending = Idle\<rparr>"

text \<open>A refblock of 256 entries whose first \<open>k\<close> clusters are in use.\<close>

definition ex_rb :: "nat \<Rightarrow> bytes" where
  "ex_rb k = concat (replicate k [0, 1]) @ replicate (512 - 2 * k) 0"

definition ex_sr :: staged_regions where
  "ex_sr = \<lparr>sr_l1 = replicate 8 0, sr_l2_window = replicate 512 0, sr_refcount_table = [0, 0, 0, 0, 0, 0, 4, 0],
     sr_refblocks = ex_rb 4\<rparr>"

definition ex_buf :: step_buf where
  "ex_buf = sb_new (replicate 8 (barrier_step Input0))"

definition ex_steps :: "step list" where
  "ex_steps = [zero_region_step 0 512 Input0, patch_step RL1 0 (2048 OR OFLAG_COPIED) Input0,
     body_step (Fill 7) 0 2560 512 Input0, patch_step (RL2Slot 0) 0 (2560 OR OFLAG_COPIED) Input0]"

section \<open>The header and the fresh state\<close>

lemma ex_fields: "check_envelope_with ex_h False = Inr ()" "from_header ex_h = ex_geo" "h_backing_file_offset ex_h = 0"
  by code_simp+

lemma ex_new_state: "new_state_impl ex_h ex_cfg False = Inr ex_st"
  by (simp add: new_state_impl_def ex_fields ex_cfg_def ex_st_def MAX_L2_SLOTS_def MAX_REFBLOCKS_def)

section \<open>One planned write\<close>

lemma ex_rb_length: "k \<le> 256 \<Longrightarrow> length (ex_rb k) = 512"
  by (simp add: ex_rb_def length_concat sum_list_replicate)

lemma ex_rb_eq: "ex_rb 4 = [0, 1, 0, 1, 0, 1, 0, 1] @ replicate 504 0"
  "ex_rb 5 = [0, 1, 0, 1, 0, 1, 0, 1, 0, 1] @ replicate 502 0"
  "ex_rb 6 = [0, 1, 0, 1, 0, 1, 0, 1, 0, 1, 0, 1] @ replicate 500 0"
  by (simp_all add: ex_rb_def numeral_eq_Suc)

lemma replicate_eval: "replicate 504 x = x # x # replicate 502 x" "replicate 502 x = x # x # replicate 500 x"
  "replicate 2 x = [x, x]" "replicate 8 x = [x, x, x, x, x, x, x, x]"
  by (simp_all add: numeral_eq_Suc)

lemmas alloc_eval = alloc_cluster_in_refblocks_def alloc_contiguous_clusters_in_refblocks_def Let_def
  checked_mul_def checked_add_def find_run.simps probe_run.simps claim_run.simps read_entry_def
  read_refcount_in_block_def slice_at_def splice_at_def set_refcount_in_block_def be_val_def ok_or_def

lemma ex_alloc:
  "alloc_cluster_in_refblocks (ex_rb 4) 512 16 1 0 \<lparr>next_refblock = 0, next_entry_in_refblock = 0, allocated = 0\<rparr> =
     (Inr 2048, ex_rb 5, \<lparr>next_refblock = 0, next_entry_in_refblock = 5, allocated = 1\<rparr>)"
  "alloc_cluster_in_refblocks (ex_rb 5) 512 16 1 0 \<lparr>next_refblock = 0, next_entry_in_refblock = 5, allocated = 1\<rparr> =
     (Inr 2560, ex_rb 6, \<lparr>next_refblock = 0, next_entry_in_refblock = 6, allocated = 2\<rparr>)"
  by (simp_all add: ex_rb_eq alloc_eval replicate_eval)

lemmas ex_defs = ex_st_def ex_sr_def ex_geo_def ex_cfg_def ex_buf_def sb_new_def empty_cursor_def

lemma ex_validate: "validate_staged ex_st ex_sr ex_buf = Some (Inr ())"
  by (simp add: validate_staged_def Let_def ex_defs ex_rb_length sb_capacity_def)

lemmas plan_eval = plan_write_def Let_def admit_write_def checked_add_def run_write_def pending_zero_clear_all_def
  drive_write.simps dw_step_def dw_defs w_l1_idx_def w_cur_def w_win_len_def w_in_off_def w_l2_idx_def find_slot_def
  pick_victim_def L2Slot_EMPTY_def set_stage_def next_cluster_def must_def slot_at_def emit_def push_step_def
  sb_push_def touch_def put_slot_def alloc_in_def alloc_cluster_def read_u64_be_def slice_at_def u64_from_be_def
  be_val_def assign_slot_def refblock_dirty_set_def pending_zero_set_def pending_zero_get_def bitset_get_def
  shl_def shr_def MAX_L2_SLOTS_def step_builders classify_l2_entry_def read_staged_l2_entry_def

lemma ex_plan_eval:
  "map_option (\<lambda>(r, st, sr, b). (r, sr_refblocks sr, sb_steps b)) (plan_write ex_st ex_sr 0 512 (Fill 7) ex_buf) =
     Some (Inr 4, ex_rb 6, ex_steps)"
  by (simp add: ex_defs ex_alloc ex_rb_length sb_capacity_def validate_staged_def plan_eval replicate_eval ex_steps_def sb_steps_def)

lemma ex_plan:
  obtains st sr b where "plan_write ex_st ex_sr 0 512 (Fill 7) ex_buf = Some (Inr 4, st, sr, b)"
    "sr_refblocks sr = ex_rb 6" "sb_steps b = ex_steps"
  using ex_plan_eval by auto

end
