(* ===== verification/Write_Safety.thy ===== *)
theory Write_Safety
  imports Write_Staging Example_Image
begin

text \<open>
  Safety of \<open>plan_write\<close>: an invariant of the write loop, kept by every stage of \<open>drive_write\<close> and across
  planner calls.  It says that every window slot and every cluster being filled is unshared, that each
  emitted disk write stays inside one unshared host cluster, that no step is a barrier or a write-back of
  the L1 table or of refblocks, and that pointers follow what they point to.  Each stage has one lemma;
  the rules \<open>wp_emit\<close>, \<open>wp_must\<close>, \<open>wp_alloc_in\<close> and \<open>wp_dec_in\<close> compute what must hold before a stage.
\<close>

section \<open>What the write planner may emit\<close>

text \<open>A host cluster that no other reference shares: aligned, its refcount staged and at most one.\<close>

definition own :: "write_state \<Rightarrow> staged_regions \<Rightarrow> u64 \<Rightarrow> bool" where
  "own st sr host \<longleftrightarrow> unat (g_cluster_size (ws_geometry st)) dvd unat host \<and>
     cidx st host < covered st sr \<and> staged_rc sr (cidx st host) \<le> 1"

definition disk_write :: "step \<Rightarrow> bool" where
  "disk_write s \<longleftrightarrow> s_kind s \<in> {WriteRange, ZeroRange, FillRange, WritebackCluster}"

text \<open>A step of \<open>plan_write\<close>: no barrier, no write-back of the L1 table or of refblocks, on the configured
  device; and a disk write stays inside one host cluster that is not shared.\<close>

definition safe_step :: "write_state \<Rightarrow> staged_regions \<Rightarrow> step \<Rightarrow> bool" where
  "safe_step st sr s \<longleftrightarrow> (\<forall>b. s_kind s \<noteq> Barrier b) \<and> s_device s = c_device (ws_config st) \<and>
     (s_kind s = WriteRange \<longrightarrow> s_region s \<in> {RBounce, RCallerData}) \<and>
     (disk_write s \<longrightarrow> cidx st (s_disk_offset s) < covered st sr \<and> staged_rc sr (cidx st (s_disk_offset s)) \<le> 1 \<and>
        unat (s_disk_offset s) mod unat (g_cluster_size (ws_geometry st)) + unat (s_len s)
          \<le> unat (g_cluster_size (ws_geometry st)))"

text \<open>The bytes \<open>[a, b)\<close> of the cluster at \<open>host\<close> are written by some step of the stream.\<close>

definition written :: "step list \<Rightarrow> u64 \<Rightarrow> nat \<Rightarrow> nat \<Rightarrow> bool" where
  "written T host a b \<longleftrightarrow> (\<forall>x. a \<le> x \<and> x < b \<longrightarrow> (\<exists>s\<in>set T. disk_write s \<and>
     unat (s_disk_offset s) \<le> unat host + x \<and> unat host + x < unat (s_disk_offset s) + unat (s_len s)))"

definition l2_patch :: "step \<Rightarrow> bool" where
  "l2_patch s \<longleftrightarrow> s_kind s = PatchEntryU64 \<and> s_region s \<noteq> RL1"

definition l1_patch :: "step \<Rightarrow> bool" where
  "l1_patch s \<longleftrightarrow> s_kind s = PatchEntryU64 \<and> s_region s = RL1"

text \<open>Pointers come after what they point to: an L2 patch after writes covering every byte of the cluster it
  references, an L1 patch right after the initialisation of the table's window slot.\<close>

definition step_ordered :: "nat \<Rightarrow> step list \<Rightarrow> step \<Rightarrow> bool" where
  "step_ordered cs pre s \<longleftrightarrow>
     (l2_patch s \<longrightarrow> written pre (s_value s AND L2_OFFSET_MASK) 0 cs) \<and>
     (l1_patch s \<longrightarrow> pre \<noteq> [] \<and> s_kind (last pre) \<in> {ZeroRegion, LoadCluster} \<and> unat (s_len (last pre)) = cs)"

definition ordered :: "nat \<Rightarrow> step list \<Rightarrow> bool" where
  "ordered cs T \<longleftrightarrow> (\<forall>k<length T. step_ordered cs (take k T) (T ! k))"

definition prog_ok :: "write_state \<Rightarrow> write_progress \<Rightarrow> bool" where
  "prog_ok st p \<longleftrightarrow> p_consumed p \<le> p_len p \<and> 0 < p_len p \<and>
     unat (p_voff p) + unat (p_len p) \<le> unat (g_virtual_size (ws_geometry st)) \<and>
     (unat (p_voff p) + unat (p_len p) - 1) div unat (g_l2_coverage (ws_geometry st)) < unat (g_l1_size (ws_geometry st)) \<and>
     unat (p_slot p) < c_l2_slots (ws_config st)"

definition slots_own :: "write_state \<Rightarrow> staged_regions \<Rightarrow> bool" where
  "slots_own st sr \<longleftrightarrow> (\<forall>i<c_l2_slots (ws_config st). l_valid (ws_l2_slots st ! i) \<longrightarrow> own st sr (l_host_offset (ws_l2_slots st ! i)))"

definition hosts_own :: "write_state \<Rightarrow> staged_regions \<Rightarrow> write_progress \<Rightarrow> bool" where
  "hosts_own st sr p \<longleftrightarrow>
     (p_stage p \<in> {FreshAlloc, FreshZeroed, CowL2Load, CowL2Repoint, CowL2Decrement} \<longrightarrow> own st sr (p_l2_host p)) \<and>
     (p_stage p \<in> {DataAlloc, HeadDone, BodyDone, TailDone, CowDataEnter, CowDataCopy, CowDataBody, CowDataPatch, CowDataDecrement}
        \<longrightarrow> own st sr (p_data_host p))"

definition stage_cov :: "geometry \<Rightarrow> write_progress \<Rightarrow> step list \<Rightarrow> bool" where
  "stage_cov g p T \<longleftrightarrow>
     (case p_stage p of
        FreshZeroed \<Rightarrow> T \<noteq> [] \<and> s_kind (last T) = ZeroRegion \<and> s_len (last T) = g_cluster_size g
      | CowL2Repoint \<Rightarrow> T \<noteq> [] \<and> s_kind (last T) = LoadCluster \<and> s_len (last T) = g_cluster_size g
      | HeadDone \<Rightarrow> written T (p_data_host p) 0 (unat (w_in_off g p))
      | BodyDone \<Rightarrow> written T (p_data_host p) 0 (unat (w_in_off g p) + unat (w_win_len g p))
      | TailDone \<Rightarrow> written T (p_data_host p) 0 (unat (g_cluster_size g))
      | CowDataBody \<Rightarrow> written T (p_data_host p) 0 (unat (g_cluster_size g)) \<or>
          (w_in_off g p = 0 \<and> w_win_len g p = g_cluster_size g)
      | CowDataPatch \<Rightarrow> written T (p_data_host p) 0 (unat (g_cluster_size g))
      | _ \<Rightarrow> True)"

definition write_inv :: "write_state \<Rightarrow> staged_regions \<Rightarrow> write_progress \<Rightarrow> step list \<Rightarrow> bool" where
  "write_inv st sr p T \<longleftrightarrow> staging_ok st sr \<and> prog_ok st p \<and> slots_own st sr \<and> hosts_own st sr p \<and>
     (\<forall>s\<in>set T. safe_step st sr s) \<and> ordered (unat (g_cluster_size (ws_geometry st))) T \<and> stage_cov (ws_geometry st) p T"

section \<open>Weakest preconditions of the loop body\<close>

definition wp :: "('c \<Rightarrow> bool) \<Rightarrow> (write_error \<Rightarrow> 'c \<Rightarrow> bool) \<Rightarrow> 'c drive_res \<Rightarrow> bool" where
  "wp N S r = (case r of Next c \<Rightarrow> N c | Finished c \<Rightarrow> N c | Stop e c \<Rightarrow> S e c | Panicked \<Rightarrow> False)"

lemma wp_simps [simp]: "wp N S (Next c) = N c" "wp N S (Finished c) = N c" "wp N S (Stop e c) = S e c" "wp N S Panicked = False"
  by (simp_all add: wp_def)

lemma wp_emit: "wp N S (emit s c k) \<longleftrightarrow> (case sb_push (d_steps c) s of None \<Rightarrow> S BufFull c
    | Some b \<Rightarrow> wp N S (k (c\<lparr>d_state := bump s (d_state c), d_steps := b\<rparr>)))"
  by (simp add: emit_eq split: option.splits)

lemma wp_must: "wp N S (must x k) \<longleftrightarrow> (\<exists>v. x = Some v \<and> wp N S (k v))"
  by (auto simp: must_def split: option.splits)

lemma wp_assign_slot: "wp N S (assign_slot c d host k) \<longleftrightarrow>
    unat (p_slot (d_prog c)) < length (ws_l2_slots (d_state c)) \<and>
    wp N S (k ((d_state c)\<lparr>ws_l2_slots := (ws_l2_slots (d_state c))[unat (p_slot (d_prog c)) :=
        \<lparr>l_valid = True, l_dirty = d, l_l1_idx = w_l1_idx (ctx_geo c) (d_prog c), l_host_offset = host,
         l_last_access = l_last_access (ws_l2_slots (d_state c) ! unat (p_slot (d_prog c)))\<rparr>]\<rparr>))"
  by (auto simp: assign_slot_def wp_must put_slot_Some slot_at_Some Let_def)

section \<open>Framing\<close>

definition rc_le :: "write_state \<Rightarrow> staged_regions \<Rightarrow> staged_regions \<Rightarrow> bool" where
  "rc_le st sr sr' \<longleftrightarrow> (\<forall>j<covered st sr. staged_rc sr j \<le> 1 \<longrightarrow> staged_rc sr' j \<le> 1)"

lemma own_mono: "rc_frame st sr st' sr' \<Longrightarrow> rc_le st sr sr' \<Longrightarrow> own st sr h \<Longrightarrow> own st' sr' h"
  by (auto simp: own_def rc_frame_simps rc_le_def)

lemma safe_step_mono: "rc_frame st sr st' sr' \<Longrightarrow> rc_le st sr sr' \<Longrightarrow> safe_step st sr s \<Longrightarrow> safe_step st' sr' s"
  by (auto simp: safe_step_def rc_frame_simps rc_le_def)

lemma slots_own_mono:
  assumes "rc_frame st sr st' sr'" "rc_le st sr sr'" "slots_own st sr" shows "slots_own st' sr'"
proof -
  have "ws_l2_slots st' = ws_l2_slots st" "ws_config st' = ws_config st" using assms(1) by (auto simp: rc_frame_def)
  then show ?thesis using assms own_mono by (auto simp: slots_own_def)
qed

text \<open>Facts that depend on the geometry, the configuration and the slots only.\<close>

definition same_base :: "write_state \<Rightarrow> write_state \<Rightarrow> bool" where
  "same_base st st' \<longleftrightarrow> ws_geometry st' = ws_geometry st \<and> ws_config st' = ws_config st \<and>
     ws_alloc_cursor st' = ws_alloc_cursor st \<and> length (ws_l2_slots st') = length (ws_l2_slots st) \<and>
     length (ws_refblock_dirty st') = length (ws_refblock_dirty st) \<and>
     length (ws_slot_pending_zero st') = length (ws_slot_pending_zero st)"

lemma same_base_simps:
  assumes "same_base st st'"
  shows "staging_ok st' sr = staging_ok st sr" "prog_ok st' p = prog_ok st p" "own st' sr h = own st sr h"
    "hosts_own st' sr p = hosts_own st sr p" "safe_step st' sr s = safe_step st sr s" "covered st' sr = covered st sr"
    "cidx st' = cidx st" "ws_inv st' = ws_inv st"
  using assms
  by (auto simp: same_base_def staging_ok_def prog_ok_def own_def hosts_own_def safe_step_def covered_def rb_count_def cidx_def ws_inv_def fun_eq_iff)

lemma slots_own_cong: "ws_l2_slots st' = ws_l2_slots st \<Longrightarrow> same_base st st' \<Longrightarrow> slots_own st' sr = slots_own st sr"
  by (simp add: slots_own_def same_base_simps) (simp add: same_base_def)

lemma slots_own_upd:
  assumes "slots_own st sr" "same_base st st'" "ws_l2_slots st' = (ws_l2_slots st)[i := sl]" "i < length (ws_l2_slots st)"
    "l_valid sl \<longrightarrow> own st sr (l_host_offset sl)"
  shows "slots_own st' sr"
  using assms by (auto simp: slots_own_def same_base_simps nth_list_update) (auto simp: same_base_def)


section \<open>Streams\<close>

lemma written_mono: "written T h a b \<Longrightarrow> set T \<subseteq> set T' \<Longrightarrow> written T' h a b"
  by (meson subsetD written_def)

lemma written_empty [simp]: "written T h a a"
  unfolding written_def by auto

lemma written_join: "written T h a b \<Longrightarrow> written T h b c \<Longrightarrow> written T h a c"
  unfolding written_def by (meson not_le)

lemma written_step:
  assumes "s \<in> set T" "disk_write s" "unat (s_disk_offset s) = unat h + a" "unat (s_len s) = b - a"
  shows "written T h a b"
  unfolding written_def using assms by (intro allI impI bexI[of _ s]) auto

lemma ordered_snoc: "ordered cs (T @ [s]) \<longleftrightarrow> ordered cs T \<and> step_ordered cs T s"
  by (simp add: ordered_def All_less_Suc nth_append conj_commute)

section \<open>Rules for the allocator and the decrement\<close>

lemma wp_alloc_in:
  assumes ok: "staging_ok (d_state c) (d_staged c)" and ex: "S WRefcountExhausted c"
    and k: "\<And>host st' sr'. rc_frame (d_state c) (d_staged c) st' sr' \<Longrightarrow> rc_le (d_state c) (d_staged c) sr' \<Longrightarrow>
       staging_ok st' sr' \<Longrightarrow> own st' sr' host \<Longrightarrow> wp N S (k host (c\<lparr>d_state := st', d_staged := sr'\<rparr>))"
  shows "wp N S (alloc_in c k)"
  using alloc_cluster_flat[OF ok]
proof (elim disjE conjE exE)
  assume "alloc_cluster (d_state c) (d_staged c) = Some (Inl WRefcountExhausted, d_state c, d_staged c)"
  then show ?thesis using ex by (simp add: alloc_in_def must_def Let_def)
next
  fix s host st' sr'
  let ?cs = "unat (g_cluster_size (ws_geometry (d_state c)))"
  assume a: "alloc_cluster (d_state c) (d_staged c) = Some (Inr host, st', sr')" and h: "unat host = s * ?cs"
    and s: "s < covered (d_state c) (d_staged c)"
    and rc: "\<forall>j<covered (d_state c) (d_staged c). staged_rc sr' j = (if j = s then 1 else staged_rc (d_staged c) j)"
    and fr: "rc_frame (d_state c) (d_staged c) st' sr'" and ok': "staging_ok st' sr'"
  have "0 < ?cs" using geo_ok_cs(2)[of "ws_geometry (d_state c)"] ok by (auto simp: staging_ok_def ws_inv_def)
  then have "cidx (d_state c) host = s" using h by (simp add: cidx_def)
  then have "own st' sr' host" using h s rc by (simp add: own_def rc_frame_simps[OF fr])
  moreover have "rc_le (d_state c) (d_staged c) sr'" using rc by (simp add: rc_le_def)
  ultimately show ?thesis using a k fr ok' by (simp add: alloc_in_def must_def Let_def)
qed

lemma wp_dec_in:
  assumes ok: "staging_ok (d_state c) (d_staged c)" and ex: "S RefcountCoverage c" "S RefcountInconsistent c"
    and k: "\<And>st' sr'. rc_frame (d_state c) (d_staged c) st' sr' \<Longrightarrow> rc_le (d_state c) (d_staged c) sr' \<Longrightarrow>
       staging_ok st' sr' \<Longrightarrow> wp N S (k (c\<lparr>d_state := st', d_staged := sr'\<rparr>))"
  shows "wp N S (dec_in host c k)"
proof -
  let ?j = "cidx (d_state c) host"
  note D = dec_refcount_flat[OF ok, of host]
  consider "covered (d_state c) (d_staged c) \<le> ?j" | "?j < covered (d_state c) (d_staged c)" "staged_rc (d_staged c) ?j = 0"
    | "?j < covered (d_state c) (d_staged c)" "staged_rc (d_staged c) ?j \<noteq> 0" by linarith
  then show ?thesis
  proof cases
    case 3
    then obtain st' sr' where d: "dec_refcount (d_state c) (d_staged c) host = Some (Inr (), st', sr')"
      and rc: "\<forall>i<covered (d_state c) (d_staged c). staged_rc sr' i = (if i = ?j then staged_rc (d_staged c) ?j - 1 else staged_rc (d_staged c) i)"
      and fr: "rc_frame (d_state c) (d_staged c) st' sr'" and ok': "staging_ok st' sr'" using D by blast
    have "rc_le (d_state c) (d_staged c) sr'" using rc by (auto simp: rc_le_def)
    then show ?thesis using d k fr ok' by (simp add: dec_in_def must_def Let_def)
  qed (use D ex in \<open>simp_all add: dec_in_def must_def Let_def\<close>)
qed

section \<open>Classification grants ownership\<close>

lemma classify_own:
  assumes ok: "staging_ok st sr"
  shows "\<exists>v. classify_l2_entry st sr entry = Some v \<and>
     (\<forall>h. v = Inr (Owned h) \<or> v = Inr (OwnedZero h) \<longrightarrow> own st sr h)"
proof -
  have g: "geo_ok (ws_geometry st)" using ok by (auto simp: staging_ok_def ws_inv_def)
  show ?thesis
    unfolding classify_l2_entry_def Let_def read_staged_refcount_flat[OF ok] is_multiple_of_cs[OF g]
    by (auto simp: own_def word_less_nat_alt)
qed

lemma validate_l1_own:
  assumes ok: "staging_ok st sr"
  shows "\<exists>v. validate_l1_entry st sr raw = Some v \<and> (\<forall>h. v = Inr (L1Owned h) \<longrightarrow> own st sr h)"
proof -
  have g: "geo_ok (ws_geometry st)" using ok by (auto simp: staging_ok_def ws_inv_def)
  show ?thesis
    unfolding validate_l1_entry_def Let_def read_staged_refcount_flat[OF ok] is_multiple_of_cs[OF g]
    by (auto simp: own_def word_less_nat_alt)
qed

section \<open>Positions of a request\<close>

lemma w_cur_unat:
  assumes "prog_ok st p" "p_consumed p < p_len p"
  shows "unat (w_cur p) = unat (p_voff p) + unat (p_consumed p)" "unat (w_cur p) < unat (p_voff p) + unat (p_len p)"
    "unat (w_cur p) < unat (g_virtual_size (ws_geometry st))"
proof -
  have "unat (p_voff p) + unat (p_consumed p) < 2 ^ 64"
    using assms unat_u64_less[of "g_virtual_size (ws_geometry st)"] by (auto simp: prog_ok_def word_less_nat_alt)
  then show *: "unat (w_cur p) = unat (p_voff p) + unat (p_consumed p)" by (simp add: w_cur_def unat_add_small)
  then show "unat (w_cur p) < unat (p_voff p) + unat (p_len p)"
    "unat (w_cur p) < unat (g_virtual_size (ws_geometry st))"
    using assms by (auto simp: prog_ok_def word_less_nat_alt)
qed

lemma w_l1_idx_unat:
  assumes p: "prog_ok st p" "p_consumed p < p_len p" and g: "geo_ok (ws_geometry st)"
  shows "unat (w_l1_idx (ws_geometry st) p) = unat (w_cur p) div unat (g_l2_coverage (ws_geometry st))"
    "unat (w_l1_idx (ws_geometry st) p) < unat (g_l1_size (ws_geometry st))"
proof -
  let ?c = "unat (g_l2_coverage (ws_geometry st))"
  have "unat (w_cur p) div ?c \<le> (unat (p_voff p) + unat (p_len p) - 1) div ?c"
    using w_cur_unat(2)[OF p] by (intro div_le_mono) simp
  also have "\<dots> < unat (g_l1_size (ws_geometry st))" using p by (simp add: prog_ok_def)
  finally have lt: "unat (w_cur p) div ?c < unat (g_l1_size (ws_geometry st))" .
  also have "\<dots> \<le> 4194304" using g by (simp add: geo_ok_def)
  finally have "unat (w_cur p) div ?c < 2 ^ 32" by simp
  then show *: "unat (w_l1_idx (ws_geometry st) p) = unat (w_cur p) div ?c"
    by (simp add: w_l1_idx_def unsigned_ucast_eq unat_div take_bit_nat_eq_self)
  then show "unat (w_l1_idx (ws_geometry st) p) < unat (g_l1_size (ws_geometry st))" using lt by simp
qed

lemma read_l1_ok:
  assumes "staging_ok st sr" "prog_ok st p" "p_consumed p < p_len p"
  shows "\<exists>v. read_u64_be (sr_l1 sr) (unat (w_l1_idx (ws_geometry st) p) * 8) = Some v"
proof -
  have "geo_ok (ws_geometry st)" using assms(1) by (auto simp: staging_ok_def ws_inv_def)
  note i = w_l1_idx_unat(2)[OF assms(2,3) this]
  then have "unat (w_l1_idx (ws_geometry st) p) * 8 + 8 \<le> length (sr_l1 sr)" using assms(1) by (auto simp: staging_ok_def)
  then show ?thesis by simp
qed

lemma w_l2_idx_less:
  assumes g: "geo_ok (ws_geometry st)"
  shows "unat (w_l2_idx (ws_geometry st) p) * 8 + 8 \<le> unat (g_cluster_size (ws_geometry st))"
proof -
  have "unat (w_l2_idx (ws_geometry st) p) < unat (g_entries_per_l2 (ws_geometry st))"
    using geo_ok_nz(2)[OF g] by (simp add: w_l2_idx_def unat_mod unat_gt_0)
  then show ?thesis using geo_ok_cs(5)[OF g] by linarith
qed

lemma slot_window:
  assumes "staging_ok st sr" "i < c_l2_slots (ws_config st)"
  shows "i * unat (g_cluster_size (ws_geometry st)) + unat (g_cluster_size (ws_geometry st)) \<le> length (sr_l2_window sr)"
proof -
  have "Suc i * unat (g_cluster_size (ws_geometry st)) \<le> c_l2_slots (ws_config st) * unat (g_cluster_size (ws_geometry st))"
    using assms(2) by (intro mult_le_mono1) simp
  then show ?thesis using assms(1) by (auto simp: staging_ok_def)
qed

lemma read_l2_ok:
  assumes "staging_ok st sr" "prog_ok st p"
  shows "\<exists>v. read_staged_l2_entry st sr (p_slot p) (w_l2_idx (ws_geometry st) p) = Some v"
proof -
  have g: "geo_ok (ws_geometry st)" and w: "ws_inv st" using assms(1) by (auto simp: staging_ok_def ws_inv_def)
  have s: "unat (p_slot p) < c_l2_slots (ws_config st)" using assms(2) by (simp add: prog_ok_def)
  then have "unat (p_slot p) div 64 < length (ws_slot_pending_zero st)"
    using w by (simp add: ws_inv_def MAX_L2_SLOTS_def div_less_iff_less_mult)
  moreover have "unat (p_slot p) * unat (g_cluster_size (ws_geometry st)) + unat (w_l2_idx (ws_geometry st) p) * 8 + 8 \<le> length (sr_l2_window sr)"
    using slot_window[OF assms(1) s] w_l2_idx_less[OF g, of p] by linarith
  ultimately show ?thesis by (auto simp: read_staged_l2_entry_def pending_zero_get_def split: bool.splits)
qed

lemma in_off_win_len:
  assumes "geo_ok g" "p_consumed p < p_len p"
  shows "unat (w_in_off g p) + unat (w_win_len g p) \<le> unat (g_cluster_size g)"
    "unat (w_in_off g p + w_win_len g p) = unat (w_in_off g p) + unat (w_win_len g p)"
proof -
  note b = win_len_bounds[OF assms(2) geo_ok_nz(1)[OF assms(1)]]
  have "unat (g_cluster_size g - w_in_off g p) = unat (g_cluster_size g) - unat (w_in_off g p)"
    using b(3) by (simp add: unat_sub less_imp_le)
  then show le: "unat (w_in_off g p) + unat (w_win_len g p) \<le> unat (g_cluster_size g)"
    using b(3,4) by (simp add: word_le_nat_alt word_less_nat_alt)
  then have "unat (w_in_off g p) + unat (w_win_len g p) < 2 ^ 64" using unat_u64_less[of "g_cluster_size g"] by linarith
  then show "unat (w_in_off g p + w_win_len g p) = unat (w_in_off g p) + unat (w_win_len g p)" by (simp add: unat_add_small)
qed


section \<open>Every stage keeps the invariant\<close>

definition ctx_inv :: "step list \<Rightarrow> drive_ctx \<Rightarrow> bool" where
  "ctx_inv H c \<longleftrightarrow> sb_ok (d_steps c) \<and> write_inv (d_state c) (d_staged c) (d_prog c) (H @ sb_steps (d_steps c))"

abbreviation keeps :: "step list \<Rightarrow> drive_ctx drive_res \<Rightarrow> bool" where
  "keeps H \<equiv> wp (ctx_inv H) (\<lambda>_. ctx_inv H)"

lemma prog_ok_upd [simp]:
  "prog_ok st (p\<lparr>p_stage := x\<rparr>) = prog_ok st p" "prog_ok st (p\<lparr>p_l2_host := h\<rparr>) = prog_ok st p"
  "prog_ok st (p\<lparr>p_data_host := h\<rparr>) = prog_ok st p" "prog_ok st (p\<lparr>p_cow_src := h\<rparr>) = prog_ok st p"
  "prog_ok st (p\<lparr>p_cow_zero_preimage := z\<rparr>) = prog_ok st p"
  by (simp_all add: prog_ok_def)

lemma w_upd [simp]:
  "w_cur (p\<lparr>p_stage := x\<rparr>) = w_cur p" "w_cur (p\<lparr>p_l2_host := h\<rparr>) = w_cur p" "w_cur (p\<lparr>p_data_host := h\<rparr>) = w_cur p"
  "w_cur (p\<lparr>p_cow_src := h\<rparr>) = w_cur p" "w_cur (p\<lparr>p_cow_zero_preimage := z\<rparr>) = w_cur p" "w_cur (p\<lparr>p_slot := sl\<rparr>) = w_cur p"
  by (simp_all add: w_cur_def)

lemma w_win_len_upd [simp]:
  "w_win_len g (p\<lparr>p_stage := x\<rparr>) = w_win_len g p" "w_win_len g (p\<lparr>p_l2_host := h\<rparr>) = w_win_len g p"
  "w_win_len g (p\<lparr>p_data_host := h\<rparr>) = w_win_len g p" "w_win_len g (p\<lparr>p_cow_src := h\<rparr>) = w_win_len g p"
  "w_win_len g (p\<lparr>p_cow_zero_preimage := z\<rparr>) = w_win_len g p" "w_win_len g (p\<lparr>p_slot := sl\<rparr>) = w_win_len g p"
  "w_in_off g (p\<lparr>p_stage := x\<rparr>) = w_in_off g p" "w_in_off g (p\<lparr>p_l2_host := h\<rparr>) = w_in_off g p"
  "w_in_off g (p\<lparr>p_data_host := h\<rparr>) = w_in_off g p" "w_in_off g (p\<lparr>p_cow_src := h\<rparr>) = w_in_off g p"
  "w_in_off g (p\<lparr>p_cow_zero_preimage := z\<rparr>) = w_in_off g p" "w_in_off g (p\<lparr>p_slot := sl\<rparr>) = w_in_off g p"
  by (simp_all add: w_win_len_def w_in_off_def)

lemma same_base_bump [simp]: "same_base st (bump s st)"
  by (simp add: same_base_def)

lemma same_base_trans: "same_base a b \<Longrightarrow> same_base b c \<Longrightarrow> same_base a c"
  by (simp add: same_base_def)

lemma write_inv_emit:
  assumes "write_inv st sr p T" "same_base st st'" "slots_own st' sr" "safe_step st sr s"
    "step_ordered (unat (g_cluster_size (ws_geometry st))) T s" "prog_ok st p'" "hosts_own st sr p'"
    "stage_cov (ws_geometry st) p' (T @ [s])"
  shows "write_inv st' sr p' (T @ [s])"
proof -
  have "ws_geometry st' = ws_geometry st" using assms(2) by (simp add: same_base_def)
  then show ?thesis using assms unfolding write_inv_def by (simp add: same_base_simps[OF assms(2)] ordered_snoc)
qed

lemma write_inv_same:
  assumes "write_inv st sr p T" "same_base st st'" "slots_own st' sr" "prog_ok st p'" "hosts_own st sr p'"
    "stage_cov (ws_geometry st) p' T"
  shows "write_inv st' sr p' T"
proof -
  have "ws_geometry st' = ws_geometry st" using assms(2) by (simp add: same_base_def)
  then show ?thesis using assms unfolding write_inv_def by (simp add: same_base_simps[OF assms(2)])
qed

lemma write_inv_rc:
  assumes "write_inv st sr p T" "rc_frame st sr st' sr'" "rc_le st sr sr'" "staging_ok st' sr'" "prog_ok st p'"
    "hosts_own st' sr' p'" "stage_cov (ws_geometry st) p' T"
  shows "write_inv st' sr' p' T"
proof -
  have "prog_ok st' p' = prog_ok st p'" using rc_frame_simps[OF assms(2)] by (simp add: prog_ok_def)
  then show ?thesis using assms slots_own_mono[OF assms(2,3)] safe_step_mono[OF assms(2,3)] rc_frame_simps[OF assms(2)]
    unfolding write_inv_def by auto
qed

lemma keeps_emit:
  assumes inv: "ctx_inv H c"
    and s: "safe_step (d_state c) (d_staged c) s"
      "step_ordered (unat (g_cluster_size (ctx_geo c))) (H @ sb_steps (d_steps c)) s"
    and stop: "ctx_inv H c'" and cc: "c' = c\<lparr>d_prog := p\<rparr>"
    and k: "\<And>b. sb_ok b \<Longrightarrow> sb_steps b = sb_steps (d_steps c) @ [s] \<Longrightarrow>
       keeps H (k (c'\<lparr>d_state := bump s (d_state c), d_steps := b\<rparr>))"
  shows "keeps H (emit s c' k)"
proof -
  have "sb_ok (d_steps c)" using inv by (simp add: ctx_inv_def)
  then show ?thesis using stop k sb_push_Some[of "d_steps c" s]
    by (auto simp: wp_emit cc split: option.splits)
qed

lemma own_bounds:
  assumes ok: "staging_ok st sr" and o: "own st sr h"
  shows "unat h + unat (g_cluster_size (ws_geometry st)) < 2 ^ 54" "unat h mod unat (g_cluster_size (ws_geometry st)) = 0"
proof -
  let ?cs = "unat (g_cluster_size (ws_geometry st))"
  have g: "geo_ok (ws_geometry st)" using ok by (auto simp: staging_ok_def ws_inv_def)
  show m: "unat h mod ?cs = 0" using o by (simp add: own_def)
  then have "unat h = cidx st h * ?cs" by (metis cidx_def div_mult_mod_eq add.right_neutral)
  also have "\<dots> \<le> covered st sr * ?cs" using o by (intro mult_le_mono1) (simp add: own_def)
  finally have "unat h < 2 ^ 53" using staging_blocks(2)[OF ok] by linarith
  then show "unat h + ?cs < 2 ^ 54" using geo_ok_cs(3)[OF g] by simp
qed

lemma own_range:
  assumes ok: "staging_ok st sr" and o: "own st sr h" and off: "unat a + unat n \<le> unat (g_cluster_size (ws_geometry st))" "0 < unat n"
  shows "unat (h + a) = unat h + unat a" "cidx st (h + a) = cidx st h"
    "unat (h + a) mod unat (g_cluster_size (ws_geometry st)) = unat a"
proof -
  let ?cs = "unat (g_cluster_size (ws_geometry st))"
  note b = own_bounds[OF ok o]
  show u: "unat (h + a) = unat h + unat a" using b(1) off by (intro unat_add_small) simp
  have a: "unat a < ?cs" using off by linarith
  have d: "?cs dvd unat h" using o by (simp add: own_def)
  show "cidx st (h + a) = cidx st h" "unat (h + a) mod ?cs = unat a"
    using a d unfolding cidx_def u by (auto elim!: dvdE)
qed


lemma safe_disk:
  assumes "staging_ok st sr" "own st sr h" "unat a + unat n \<le> unat (g_cluster_size (ws_geometry st))" "0 < unat n"
    "s_kind s \<in> {WriteRange, ZeroRange, FillRange, WritebackCluster}" "s_device s = c_device (ws_config st)"
    "s_kind s = WriteRange \<longrightarrow> s_region s \<in> {RBounce, RCallerData}" "s_disk_offset s = h + a" "s_len s = n"
  shows "safe_step st sr s"
  using assms own_range[OF assms(1-4)] by (auto simp: safe_step_def own_def)

lemma safe_staged:
  "\<not> disk_write s \<Longrightarrow> (\<forall>b. s_kind s \<noteq> Barrier b) \<Longrightarrow> s_device s = c_device (ws_config st) \<Longrightarrow> safe_step st sr s"
  by (auto simp: safe_step_def disk_write_def)

lemma no_patch_ordered: "s_kind s \<noteq> PatchEntryU64 \<Longrightarrow> step_ordered cs T s"
  by (simp add: step_ordered_def l1_patch_def l2_patch_def)

lemma body_step_simps [simp]:
  "s_kind (body_step d n off len dev) = (case d of CallerData _ \<Rightarrow> WriteRange | Fill _ \<Rightarrow> FillRange)"
  "s_device (body_step d n off len dev) = dev" "s_disk_offset (body_step d n off len dev) = off"
  "s_len (body_step d n off len dev) = len"
  "s_region (body_step d n off len dev) = (case d of CallerData _ \<Rightarrow> RCallerData | Fill _ \<Rightarrow> RBounce)"
  by (simp_all add: body_step_def split: data_source.splits)

lemma disk_write_body [simp]: "disk_write (body_step d n off len dev)"
  by (simp add: disk_write_def split: data_source.splits)

lemma ctx_invD:
  assumes "ctx_inv H c"
  shows "staging_ok (d_state c) (d_staged c)" "prog_ok (d_state c) (d_prog c)" "slots_own (d_state c) (d_staged c)"
    "hosts_own (d_state c) (d_staged c) (d_prog c)" "stage_cov (ctx_geo c) (d_prog c) (H @ sb_steps (d_steps c))"
    "geo_ok (ctx_geo c)" "ws_inv (d_state c)" "write_inv (d_state c) (d_staged c) (d_prog c) (H @ sb_steps (d_steps c))"
    "sb_ok (d_steps c)"
  using assms by (auto simp: ctx_inv_def write_inv_def staging_ok_def ws_inv_def)

text \<open>The two shapes of a stage: emit one step and move on, or move on silently.\<close>

lemma keeps_emit_stage:
  assumes inv: "ctx_inv H c" and s: "safe_step (d_state c) (d_staged c) s"
      "step_ordered (unat (ctx_cs c)) (H @ sb_steps (d_steps c)) s"
    and h: "hosts_own (d_state c) (d_staged c) ((d_prog c)\<lparr>p_stage := x\<rparr>)"
    and cov: "stage_cov (ctx_geo c) ((d_prog c)\<lparr>p_stage := x\<rparr>) ((H @ sb_steps (d_steps c)) @ [s])"
  shows "keeps H (emit s c (\<lambda>c1. Next (set_stage x c1)))"
proof (rule keeps_emit[where p = "d_prog c", OF inv s inv])
  fix b assume b: "sb_ok b" "sb_steps b = sb_steps (d_steps c) @ [s]"
  note I = ctx_invD[OF inv]
  have "write_inv (bump s (d_state c)) (d_staged c) ((d_prog c)\<lparr>p_stage := x\<rparr>) ((H @ sb_steps (d_steps c)) @ [s])"
    by (rule write_inv_emit[OF I(8)]) (use I s h cov in \<open>simp_all add: slots_own_cong[of "bump s (d_state c)" "d_state c"]\<close>)
  then show "keeps H (Next (set_stage x (c\<lparr>d_state := bump s (d_state c), d_steps := b\<rparr>)))"
    using b by (simp add: ctx_inv_def set_stage_def)
qed simp

lemma keeps_stage:
  assumes inv: "ctx_inv H c" and h: "hosts_own (d_state c) (d_staged c) ((d_prog c)\<lparr>p_stage := x\<rparr>)"
    and cov: "stage_cov (ctx_geo c) ((d_prog c)\<lparr>p_stage := x\<rparr>) (H @ sb_steps (d_steps c))"
  shows "ctx_inv H (set_stage x c)"
  using inv write_inv_same[OF ctx_invD(8)[OF inv], of "d_state c" "(d_prog c)\<lparr>p_stage := x\<rparr>"] ctx_invD[OF inv] h cov
  by (simp add: ctx_inv_def set_stage_def same_base_def)

lemma keeps_data_alloc:
  assumes inv: "ctx_inv H c" and st: "p_stage (d_prog c) = DataAlloc" and run: "p_consumed (d_prog c) < p_len (d_prog c)"
  shows "keeps H (dw_data_alloc c)"
proof -
  note I = ctx_invD[OF inv]
  let ?p = "d_prog c" and ?g = "ctx_geo c"
  have o: "own (d_state c) (d_staged c) (p_data_host ?p)" using I(4) st by (simp add: hosts_own_def)
  have h: "hosts_own (d_state c) (d_staged c) (?p\<lparr>p_stage := HeadDone\<rparr>)" using o by (simp add: hosts_own_def)
  note io = in_off_win_len[OF I(6) run]
  show ?thesis
  proof (cases "0 < w_in_off ?g ?p")
    case True
    let ?s = "zero_range_step (p_data_host ?p) (w_in_off ?g ?p) (ctx_dev c)"
    have "safe_step (d_state c) (d_staged c) ?s"
      by (rule safe_disk[OF I(1) o, of 0 "w_in_off ?g ?p"]) (use io True in \<open>simp_all add: zero_range_step_def word_less_nat_alt\<close>)
    moreover have "written ((H @ sb_steps (d_steps c)) @ [?s]) (p_data_host ?p) 0 (unat (w_in_off ?g ?p))"
      by (rule written_step[of ?s]) (simp_all add: zero_range_step_def disk_write_def)
    ultimately show ?thesis using True h keeps_emit_stage[OF inv, of ?s HeadDone]
      by (simp add: dw_data_alloc_def Let_def no_patch_ordered zero_range_step_def stage_cov_def)
  next
    case False
    then have "w_in_off ?g ?p = 0" by (simp add: word_gt_0)
    then show ?thesis using keeps_stage[OF inv h] by (simp add: dw_data_alloc_def Let_def stage_cov_def)
  qed
qed

text \<open>The body write into the cluster at \<open>p_data_host\<close>.\<close>

lemma body_facts:
  assumes inv: "ctx_inv H c" and o: "own (d_state c) (d_staged c) h" and run: "p_consumed (d_prog c) < p_len (d_prog c)"
  defines "s \<equiv> body_step (p_data (d_prog c)) (p_consumed (d_prog c)) (h + w_in_off (ctx_geo c) (d_prog c)) (w_win_len (ctx_geo c) (d_prog c)) (ctx_dev c)"
  shows "safe_step (d_state c) (d_staged c) s" "step_ordered cs T s"
    "written (T @ [s]) h (unat (w_in_off (ctx_geo c) (d_prog c))) (unat (w_in_off (ctx_geo c) (d_prog c)) + unat (w_win_len (ctx_geo c) (d_prog c)))"
proof -
  note I = ctx_invD[OF inv]
  note io = in_off_win_len[OF I(6) run] and wl = win_len_bounds(1)[OF run geo_ok_nz(1)[OF I(6)]]
  have n: "0 < unat (w_win_len (ctx_geo c) (d_prog c))" using wl by (simp add: word_less_nat_alt)
  show "safe_step (d_state c) (d_staged c) s"
    by (rule safe_disk[OF I(1) o io(1) n]) (simp_all add: s_def split: data_source.splits)
  show "step_ordered cs T s" by (rule no_patch_ordered) (simp add: s_def split: data_source.splits)
  show "written (T @ [s]) h (unat (w_in_off (ctx_geo c) (d_prog c))) (unat (w_in_off (ctx_geo c) (d_prog c)) + unat (w_win_len (ctx_geo c) (d_prog c)))"
    by (rule written_step[of s]) (use own_range(1)[OF I(1) o io(1) n] in \<open>simp_all add: s_def\<close>)
qed

lemma keeps_head_done:
  assumes inv: "ctx_inv H c" and st: "p_stage (d_prog c) = HeadDone" and run: "p_consumed (d_prog c) < p_len (d_prog c)"
  shows "keeps H (dw_head_done c)"
proof -
  note I = ctx_invD[OF inv]
  have o: "own (d_state c) (d_staged c) (p_data_host (d_prog c))" using I(4) st by (simp add: hosts_own_def)
  note b = body_facts[OF inv o run]
  let ?s = "body_step (p_data (d_prog c)) (p_consumed (d_prog c)) (p_data_host (d_prog c) + w_in_off (ctx_geo c) (d_prog c)) (w_win_len (ctx_geo c) (d_prog c)) (ctx_dev c)"
  have "written (H @ sb_steps (d_steps c)) (p_data_host (d_prog c)) 0 (unat (w_in_off (ctx_geo c) (d_prog c)))"
    using I(5) st by (simp add: stage_cov_def)
  then have "written ((H @ sb_steps (d_steps c)) @ [?s]) (p_data_host (d_prog c)) 0 (unat (w_in_off (ctx_geo c) (d_prog c)) + unat (w_win_len (ctx_geo c) (d_prog c)))"
    by (rule written_join[OF written_mono b(3)]) auto
  then show ?thesis using keeps_emit_stage[OF inv b(1,2), of BodyDone] o
    by (simp add: dw_head_done_def emit_body_def Let_def stage_cov_def hosts_own_def)
qed

lemma keeps_body_done:
  assumes inv: "ctx_inv H c" and st: "p_stage (d_prog c) = BodyDone" and run: "p_consumed (d_prog c) < p_len (d_prog c)"
  shows "keeps H (dw_body_done c)"
proof -
  note I = ctx_invD[OF inv]
  let ?p = "d_prog c" and ?g = "ctx_geo c"
  let ?t = "w_in_off ?g ?p + w_win_len ?g ?p"
  have o: "own (d_state c) (d_staged c) (p_data_host ?p)" using I(4) st by (simp add: hosts_own_def)
  have h: "hosts_own (d_state c) (d_staged c) (?p\<lparr>p_stage := TailDone\<rparr>)" using o by (simp add: hosts_own_def)
  note io = in_off_win_len[OF I(6) run]
  have w: "written (H @ sb_steps (d_steps c)) (p_data_host ?p) 0 (unat ?t)" using I(5) st io by (simp add: stage_cov_def)
  show ?thesis
  proof (cases "?t < ctx_cs c")
    case True
    let ?s = "zero_range_step (p_data_host ?p + ?t) (ctx_cs c - ?t) (ctx_dev c)"
    have d: "unat (ctx_cs c - ?t) = unat (ctx_cs c) - unat ?t" using True by (simp add: unat_sub less_imp_le)
    have l: "unat ?t + unat (ctx_cs c - ?t) \<le> unat (ctx_cs c)" "0 < unat (ctx_cs c - ?t)"
      using True d by (simp_all add: word_less_nat_alt)
    have ss: "safe_step (d_state c) (d_staged c) ?s"
      by (rule safe_disk[OF I(1) o l]) (simp_all add: zero_range_step_def)
    have w2: "written ((H @ sb_steps (d_steps c)) @ [?s]) (p_data_host ?p) (unat ?t) (unat (ctx_cs c))"
      by (rule written_step[of ?s]) (use d own_range(1)[OF I(1) o l] in \<open>simp_all add: zero_range_step_def disk_write_def\<close>)
    have w1: "written ((H @ sb_steps (d_steps c)) @ [?s]) (p_data_host ?p) 0 (unat ?t)" by (rule written_mono[OF w]) auto
    have cov: "stage_cov ?g (?p\<lparr>p_stage := TailDone\<rparr>) ((H @ sb_steps (d_steps c)) @ [?s])"
      using written_join[OF w1 w2] by (simp add: stage_cov_def)
    have "step_ordered (unat (ctx_cs c)) (H @ sb_steps (d_steps c)) ?s" by (rule no_patch_ordered) (simp add: zero_range_step_def)
    from keeps_emit_stage[OF inv ss this h cov] True show ?thesis by (simp only: dw_body_done_def Let_def if_True)
  next
    case False
    then have "unat ?t = unat (ctx_cs c)" using io by (simp add: word_less_nat_alt)
    then show ?thesis using False keeps_stage[OF inv h] w by (simp add: dw_body_done_def Let_def stage_cov_def)
  qed
qed


lemma geo_ok_512:
  assumes "geo_ok g" shows "512 dvd unat (g_cluster_size g)"
proof -
  have "9 \<le> unat (g_cluster_bits g)" and cs: "unat (g_cluster_size g) = 2 ^ unat (g_cluster_bits g)"
    using assms by (simp_all add: geo_ok_def)
  then have "(2 :: nat) ^ 9 dvd 2 ^ unat (g_cluster_bits g)" by (intro le_imp_power_dvd)
  then show ?thesis unfolding cs by simp
qed

lemma copied_host:
  assumes ok: "staging_ok st sr" and o: "own st sr h"
  shows "(h OR OFLAG_COPIED) AND L2_OFFSET_MASK = h"
proof -
  have g: "geo_ok (ws_geometry st)" using ok by (auto simp: staging_ok_def ws_inv_def)
  have lt: "unat h < 2 ^ 54" using own_bounds(1)[OF ok o] by linarith
  have "512 dvd unat (g_cluster_size (ws_geometry st))"
by (rule geo_ok_512[OF g])
  then have d: "512 dvd unat h" using o by (auto simp: own_def intro: dvd_trans)
  have "h = take_bit 54 h" using lt by (simp add: word_unat_eq_iff unsigned_take_bit_eq take_bit_nat_eq_self)
  then have hi: "bit h i \<Longrightarrow> i < 54" for i by (metis bit_take_bit_iff)
  have "take_bit 9 h = 0" using d by (simp add: word_unat_eq_iff unsigned_take_bit_eq take_bit_eq_mod dvd_eq_mod_eq_0 unat_mod)
  then have lo: "bit h i \<Longrightarrow> 9 \<le> i" for i by (metis bit_take_bit_iff bit_0_eq bot_apply bot_bool_def not_le)
  have mk: "L2_OFFSET_MASK = mask 56 AND NOT (mask 9)" by (simp add: L2_OFFSET_MASK_def mask_eq_exp_minus_1)
  have cp: "OFLAG_COPIED = push_bit 63 1" by (simp add: OFLAG_COPIED_def)
  show ?thesis
  proof (rule bit_eqI)
    fix n assume "possible_bit TYPE(u64) n"
    have "bit OFLAG_COPIED n \<longleftrightarrow> n = 63" unfolding cp
      by (auto simp: bit_push_bit_iff bit_1_iff possible_bit_def simp del: push_bit_of_1)
    then show "bit ((h OR OFLAG_COPIED) AND L2_OFFSET_MASK) n = bit h n"
      unfolding mk using hi[of n] lo[of n] by (auto simp: bit_and_iff bit_or_iff bit_not_iff bit_mask_iff)
  qed
qed

definition next_prog :: "geometry \<Rightarrow> write_progress \<Rightarrow> write_progress" where
  "next_prog g p = p\<lparr>p_consumed := p_consumed p + w_win_len g p, p_stage := Enter\<rparr>"

lemma next_cluster_eq: "next_cluster c = c\<lparr>d_prog := next_prog (ctx_geo c) (d_prog c)\<rparr>"
  by (simp add: next_cluster_def next_prog_def Let_def)

lemma next_prog_hosts [simp]: "hosts_own st sr (next_prog g p)" "stage_cov g' (next_prog g p) T"
  by (simp_all add: next_prog_def hosts_own_def stage_cov_def)

lemma next_prog_ok:
  assumes "geo_ok (ws_geometry st)" "prog_ok st p" "p_consumed p < p_len p"
  shows "prog_ok st (next_prog (ws_geometry st) p)"
  using assms consumed_next(2)[OF assms(3) geo_ok_nz(1)[OF assms(1)]]
  by (simp add: prog_ok_def next_prog_def)

lemma slot_in_range:
  assumes "ws_inv st" "prog_ok st p" shows "unat (p_slot p) < length (ws_l2_slots st)"
  using assms by (simp add: ws_inv_def prog_ok_def)

lemma keeps_l2_patch:
  assumes inv: "ctx_inv H c" and o: "own (d_state c) (d_staged c) (p_data_host (d_prog c))"
    and w: "written (H @ sb_steps (d_steps c)) (p_data_host (d_prog c)) 0 (unat (ctx_cs c))"
    and p': "prog_ok (d_state c) p'" "hosts_own (d_state c) (d_staged c) p'" "\<And>T. stage_cov (ctx_geo c) p' T"
    and k: "\<And>c1. ctx_geo c1 = ctx_geo c \<Longrightarrow> d_prog c1 = d_prog c \<Longrightarrow> k c1 = Next (c1\<lparr>d_prog := p'\<rparr>)"
  shows "keeps H (emit_l2_patch c k)"
proof -
  note I = ctx_invD[OF inv]
  let ?v = "unat (p_slot (d_prog c))"
  let ?s = "patch_step (RL2Slot (p_slot (d_prog c))) (w_l2_idx (ctx_geo c) (d_prog c) * 8) (p_data_host (d_prog c) OR OFLAG_COPIED) (ctx_dev c)"
  have v: "?v < length (ws_l2_slots (d_state c))" by (rule slot_in_range[OF I(7,2)])
  have ss: "safe_step (d_state c) (d_staged c) ?s" by (rule safe_staged) (simp_all add: patch_step_def disk_write_def)
  have so: "step_ordered (unat (ctx_cs c)) (H @ sb_steps (d_steps c)) ?s"
    using w copied_host[OF I(1) o] by (simp add: step_ordered_def l1_patch_def patch_step_def)
  show ?thesis unfolding emit_l2_patch_def Let_def
  proof (rule keeps_emit[where p = "d_prog c", OF inv ss so inv])
    fix b assume b: "sb_ok b" "sb_steps b = sb_steps (d_steps c) @ [?s]"
    let ?sl = "(ws_l2_slots (d_state c) ! ?v)\<lparr>l_dirty := True\<rparr>"
    let ?st = "(bump ?s (d_state c))\<lparr>ws_l2_slots := (ws_l2_slots (d_state c))[?v := ?sl]\<rparr>"
    have sb: "same_base (d_state c) ?st" by (simp add: same_base_def)
    have "slots_own ?st (d_staged c)"
      by (rule slots_own_upd[OF I(3) sb, of ?v ?sl])
        (use v I(3) I(2) in \<open>simp_all add: slots_own_def prog_ok_def\<close>)
    then have "write_inv ?st (d_staged c) p' ((H @ sb_steps (d_steps c)) @ [?s])"
      by (intro write_inv_emit[OF I(8) sb _ ss so p'])
    then show "keeps H (must (slot_at (d_state (c\<lparr>d_state := bump ?s (d_state c), d_steps := b\<rparr>)) ?v)
       (\<lambda>sl. must (put_slot (d_state (c\<lparr>d_state := bump ?s (d_state c), d_steps := b\<rparr>)) ?v (sl\<lparr>l_dirty := True\<rparr>))
         (\<lambda>st'. k (c\<lparr>d_state := bump ?s (d_state c), d_steps := b\<rparr>\<lparr>d_state := st'\<rparr>))))"
      using v b k by (simp add: wp_must slot_at_Some put_slot_Some ctx_inv_def)
  qed simp
qed

lemma keeps_tail_done:
  assumes inv: "ctx_inv H c" and st: "p_stage (d_prog c) = TailDone" and run: "p_consumed (d_prog c) < p_len (d_prog c)"
  shows "keeps H (dw_tail_done c)"
proof -
  note I = ctx_invD[OF inv]
  have o: "own (d_state c) (d_staged c) (p_data_host (d_prog c))" using I(4) st by (simp add: hosts_own_def)
  have w: "written (H @ sb_steps (d_steps c)) (p_data_host (d_prog c)) 0 (unat (ctx_cs c))" using I(5) st by (simp add: stage_cov_def)
  show ?thesis unfolding dw_tail_done_def
    by (rule keeps_l2_patch[OF inv o w, where p' = "next_prog (ctx_geo c) (d_prog c)"])
      (use next_prog_ok[OF I(6) I(2) run] in \<open>simp_all add: next_cluster_eq\<close>)
qed

lemma keeps_cow_data_patch:
  assumes inv: "ctx_inv H c" and st: "p_stage (d_prog c) = CowDataPatch"
  shows "keeps H (dw_cow_data_patch c)"
proof -
  note I = ctx_invD[OF inv]
  show ?thesis unfolding dw_cow_data_patch_def
    by (rule keeps_l2_patch[OF inv, where p' = "(d_prog c)\<lparr>p_stage := CowDataDecrement\<rparr>"])
      (use I st in \<open>simp_all add: hosts_own_def stage_cov_def set_stage_def\<close>)
qed

lemma keeps_cow_data_enter:
  assumes inv: "ctx_inv H c" and st: "p_stage (d_prog c) = CowDataEnter"
  shows "keeps H (dw_cow_data_enter c)"
proof -
  note I = ctx_invD[OF inv]
  let ?p = "d_prog c" and ?T = "H @ sb_steps (d_steps c)"
  have o: "own (d_state c) (d_staged c) (p_data_host ?p)" using I(4) st by (simp add: hosts_own_def)
  have h: "hosts_own (d_state c) (d_staged c) (?p\<lparr>p_stage := x\<rparr>)" if "x \<in> {CowDataBody, CowDataCopy}" for x
    using o that by (auto simp: hosts_own_def)
  show ?thesis
  proof (cases "w_in_off (ctx_geo c) ?p = 0 \<and> w_win_len (ctx_geo c) ?p = ctx_cs c")
    case True
    then have "stage_cov (ctx_geo c) (?p\<lparr>p_stage := CowDataBody\<rparr>) ?T" by (simp add: stage_cov_def)
    from keeps_stage[OF inv h this] True show ?thesis by (simp add: dw_cow_data_enter_def Let_def)
  next
    case nf: False
    show ?thesis
    proof (cases "p_cow_zero_preimage ?p")
      case True
      let ?s = "zero_range_step (p_data_host ?p) (ctx_cs c) (ctx_dev c)"
      have n: "0 < unat (ctx_cs c)" using geo_ok_nz(1)[OF I(6)] by (simp add: unat_gt_0)
      have ss: "safe_step (d_state c) (d_staged c) ?s"
        by (rule safe_disk[OF I(1) o, of 0 "ctx_cs c"]) (use n in \<open>simp_all add: zero_range_step_def\<close>)
      have so: "step_ordered (unat (ctx_cs c)) ?T ?s" by (rule no_patch_ordered) (simp add: zero_range_step_def)
      have "written (?T @ [?s]) (p_data_host ?p) 0 (unat (ctx_cs c))"
        by (rule written_step[of ?s]) (simp_all add: zero_range_step_def disk_write_def)
      then have cov: "stage_cov (ctx_geo c) (?p\<lparr>p_stage := CowDataBody\<rparr>) (?T @ [?s])" by (simp add: stage_cov_def)
      from keeps_emit_stage[OF inv ss so h cov] nf True show ?thesis
        by (simp only: dw_cow_data_enter_def Let_def if_True if_False) simp
    next
      case False
      let ?s = "read_cluster_to_bounce_step (p_cow_src ?p) (ctx_cs c) (ctx_dev c)"
      have ss: "safe_step (d_state c) (d_staged c) ?s"
        by (rule safe_staged) (simp_all add: read_cluster_to_bounce_step_def disk_write_def)
      have so: "step_ordered (unat (ctx_cs c)) ?T ?s" by (rule no_patch_ordered) (simp add: read_cluster_to_bounce_step_def)
      have cov: "stage_cov (ctx_geo c) (?p\<lparr>p_stage := CowDataCopy\<rparr>) (?T @ [?s])" by (simp add: stage_cov_def)
      from keeps_emit_stage[OF inv ss so h cov] nf False show ?thesis
        by (simp only: dw_cow_data_enter_def Let_def if_True if_False) simp
    qed
  qed
qed

lemma keeps_cow_data_copy:
  assumes inv: "ctx_inv H c" and st: "p_stage (d_prog c) = CowDataCopy"
  shows "keeps H (dw_cow_data_copy c)"
proof -
  note I = ctx_invD[OF inv]
  let ?p = "d_prog c" and ?T = "H @ sb_steps (d_steps c)"
  let ?s = "write_bounce_cluster_step (p_data_host ?p) (ctx_cs c) (ctx_dev c)"
  have o: "own (d_state c) (d_staged c) (p_data_host ?p)" using I(4) st by (simp add: hosts_own_def)
  have n: "0 < unat (ctx_cs c)" using geo_ok_nz(1)[OF I(6)] by (simp add: unat_gt_0)
  have ss: "safe_step (d_state c) (d_staged c) ?s"
    by (rule safe_disk[OF I(1) o, of 0 "ctx_cs c"]) (use n in \<open>simp_all add: write_bounce_cluster_step_def\<close>)
  have so: "step_ordered (unat (ctx_cs c)) ?T ?s" by (rule no_patch_ordered) (simp add: write_bounce_cluster_step_def)
  have "written (?T @ [?s]) (p_data_host ?p) 0 (unat (ctx_cs c))"
    by (rule written_step[of ?s]) (simp_all add: write_bounce_cluster_step_def disk_write_def)
  then have cov: "stage_cov (ctx_geo c) (?p\<lparr>p_stage := CowDataBody\<rparr>) (?T @ [?s])" by (simp add: stage_cov_def)
  have h: "hosts_own (d_state c) (d_staged c) (?p\<lparr>p_stage := CowDataBody\<rparr>)" using o by (simp add: hosts_own_def)
  from keeps_emit_stage[OF inv ss so h cov] show ?thesis by (simp only: dw_cow_data_copy_def)
qed

lemma keeps_cow_data_body:
  assumes inv: "ctx_inv H c" and st: "p_stage (d_prog c) = CowDataBody" and run: "p_consumed (d_prog c) < p_len (d_prog c)"
  shows "keeps H (dw_cow_data_body c)"
proof -
  note I = ctx_invD[OF inv]
  let ?p = "d_prog c" and ?T = "H @ sb_steps (d_steps c)"
  have o: "own (d_state c) (d_staged c) (p_data_host ?p)" using I(4) st by (simp add: hosts_own_def)
  note b = body_facts[OF inv o run]
  let ?s = "body_step (p_data ?p) (p_consumed ?p) (p_data_host ?p + w_in_off (ctx_geo c) ?p) (w_win_len (ctx_geo c) ?p) (ctx_dev c)"
  have "written ?T (p_data_host ?p) 0 (unat (ctx_cs c)) \<or> (w_in_off (ctx_geo c) ?p = 0 \<and> w_win_len (ctx_geo c) ?p = ctx_cs c)"
    using I(5) st by (simp add: stage_cov_def)
  then have "written (?T @ [?s]) (p_data_host ?p) 0 (unat (ctx_cs c))"
  proof
    assume w: "written ?T (p_data_host ?p) 0 (unat (ctx_cs c))"
    show ?thesis by (rule written_mono[OF w]) auto
  next
    assume "w_in_off (ctx_geo c) ?p = 0 \<and> w_win_len (ctx_geo c) ?p = ctx_cs c"
    then show ?thesis using b(3)[of ?T] by simp
  qed
  then have cov: "stage_cov (ctx_geo c) (?p\<lparr>p_stage := CowDataPatch\<rparr>) (?T @ [?s])" by (simp add: stage_cov_def)
  have h: "hosts_own (d_state c) (d_staged c) (?p\<lparr>p_stage := CowDataPatch\<rparr>)" using o by (simp add: hosts_own_def)
  from keeps_emit_stage[OF inv b(1,2) h cov] show ?thesis by (simp only: dw_cow_data_body_def emit_body_def Let_def)
qed


lemma keeps_cow_data_decrement:
  assumes inv: "ctx_inv H c" and run: "p_consumed (d_prog c) < p_len (d_prog c)"
  shows "keeps H (dw_cow_data_decrement c)"
  unfolding dw_cow_data_decrement_def
proof (rule wp_dec_in)
  note I = ctx_invD[OF inv]
  show "staging_ok (d_state c) (d_staged c)" by (rule I(1))
  fix st' sr' assume fr: "rc_frame (d_state c) (d_staged c) st' sr'" "rc_le (d_state c) (d_staged c) sr'" "staging_ok st' sr'"
  have "write_inv st' sr' (next_prog (ctx_geo c) (d_prog c)) (H @ sb_steps (d_steps c))"
    by (rule write_inv_rc[OF I(8) fr]) (use next_prog_ok[OF I(6) I(2) run] in simp_all)
  then show "keeps H (Next (next_cluster (c\<lparr>d_state := st', d_staged := sr'\<rparr>)))"
    using I(9) rc_frame_simps(1)[OF fr(1)] by (simp add: ctx_inv_def next_cluster_eq)
qed (use inv in simp_all)

lemma keeps_cow_l2_decrement:
  assumes inv: "ctx_inv H c"
  shows "keeps H (dw_cow_l2_decrement c)"
  unfolding dw_cow_l2_decrement_def
proof (rule wp_dec_in)
  note I = ctx_invD[OF inv]
  show "staging_ok (d_state c) (d_staged c)" by (rule I(1))
  fix st' sr' assume fr: "rc_frame (d_state c) (d_staged c) st' sr'" "rc_le (d_state c) (d_staged c) sr'" "staging_ok st' sr'"
  have "write_inv st' sr' ((d_prog c)\<lparr>p_stage := Enter\<rparr>) (H @ sb_steps (d_steps c))"
    by (rule write_inv_rc[OF I(8) fr]) (use I in \<open>simp_all add: hosts_own_def stage_cov_def\<close>)
  then show "keeps H (Stop BufFull (set_stage Enter (c\<lparr>d_state := st', d_staged := sr'\<rparr>)))"
    using I(9) by (simp add: ctx_inv_def set_stage_def)
qed (use inv in simp_all)

text \<open>Emit a step and assign the window slot to the owned table at \<open>host\<close>.\<close>

lemma keeps_assign:
  assumes inv: "ctx_inv H c" and s: "\<not> disk_write s" "\<forall>b. s_kind s \<noteq> Barrier b" "s_device s = ctx_dev c" "s_kind s \<noteq> PatchEntryU64"
    and o: "own (d_state c) (d_staged c) host"
    and p': "hosts_own (d_state c) (d_staged c) ((d_prog c)\<lparr>p_stage := x\<rparr>)"
      "stage_cov (ctx_geo c) ((d_prog c)\<lparr>p_stage := x\<rparr>) ((H @ sb_steps (d_steps c)) @ [s])"
    and k: "\<And>c1 st'. d_prog c1 = d_prog c \<Longrightarrow> length (ws_slot_pending_zero st') = length (ws_slot_pending_zero (d_state c)) \<Longrightarrow>
        (\<And>st''. same_base st' st'' \<Longrightarrow> ws_l2_slots st'' = ws_l2_slots st' \<Longrightarrow> ctx_inv H (set_stage x (c1\<lparr>d_state := st''\<rparr>))) \<Longrightarrow>
        keeps H (k c1 st')"
  shows "keeps H (emit s c (\<lambda>c1. assign_slot c1 d host (k c1)))"
proof -
  note I = ctx_invD[OF inv]
  let ?v = "unat (p_slot (d_prog c))"
  have v: "?v < length (ws_l2_slots (d_state c))" by (rule slot_in_range[OF I(7,2)])
  have ss: "safe_step (d_state c) (d_staged c) s" by (rule safe_staged[OF s(1-3)])
  have so: "step_ordered (unat (ctx_cs c)) (H @ sb_steps (d_steps c)) s" by (rule no_patch_ordered[OF s(4)])
  show ?thesis
  proof (rule keeps_emit[where p = "d_prog c", OF inv ss so inv])
    fix b assume b: "sb_ok b" "sb_steps b = sb_steps (d_steps c) @ [s]"
    let ?c1 = "c\<lparr>d_state := bump s (d_state c), d_steps := b\<rparr>"
    let ?sl = "\<lparr>l_valid = True, l_dirty = d, l_l1_idx = w_l1_idx (ctx_geo ?c1) (d_prog ?c1), l_host_offset = host,
         l_last_access = l_last_access (ws_l2_slots (d_state ?c1) ! ?v)\<rparr>"
    let ?st = "(bump s (d_state c))\<lparr>ws_l2_slots := (ws_l2_slots (d_state c))[?v := ?sl]\<rparr>"
    have sb: "same_base (d_state c) ?st" by (simp add: same_base_def)
    have so': "slots_own ?st (d_staged c)" by (rule slots_own_upd[OF I(3) sb, of ?v ?sl]) (use v o in simp_all)
    have "ctx_inv H (set_stage x (?c1\<lparr>d_state := st''\<rparr>))" if st'': "same_base ?st st''" "ws_l2_slots st'' = ws_l2_slots ?st" for st''
    proof -
      have "write_inv st'' (d_staged c) ((d_prog c)\<lparr>p_stage := x\<rparr>) ((H @ sb_steps (d_steps c)) @ [s])"
        by (rule write_inv_emit[OF I(8) same_base_trans[OF sb st''(1)] _ ss so]) (use I p' so' slots_own_cong[OF st''(2,1)] in simp_all)
      then show ?thesis using b by (simp add: ctx_inv_def set_stage_def)
    qed
    then show "keeps H (assign_slot ?c1 d host (k ?c1))" using v by (simp add: wp_assign_slot) (rule k; simp)
  qed simp
qed

lemma keeps_cow_l2_load:
  assumes inv: "ctx_inv H c" and st: "p_stage (d_prog c) = CowL2Load"
  shows "keeps H (dw_cow_l2_load c)"
proof -
  note I = ctx_invD[OF inv]
  have o: "own (d_state c) (d_staged c) (p_l2_host (d_prog c))" using I(4) st by (simp add: hosts_own_def)
  show ?thesis unfolding dw_cow_l2_load_def
  proof (rule keeps_assign[OF inv, where x = CowL2Repoint])
    fix c1 st' assume "\<And>st''. same_base st' st'' \<Longrightarrow> ws_l2_slots st'' = ws_l2_slots st' \<Longrightarrow> ctx_inv H (set_stage CowL2Repoint (c1\<lparr>d_state := st''\<rparr>))"
    from this[of st'] show "keeps H (Next (set_stage CowL2Repoint (c1\<lparr>d_state := st'\<rparr>)))" by (simp add: same_base_def)
  qed (use o in \<open>simp_all add: load_step_def disk_write_def hosts_own_def stage_cov_def\<close>)
qed

lemma keeps_fresh_alloc:
  assumes inv: "ctx_inv H c" and st: "p_stage (d_prog c) = FreshAlloc"
  shows "keeps H (dw_fresh_alloc c)"
proof -
  note I = ctx_invD[OF inv]
  have o: "own (d_state c) (d_staged c) (p_l2_host (d_prog c))" using I(4) st by (simp add: hosts_own_def)
  have v: "unat (p_slot (d_prog c)) div 64 < length (ws_slot_pending_zero (d_state c))"
    using I(7,2) by (simp add: ws_inv_def prog_ok_def MAX_L2_SLOTS_def div_less_iff_less_mult)
  show ?thesis unfolding dw_fresh_alloc_def
  proof (rule keeps_assign[OF inv, where x = FreshZeroed])
    fix c1 st' assume l: "length (ws_slot_pending_zero st') = length (ws_slot_pending_zero (d_state c))"
      and k: "\<And>st''. same_base st' st'' \<Longrightarrow> ws_l2_slots st'' = ws_l2_slots st' \<Longrightarrow> ctx_inv H (set_stage FreshZeroed (c1\<lparr>d_state := st''\<rparr>))"
    obtain st'' where p: "pending_zero_set st' (unat (p_slot (d_prog c))) = Some st''" using v l by (auto simp: pending_zero_set_def Let_def)
    then have "same_base st' st''" "ws_l2_slots st'' = ws_l2_slots st'" by (auto simp: pending_zero_set_Some same_base_def)
    from k[OF this] p show "keeps H (must (pending_zero_set st' (unat (p_slot (d_prog c)))) (\<lambda>st''. Next (set_stage FreshZeroed (c1\<lparr>d_state := st''\<rparr>))))"
      by (simp add: must_def)
  qed (use o in \<open>simp_all add: zero_region_step_def disk_write_def hosts_own_def stage_cov_def\<close>)
qed

text \<open>The L1 patch that follows the initialisation of a table's slot.\<close>

lemma l1_patch_facts:
  assumes inv: "ctx_inv H c" and st: "p_stage (d_prog c) \<in> {FreshZeroed, CowL2Repoint}"
  shows "safe_step (d_state c) (d_staged c) (patch_step RL1 off v (ctx_dev c))"
    "step_ordered (unat (ctx_cs c)) (H @ sb_steps (d_steps c)) (patch_step RL1 off v (ctx_dev c))"
  using ctx_invD(5)[OF inv] st
  by (auto simp: patch_step_def step_ordered_def l2_patch_def stage_cov_def intro!: safe_staged simp: disk_write_def)

lemma keeps_cow_l2_repoint:
  assumes inv: "ctx_inv H c" and st: "p_stage (d_prog c) = CowL2Repoint"
  shows "keeps H (dw_cow_l2_repoint c)"
proof -
  have m: "p_stage (d_prog c) \<in> {FreshZeroed, CowL2Repoint}" using st by simp
  note I = ctx_invD[OF inv] and f = l1_patch_facts[OF inv m]
  have o: "own (d_state c) (d_staged c) (p_l2_host (d_prog c))" using I(4) st by (simp add: hosts_own_def)
  show ?thesis unfolding dw_cow_l2_repoint_def Let_def
  proof (rule keeps_emit[where p = "d_prog c", OF inv f inv])
    let ?s = "patch_step RL1 (ucast (w_l1_idx (ctx_geo c) (d_prog c)) * 8) (p_l2_host (d_prog c) OR OFLAG_COPIED) (ctx_dev c)"
    fix b assume b: "sb_ok b" "sb_steps b = sb_steps (d_steps c) @ [?s]"
    have sb: "same_base (d_state c) ((bump ?s (d_state c))\<lparr>ws_l1_dirty := True\<rparr>)" by (simp add: same_base_def)
    have "write_inv ((bump ?s (d_state c))\<lparr>ws_l1_dirty := True\<rparr>) (d_staged c) ((d_prog c)\<lparr>p_stage := CowL2Decrement\<rparr>) ((H @ sb_steps (d_steps c)) @ [?s])"
      by (rule write_inv_emit[OF I(8) sb _ f]) (use I o st in \<open>simp_all add: hosts_own_def stage_cov_def slots_own_cong[OF _ sb]\<close>)
    then show "keeps H (Next (set_stage CowL2Decrement ((c\<lparr>d_state := bump ?s (d_state c), d_steps := b\<rparr>)\<lparr>d_state :=
        (d_state (c\<lparr>d_state := bump ?s (d_state c), d_steps := b\<rparr>))\<lparr>ws_l1_dirty := True\<rparr>\<rparr>)))"
      using b by (simp add: ctx_inv_def set_stage_def)
  qed (use st in simp_all)
qed

lemma touch_ok:
  assumes "i < length (ws_l2_slots st)" "slots_own st sr"
  shows "\<exists>st'. touch st i = Some st' \<and> same_base st st' \<and> slots_own st' sr"
proof -
  obtain st' where t: "touch st i = Some st'" using assms(1) by (auto simp: touch_Some)
  let ?sl = "(ws_l2_slots st ! i)\<lparr>l_last_access := ws_access_counter st + 1\<rparr>"
  have sb: "same_base st st'" and sl: "ws_l2_slots st' = (ws_l2_slots st)[i := ?sl]" using t by (auto simp: touch_Some same_base_def)
  have "slots_own st' sr" using assms sb sl
    by (auto simp: slots_own_def same_base_simps[OF sb] nth_list_update) (auto simp: same_base_def)
  then show ?thesis using t sb by blast
qed

lemma keeps_fresh_zeroed:
  assumes inv: "ctx_inv H c" and st: "p_stage (d_prog c) = FreshZeroed"
  shows "keeps H (dw_fresh_zeroed c)"
proof -
  have m: "p_stage (d_prog c) \<in> {FreshZeroed, CowL2Repoint}" using st by simp
  note I = ctx_invD[OF inv] and f = l1_patch_facts[OF inv m]
  let ?v = "unat (p_slot (d_prog c))"
  show ?thesis unfolding dw_fresh_zeroed_def Let_def
  proof (rule keeps_emit[where p = "d_prog c", OF inv f inv])
    let ?s = "patch_step RL1 (ucast (w_l1_idx (ctx_geo c) (d_prog c)) * 8) (p_l2_host (d_prog c) OR OFLAG_COPIED) (ctx_dev c)"
    let ?st = "(bump ?s (d_state c))\<lparr>ws_l1_dirty := True\<rparr>"
    fix b assume b: "sb_ok b" "sb_steps b = sb_steps (d_steps c) @ [?s]"
    have sb: "same_base (d_state c) ?st" by (simp add: same_base_def)
    obtain st' where t: "touch ?st ?v = Some st'" "same_base ?st st'" "slots_own st' (d_staged c)"
      using touch_ok[of ?v ?st "d_staged c"] slot_in_range[OF I(7,2)] I(3) slots_own_cong[OF _ sb] by auto
    have "write_inv st' (d_staged c) ((d_prog c)\<lparr>p_stage := SlotReady\<rparr>) ((H @ sb_steps (d_steps c)) @ [?s])"
      by (rule write_inv_emit[OF I(8) same_base_trans[OF sb t(2)] t(3) f]) (use I st in \<open>simp_all add: hosts_own_def stage_cov_def\<close>)
    then show "keeps H (must (touch ((d_state (c\<lparr>d_state := bump ?s (d_state c), d_steps := b\<rparr>))\<lparr>ws_l1_dirty := True\<rparr>) ?v)
        (\<lambda>st'. Next (set_stage SlotReady ((c\<lparr>d_state := bump ?s (d_state c), d_steps := b\<rparr>)\<lparr>d_state := st'\<rparr>))))"
      using b t(1) by (simp add: must_def ctx_inv_def set_stage_def)
  qed (use st in simp_all)
qed


lemma keeps_enter:
  assumes inv: "ctx_inv H c" and st: "p_stage (d_prog c) = Enter"
  shows "keeps H (dw_enter c)"
proof -
  note I = ctx_invD[OF inv]
  let ?st = "d_state c" and ?p = "d_prog c" and ?T = "H @ sb_steps (d_steps c)"
  have n: "0 < c_l2_slots (ws_config ?st)" "c_l2_slots (ws_config ?st) \<le> 256" "length (ws_l2_slots ?st) = 256"
    using I(7) by (simp_all add: ws_inv_def MAX_L2_SLOTS_def)
  have u: "unat (of_nat i :: u16) = i" if "i < c_l2_slots (ws_config ?st)" for i
    using that n by (simp add: unat_of_nat take_bit_nat_eq_self)
  have po: "prog_ok ?st (?p\<lparr>p_slot := of_nat i\<rparr>)" if "i < c_l2_slots (ws_config ?st)" for i
    using I(2) that u by (simp add: prog_ok_def)
  have ho: "hosts_own ?st (d_staged c) (?p\<lparr>p_slot := i\<rparr>)" "stage_cov g (?p\<lparr>p_slot := i\<rparr>) T" for i g T
    using st by (simp_all add: hosts_own_def stage_cov_def)
  show ?thesis
  proof (cases "find_slot ?st (w_l1_idx (ctx_geo c) ?p)")
    case (Some hit)
    then have hit: "hit < c_l2_slots (ws_config ?st)" by (simp add: find_slot_def find_Some_upt)
    obtain st' where t: "touch ?st hit = Some st'" "same_base ?st st'" "slots_own st' (d_staged c)"
      using touch_ok[of hit ?st "d_staged c"] I(3) hit n by auto
    have "write_inv st' (d_staged c) (?p\<lparr>p_slot := of_nat hit, p_stage := SlotReady\<rparr>) ?T"
      by (rule write_inv_same[OF I(8) t(2,3)]) (use po[OF hit] in \<open>simp_all add: hosts_own_def stage_cov_def\<close>)
    then show ?thesis using Some t(1) I(9) by (simp add: dw_enter_def Let_def must_def ctx_inv_def)
  next
    case None
    let ?v = "pick_victim ?st"
    have v: "?v < c_l2_slots (ws_config ?st)" by (rule pick_victim_less[OF n(1)])
    then have vl: "?v < length (ws_l2_slots ?st)" using n by simp
    let ?sl = "ws_l2_slots ?st ! ?v" and ?c1 = "c\<lparr>d_prog := ?p\<lparr>p_slot := of_nat ?v\<rparr>\<rparr>"
    have inv1: "ctx_inv H ?c1"
      using write_inv_same[OF I(8), of ?st "?p\<lparr>p_slot := of_nat ?v\<rparr>"] I po[OF v] ho by (simp add: ctx_inv_def same_base_def)
    show ?thesis
    proof (cases "l_valid ?sl \<and> l_dirty ?sl")
      case True
      let ?s = "writeback_step (of_nat ?v) (l_host_offset ?sl) (ctx_cs c) (ctx_dev c)"
      have o: "own ?st (d_staged c) (l_host_offset ?sl)" using I(3) v True by (simp add: slots_own_def)
      have cs: "0 < unat (ctx_cs c)" using geo_ok_nz(1)[OF I(6)] by (simp add: unat_gt_0)
      have ss: "safe_step ?st (d_staged c) ?s"
        by (rule safe_disk[OF I(1) o, of 0 "ctx_cs c"]) (use cs in \<open>simp_all add: writeback_step_def\<close>)
      have so: "step_ordered (unat (ctx_cs c)) ?T ?s" by (rule no_patch_ordered) (simp add: writeback_step_def)
      have "keeps H (emit ?s ?c1 (\<lambda>c2. must (put_slot (d_state c2) ?v (?sl\<lparr>l_valid := False, l_dirty := False\<rparr>))
          (\<lambda>st'. Next (set_stage SlotFree (c2\<lparr>d_state := st'\<rparr>)))))"
      proof (rule keeps_emit[OF inv ss so inv1 refl])
        fix b assume b: "sb_ok b" "sb_steps b = sb_steps (d_steps c) @ [?s]"
        let ?sl' = "?sl\<lparr>l_valid := False, l_dirty := False\<rparr>"
        let ?st' = "(bump ?s ?st)\<lparr>ws_l2_slots := (ws_l2_slots ?st)[?v := ?sl']\<rparr>"
        have sb: "same_base ?st ?st'" by (simp add: same_base_def)
        have "slots_own ?st' (d_staged c)" by (rule slots_own_upd[OF I(3) sb, of ?v ?sl']) (use vl in simp_all)
        then have "write_inv ?st' (d_staged c) (?p\<lparr>p_slot := of_nat ?v, p_stage := SlotFree\<rparr>) (?T @ [?s])"
          by (rule write_inv_emit[OF I(8) sb _ ss so]) (use po[OF v] in \<open>simp_all add: hosts_own_def stage_cov_def\<close>)
        then show "keeps H (must (put_slot (d_state (?c1\<lparr>d_state := bump ?s ?st, d_steps := b\<rparr>)) ?v ?sl')
            (\<lambda>st'. Next (set_stage SlotFree ((?c1\<lparr>d_state := bump ?s ?st, d_steps := b\<rparr>)\<lparr>d_state := st'\<rparr>))))"
          using b vl by (simp add: wp_must put_slot_Some ctx_inv_def set_stage_def)
      qed
      then show ?thesis using None True vl by (simp add: dw_enter_def Let_def wp_must slot_at_Some)
    next
      case False
      have "ctx_inv H (set_stage SlotFree ?c1)"
        by (rule keeps_stage[OF inv1]) (simp_all add: hosts_own_def stage_cov_def)
      then show ?thesis using None vl unfolding dw_enter_def Let_def by (simp add: wp_must slot_at_Some if_not_P[OF False])
    qed
  qed
qed

text \<open>Allocate a cluster and record it in the progress.\<close>

lemma keeps_alloc:
  assumes inv: "ctx_inv H c"
    and k: "\<And>host c'. k host c' = Next (c'\<lparr>d_prog := f host\<rparr>)"
    and f: "\<And>host. prog_ok (d_state c) (f host)" "\<And>host st' sr'. own st' sr' host \<Longrightarrow> hosts_own st' sr' (f host)"
      "\<And>host T. stage_cov (ctx_geo c) (f host) T"
  shows "keeps H (alloc_in c k)"
proof (rule wp_alloc_in)
  note I = ctx_invD[OF inv]
  show "staging_ok (d_state c) (d_staged c)" by (rule I(1))
  show "ctx_inv H c" by (rule inv)
  fix host st' sr'
  assume fr: "rc_frame (d_state c) (d_staged c) st' sr'" "rc_le (d_state c) (d_staged c) sr'" "staging_ok st' sr'" "own st' sr' host"
  have "write_inv st' sr' (f host) (H @ sb_steps (d_steps c))" by (rule write_inv_rc[OF I(8) fr(1-3)]) (use f fr(4) in simp_all)
  then show "keeps H (k host (c\<lparr>d_state := st', d_staged := sr'\<rparr>))" using I(9) k by (simp add: ctx_inv_def)
qed

lemma keeps_slot_free:
  assumes inv: "ctx_inv H c" and run: "p_consumed (d_prog c) < p_len (d_prog c)"
  shows "keeps H (dw_slot_free c)"
proof -
  note I = ctx_invD[OF inv]
  obtain raw where raw: "read_u64_be (sr_l1 (d_staged c)) (unat (w_l1_idx (ctx_geo c) (d_prog c)) * 8) = Some raw"
    using read_l1_ok[OF I(1,2) run] by blast
  obtain v where v: "validate_l1_entry (d_state c) (d_staged c) raw = Some v" "\<And>h. v = Inr (L1Owned h) \<Longrightarrow> own (d_state c) (d_staged c) h"
    using validate_l1_own[OF I(1), of raw] by blast
  have al: "keeps H (alloc_in c (\<lambda>host c'. Next (c'\<lparr>d_prog := (d_prog c)\<lparr>p_l2_host := host, p_stage := FreshAlloc\<rparr>\<rparr>)))"
    by (rule keeps_alloc[OF inv, where f = "\<lambda>host. (d_prog c)\<lparr>p_l2_host := host, p_stage := FreshAlloc\<rparr>"]) (use I(2) in \<open>auto simp: hosts_own_def stage_cov_def\<close>)
  have ac: "keeps H (alloc_in c (\<lambda>host c'. Next (c'\<lparr>d_prog := (d_prog c)\<lparr>p_l2_host := host, p_cow_src := old, p_stage := CowL2Load\<rparr>\<rparr>)))" for old
    by (rule keeps_alloc[OF inv, where f = "\<lambda>host. (d_prog c)\<lparr>p_l2_host := host, p_cow_src := old, p_stage := CowL2Load\<rparr>"]) (use I(2) in \<open>auto simp: hosts_own_def stage_cov_def\<close>)
  have ld: "keeps H (emit (load_step (p_slot (d_prog c)) h (ctx_cs c) (ctx_dev c)) c (\<lambda>c1.
                assign_slot c1 False h (\<lambda>st'. Stop BufFull (set_stage Enter (c1\<lparr>d_state := st'\<rparr>)))))" if "own (d_state c) (d_staged c) h" for h
  proof (rule keeps_assign[OF inv _ _ _ _ that, where x = Enter])
    fix c1 st' assume "\<And>st''. same_base st' st'' \<Longrightarrow> ws_l2_slots st'' = ws_l2_slots st' \<Longrightarrow> ctx_inv H (set_stage Enter (c1\<lparr>d_state := st''\<rparr>))"
    from this[of st'] show "keeps H (Stop BufFull (set_stage Enter (c1\<lparr>d_state := st'\<rparr>)))" by (simp add: same_base_def)
  qed (simp_all add: load_step_def disk_write_def hosts_own_def stage_cov_def)
  show ?thesis
    using raw v al ac ld inv
    by (cases v) (auto simp: dw_slot_free_def Let_def wp_must split: l1_verdict.split)
qed

lemma keeps_slot_ready:
  assumes inv: "ctx_inv H c" and run: "p_consumed (d_prog c) < p_len (d_prog c)"
  shows "keeps H (dw_slot_ready c)"
proof -
  note I = ctx_invD[OF inv]
  let ?p = "d_prog c" and ?T = "H @ sb_steps (d_steps c)"
  obtain en where en: "read_staged_l2_entry (d_state c) (d_staged c) (p_slot ?p) (w_l2_idx (ctx_geo c) ?p) = Some en"
    using read_l2_ok[OF I(1,2)] by blast
  obtain v where v: "classify_l2_entry (d_state c) (d_staged c) en = Some v"
    "\<And>h. v = Inr (Owned h) \<or> v = Inr (OwnedZero h) \<Longrightarrow> own (d_state c) (d_staged c) h" using classify_own[OF I(1), of en] by blast
  have ow: "keeps H (emit (body_step (p_data ?p) (p_consumed ?p) (h + w_in_off (ctx_geo c) ?p) (w_win_len (ctx_geo c) ?p) (ctx_dev c)) c
      (\<lambda>c1. Next (next_cluster c1)))" if o: "own (d_state c) (d_staged c) h" for h
  proof (rule keeps_emit[where p = ?p, OF inv body_facts(1,2)[OF inv o run] inv])
    let ?s = "body_step (p_data ?p) (p_consumed ?p) (h + w_in_off (ctx_geo c) ?p) (w_win_len (ctx_geo c) ?p) (ctx_dev c)"
    fix b assume b: "sb_ok b" "sb_steps b = sb_steps (d_steps c) @ [?s]"
    have "write_inv (bump ?s (d_state c)) (d_staged c) (next_prog (ctx_geo c) ?p) (?T @ [?s])"
      by (rule write_inv_emit[OF I(8) same_base_bump _ body_facts(1,2)[OF inv o run]])
        (use I next_prog_ok[OF I(6) I(2) run] slots_own_cong[of "bump ?s (d_state c)" "d_state c"] in simp_all)
    then show "keeps H (Next (next_cluster (c\<lparr>d_state := bump ?s (d_state c), d_steps := b\<rparr>)))"
      using b by (simp add: ctx_inv_def next_cluster_eq)
  qed simp
  have oz: "ctx_inv H (c\<lparr>d_prog := ?p\<lparr>p_data_host := h, p_stage := DataAlloc\<rparr>\<rparr>)" if "own (d_state c) (d_staged c) h" for h
    using write_inv_same[OF I(8), of "d_state c" "?p\<lparr>p_data_host := h, p_stage := DataAlloc\<rparr>"] I that
    by (simp add: ctx_inv_def same_base_def hosts_own_def stage_cov_def)
  have ua: "keeps H (alloc_in c (\<lambda>host c'. Next (c'\<lparr>d_prog := ?p\<lparr>p_data_host := host, p_stage := DataAlloc\<rparr>\<rparr>)))"
    by (rule keeps_alloc[OF inv, where f = "\<lambda>host. (d_prog c)\<lparr>p_data_host := host, p_stage := DataAlloc\<rparr>"]) (use I(2) in \<open>auto simp: hosts_own_def stage_cov_def\<close>)
  have cw: "keeps H (alloc_in c (\<lambda>host c'. Next (c'\<lparr>d_prog := ?p\<lparr>p_data_host := host, p_cow_src := old,
       p_cow_zero_preimage := z, p_stage := CowDataEnter\<rparr>\<rparr>)))" for old z
    by (rule keeps_alloc[OF inv, where f = "\<lambda>host. (d_prog c)\<lparr>p_data_host := host, p_cow_src := old, p_cow_zero_preimage := z, p_stage := CowDataEnter\<rparr>"]) (use I(2) in \<open>auto simp: hosts_own_def stage_cov_def\<close>)
  show ?thesis
    using en v ow oz ua cw inv
    by (cases v) (auto simp: dw_slot_ready_def Let_def wp_must split: classified.split)
qed

lemma dw_step_keeps:
  assumes inv: "ctx_inv H c"
  shows "keeps H (dw_step c)"
proof (cases "p_consumed (d_prog c) < p_len (d_prog c)")
  case True
  note nz = geo_ok_nz[OF ctx_invD(6)[OF inv]]
  show ?thesis using nz True keeps_enter[OF inv] keeps_slot_free[OF inv True] keeps_fresh_alloc[OF inv] keeps_fresh_zeroed[OF inv]
      keeps_slot_ready[OF inv True] keeps_data_alloc[OF inv] keeps_head_done[OF inv] keeps_body_done[OF inv] keeps_tail_done[OF inv]
      keeps_cow_l2_load[OF inv] keeps_cow_l2_repoint[OF inv] keeps_cow_l2_decrement[OF inv] keeps_cow_data_enter[OF inv]
      keeps_cow_data_copy[OF inv] keeps_cow_data_body[OF inv] keeps_cow_data_patch[OF inv] keeps_cow_data_decrement[OF inv True]
    by (cases "p_stage (d_prog c)") (simp_all add: dw_step_def)
next
  case False
  then show ?thesis using inv by (simp add: dw_step_def)
qed


lemma drive_write_keeps: "ctx_inv H c \<Longrightarrow> keeps H (drive_write c)"
proof (induction c rule: drive_write.induct)
  case (1 c)
  have "keeps H (dw_step c)" by (rule dw_step_keeps[OF 1(2)])
  then show ?case using 1(1) by (subst drive_write.simps) (auto split: drive_res.splits)
qed

lemma drive_write_not_Next: "drive_write c \<noteq> Next c'"
proof (induction c rule: drive_write.induct)
  case (1 c)
  then show ?case by (subst drive_write.simps) (auto split: drive_res.splits)
qed

text \<open>What no stage changes, panic or not.\<close>

definition settings :: "write_state \<Rightarrow> geometry \<times> staging_config \<times> bool \<times> bool \<times> pending" where
  "settings st = (ws_geometry st, ws_config st, ws_has_backing st, ws_cow_enabled st, ws_pending st)"

definition wlp :: "('c \<Rightarrow> bool) \<Rightarrow> 'c drive_res \<Rightarrow> bool" where
  "wlp Q r = (case r of Next c \<Rightarrow> Q c | Finished c \<Rightarrow> Q c | Stop e c \<Rightarrow> Q c | Panicked \<Rightarrow> True)"

lemma wlp_simps [simp]: "wlp Q (Next c) = Q c" "wlp Q (Finished c) = Q c" "wlp Q (Stop e c) = Q c" "wlp Q Panicked"
  by (simp_all add: wlp_def)

lemma wlp_emit: "Q c \<Longrightarrow> (\<And>b. sb_push (d_steps c) s = Some b \<Longrightarrow> wlp Q (k (c\<lparr>d_state := bump s (d_state c), d_steps := b\<rparr>))) \<Longrightarrow> wlp Q (emit s c k)"
  by (simp add: emit_eq split: option.splits)

lemma wlp_must: "(\<And>v. x = Some v \<Longrightarrow> wlp Q (k v)) \<Longrightarrow> wlp Q (must x k)"
  by (simp add: must_def split: option.splits)

lemma wlp_alloc_in:
  assumes "\<And>cur rd rb. Q (c\<lparr>d_state := (d_state c)\<lparr>ws_alloc_cursor := cur, ws_refblock_dirty := rd\<rparr>, d_staged := (d_staged c)\<lparr>sr_refblocks := rb\<rparr>\<rparr>)"
    "\<And>host cur rd rb. wlp Q (k host (c\<lparr>d_state := (d_state c)\<lparr>ws_alloc_cursor := cur, ws_refblock_dirty := rd\<rparr>, d_staged := (d_staged c)\<lparr>sr_refblocks := rb\<rparr>\<rparr>))"
  shows "wlp Q (alloc_in c k)"
  unfolding alloc_in_def
proof (rule wlp_must)
  fix v assume a: "alloc_cluster (d_state c) (d_staged c) = Some v"
  obtain r st' sr' where v: "v = (r, st', sr')" by (metis prod_cases3)
  from alloc_cluster_frame[OF a[unfolded v]] show "wlp Q (case v of (r, st', sr') \<Rightarrow> let c' = c\<lparr>d_state := st', d_staged := sr'\<rparr> in
       case r of Inl e \<Rightarrow> Stop e c' | Inr host \<Rightarrow> k host c')"
    unfolding v using assms by (cases r) (auto simp: Let_def)
qed

lemma wlp_dec_in:
  assumes "\<And>rd rb. Q (c\<lparr>d_state := (d_state c)\<lparr>ws_refblock_dirty := rd\<rparr>, d_staged := (d_staged c)\<lparr>sr_refblocks := rb\<rparr>\<rparr>)"
    "\<And>rd rb. wlp Q (k (c\<lparr>d_state := (d_state c)\<lparr>ws_refblock_dirty := rd\<rparr>, d_staged := (d_staged c)\<lparr>sr_refblocks := rb\<rparr>\<rparr>))"
  shows "wlp Q (dec_in host c k)"
  unfolding dec_in_def
proof (rule wlp_must)
  fix v assume a: "dec_refcount (d_state c) (d_staged c) host = Some v"
  obtain r st' sr' where v: "v = (r, st', sr')" by (metis prod_cases3)
  from dec_refcount_frame[OF a[unfolded v]] show "wlp Q (case v of (r, st', sr') \<Rightarrow> let c' = c\<lparr>d_state := st', d_staged := sr'\<rparr> in
       case r of Inl e \<Rightarrow> Stop e c' | Inr _ \<Rightarrow> k c')"
    unfolding v using assms by (cases r) (auto simp: Let_def)
qed

lemma wlp_assign_slot: "(\<And>sls. wlp Q (k ((d_state c)\<lparr>ws_l2_slots := sls\<rparr>))) \<Longrightarrow> wlp Q (assign_slot c d host k)"
  unfolding assign_slot_def Let_def by (intro wlp_must) (auto simp: put_slot_Some)

lemma settings_upd [simp]:
  "settings (bump s st) = settings st" "settings (st\<lparr>ws_l2_slots := x1\<rparr>) = settings st" "settings (st\<lparr>ws_alloc_cursor := x2\<rparr>) = settings st"
  "settings (st\<lparr>ws_refblock_dirty := x3\<rparr>) = settings st" "settings (st\<lparr>ws_l1_dirty := x4\<rparr>) = settings st"
  "settings (st\<lparr>ws_access_counter := x5\<rparr>) = settings st" "settings (st\<lparr>ws_slot_pending_zero := x6\<rparr>) = settings st"
  "settings (st\<lparr>ws_steps_since_barrier := x7\<rparr>) = settings st"
  by (simp_all add: settings_def)

lemma case_sum_wlp: "(\<And>e. Q c) \<Longrightarrow> (\<And>x. v = Inr x \<Longrightarrow> wlp Q (f x)) \<Longrightarrow> wlp Q (case v of Inl e \<Rightarrow> Stop e c | Inr x \<Rightarrow> f x)"
  by (cases v) auto

lemma wlp_l1: "(\<And>a. wlp Q (f a)) \<Longrightarrow> (\<And>a. wlp Q (g a)) \<Longrightarrow> wlp Q (case v of L1Owned a \<Rightarrow> f a | CowL2 b \<Rightarrow> g b)"
  by (cases v) auto

lemma wlp_cl: "wlp Q u \<Longrightarrow> (\<And>a. wlp Q (f a)) \<Longrightarrow> (\<And>a. wlp Q (g a)) \<Longrightarrow> (\<And>a z. wlp Q (h a z)) \<Longrightarrow>
    wlp Q (case v of Unallocated \<Rightarrow> u | Owned a \<Rightarrow> f a | OwnedZero a \<Rightarrow> g a | CowData a z \<Rightarrow> h a z)"
  by (cases v) auto

lemma wlp_if: "(b \<Longrightarrow> wlp Q x) \<Longrightarrow> (\<not> b \<Longrightarrow> wlp Q y) \<Longrightarrow> wlp Q (if b then x else y)"
  by simp

lemma wlp_opt: "wlp Q u \<Longrightarrow> (\<And>x. v = Some x \<Longrightarrow> wlp Q (f x)) \<Longrightarrow> wlp Q (case v of None \<Rightarrow> u | Some x \<Rightarrow> f x)"
  by (cases v) auto

lemmas wlp_rules = wlp_emit wlp_must wlp_alloc_in wlp_dec_in wlp_assign_slot case_sum_wlp wlp_l1 wlp_cl wlp_if wlp_opt

lemma dw_step_settings: "wlp (\<lambda>c'. settings (d_state c') = settings (d_state c)) (dw_step c)"
  unfolding dw_step_def
  by (cases "p_stage (d_prog c)"; simp only: cluster_stage.case; (intro wlp_if)?;
      (unfold dw_defs Let_def)?; (intro wlp_rules)?;
      (auto simp: put_slot_Some touch_Some pending_zero_set_Some set_stage_def next_cluster_eq)?)

lemma drive_write_settings: "wlp (\<lambda>c'. settings (d_state c') = settings (d_state c)) (drive_write c)"
proof (induction c rule: drive_write.induct)
  case (1 c)
  have "wlp (\<lambda>c'. settings (d_state c') = settings (d_state c)) (dw_step c)" by (rule dw_step_settings)
  then show ?case using 1 by (subst drive_write.simps) (auto split: drive_res.splits)
qed

section \<open>The invariant across planner calls\<close>

text \<open>\<open>H\<close> is the stream of steps emitted and executed since the last flush.\<close>

definition plan_inv :: "write_state \<Rightarrow> staged_regions \<Rightarrow> step list \<Rightarrow> bool" where
  "plan_inv st sr H \<longleftrightarrow> staging_ok st sr \<and> slots_own st sr \<and> (\<forall>s\<in>set H. safe_step st sr s) \<and>
     ordered (unat (g_cluster_size (ws_geometry st))) H \<and>
     (case ws_pending st of PWrite p \<Rightarrow> write_inv st sr p H | _ \<Rightarrow> True)"

lemma admit_write_ok:
  assumes g: "geo_ok (ws_geometry st)" and slots: "0 < c_l2_slots (ws_config st)"
  shows "\<exists>v. admit_write (ws_geometry st) voff len data = Some v \<and>
    (\<forall>p. v = Inr (Some p) \<longrightarrow> prog_ok st p \<and> p_stage p = Enter \<and> p_consumed p = 0 \<and> p_voff p = voff \<and> p_len p = len \<and> p_data p = data)"
proof -
  let ?g = "ws_geometry st"
  have po: "prog_ok st \<lparr>p_voff = voff, p_len = len, p_data = data, p_consumed = 0, p_stage = Enter,
       p_slot = 0, p_l2_host = 0, p_data_host = 0, p_cow_src = 0, p_cow_zero_preimage = False\<rparr>"
    if e: "checked_add voff len = Some en" "\<not> g_virtual_size ?g < en" "len \<noteq> 0" "\<not> ucast (g_l1_size ?g) \<le> (en - 1) div g_l2_coverage ?g" for en
  proof -
    have u: "unat en = unat voff + unat len" using e(1) by (auto simp: checked_add_Some unat_add_small)
    have l: "0 < unat len" using e(3) by (simp add: unat_gt_0)
    then have "en \<noteq> 0" using u by auto
    then have "unat (en - 1) = unat voff + unat len - 1" using u by (simp add: unat_minus_one)
    moreover have "unat (ucast (g_l1_size ?g) :: u64) = unat (g_l1_size ?g)"
      using unsigned_less[of "g_l1_size ?g", where 'a = nat] by (simp add: unsigned_ucast_eq take_bit_nat_eq_self)
    ultimately have "(unat voff + unat len - 1) div unat (g_l2_coverage ?g) < unat (g_l1_size ?g)"
      using e(4) by (simp add: word_le_nat_alt unat_div)
    then show ?thesis using e(2) u l slots by (simp add: prog_ok_def word_less_nat_alt)
  qed
  show ?thesis unfolding admit_write_def using po geo_ok_nz(3)[OF g] by (auto split: option.splits)
qed

lemma pending_clear_facts:
  assumes "ws_inv st"
  defines "st0 \<equiv> pending_zero_clear_all (st\<lparr>ws_pending := Idle\<rparr>)"
  shows "same_base st st0" "ws_l2_slots st0 = ws_l2_slots st" "ws_refblock_dirty st0 = ws_refblock_dirty st"
    "ws_l1_dirty st0 = ws_l1_dirty st"
  using assms by (auto simp: pending_zero_clear_all_def same_base_def ws_inv_def)

lemma run_write_inv:
  assumes inv: "write_inv st sr p (H @ sb_steps steps)" and b: "sb_ok steps"
  shows "\<exists>r st' sr' b'. run_write st sr p steps = Some (r, st', sr', b') \<and> sb_ok b' \<and> plan_inv st' sr' (H @ sb_steps b')"
proof -
  let ?st0 = "pending_zero_clear_all (st\<lparr>ws_pending := Idle\<rparr>)"
  let ?c = "\<lparr>d_state = ?st0, d_staged = sr, d_prog = p, d_steps = steps\<rparr>"
  have w: "ws_inv st" using inv by (auto simp: write_inv_def staging_ok_def)
  note f = pending_clear_facts[OF w]
  have "write_inv ?st0 sr p (H @ sb_steps steps)"
    by (rule write_inv_same[OF inv f(1)]) (use inv slots_own_cong[OF f(2,1)] in \<open>auto simp: write_inv_def\<close>)
  then have "ctx_inv H ?c" using b by (simp add: ctx_inv_def)
  then have k: "keeps H (drive_write ?c)" by (rule drive_write_keeps)
  have set: "wlp (\<lambda>c'. settings (d_state c') = settings ?st0) (drive_write ?c)" using drive_write_settings[of ?c] by simp
  have idle: "settings (d_state c) = settings ?st0 \<Longrightarrow> ws_pending (d_state c) = Idle" for c
    by (simp add: settings_def pending_zero_clear_all_def)
  have pi: "plan_inv (d_state c) (d_staged c) (H @ sb_steps (d_steps c)) \<and> sb_ok (d_steps c)" if "ctx_inv H c" "settings (d_state c) = settings ?st0" for c
    using that idle[OF that(2)] by (auto simp: plan_inv_def ctx_inv_def write_inv_def)
  have pw: "plan_inv ((d_state c)\<lparr>ws_pending := PWrite (d_prog c)\<rparr>) (d_staged c) (H @ sb_steps (d_steps c)) \<and> sb_ok (d_steps c)" if "ctx_inv H c" for c
  proof -
    let ?st = "(d_state c)\<lparr>ws_pending := PWrite (d_prog c)\<rparr>"
    have sb: "same_base (d_state c) ?st" by (simp add: same_base_def)
    have "write_inv ?st (d_staged c) (d_prog c) (H @ sb_steps (d_steps c))"
      by (rule write_inv_same[OF ctx_invD(8)[OF that] sb]) (use ctx_invD[OF that] slots_own_cong[OF _ sb] in simp_all)
    then show ?thesis using ctx_invD(9)[OF that] by (auto simp: plan_inv_def write_inv_def)
  qed
  show ?thesis
    using k set pi pw drive_write_not_Next[of ?c]
    by (cases "drive_write ?c") (auto simp: run_write_def)
qed

lemma validate_staged_ok:
  assumes "ws_inv st" "validate_staged st sr steps = Some (Inr u)"
    "cursor_pos (unat (g_cluster_size (ws_geometry st)) div 2) (ws_alloc_cursor st) \<le> covered st sr"
  shows "staging_ok st sr"
  using assms by (auto simp: validate_staged_def staging_ok_def Let_def rb_count_def split: if_splits)

lemma validate_staged_total: "ws_inv st \<Longrightarrow> validate_staged st sr steps \<noteq> None"
  using geo_ok_nz(1)[of "ws_geometry st"] by (auto simp: validate_staged_def Let_def ws_inv_def unat_eq_zero)

lemma plan_write_inv:
  assumes inv: "plan_inv st sr (H @ sb_steps steps)" and b: "sb_ok steps"
  shows "\<exists>r st' sr' b'. plan_write st sr voff len data steps = Some (r, st', sr', b') \<and> sb_ok b' \<and> plan_inv st' sr' (H @ sb_steps b')"
proof -
  have w: "ws_inv st" and ok: "staging_ok st sr" using inv by (auto simp: plan_inv_def staging_ok_def)
  then have g: "geo_ok (ws_geometry st)" "0 < c_l2_slots (ws_config st)" by (auto simp: ws_inv_def)
  obtain v where v: "validate_staged st sr steps = Some v" using validate_staged_total[OF w] by blast
  obtain a where a: "admit_write (ws_geometry st) voff len data = Some a"
    "\<And>p. a = Inr (Some p) \<Longrightarrow> prog_ok st p \<and> p_stage p = Enter" using admit_write_ok[OF g] by blast
  have fresh: "write_inv st sr p (H @ sb_steps steps)" if "a = Inr (Some p)" for p
    using a(2)[OF that] inv by (simp add: write_inv_def plan_inv_def hosts_own_def stage_cov_def)
  have run: "\<exists>r st' sr' b'. run_write st sr p steps = Some (r, st', sr', b') \<and> sb_ok b' \<and> plan_inv st' sr' (H @ sb_steps b')"
    if "write_inv st sr p (H @ sb_steps steps)" for p using run_write_inv[OF that b] by blast
  show ?thesis
  proof (cases "ws_pending st")
    case Idle
    then show ?thesis using v a fresh run inv b unfolding plan_write_def Let_def
      by (auto split: sum.split option.split)
  next
    case (PWrite p)
    then have "write_inv st sr p (H @ sb_steps steps)" using inv by (simp add: plan_inv_def)
    from run[OF this] show ?thesis using PWrite v inv b unfolding plan_write_def Let_def by (auto split: sum.split)
  next
    case (PFlush f)
    then show ?thesis using inv b by (simp add: plan_write_def)
  qed
qed

lemma new_state_plan_inv:
  assumes "parse_header hdr = Some h" "new_state_impl h cfg cow = Inr st" "validate_staged st sr steps = Some (Inr u)"
  shows "plan_inv st sr []"
proof -
  have w: "ws_inv st" by (rule new_state_inv[OF assms(1,2)])
  have i: "ws_alloc_cursor st = empty_cursor" "ws_pending st = Idle" "ws_l2_slots st = replicate MAX_L2_SLOTS L2Slot_EMPTY"
    using assms(2) by (auto simp: new_state_impl_Inr)
  have "staging_ok st sr" by (rule validate_staged_ok[OF w assms(3)]) (simp add: i cursor_pos_def empty_cursor_def)
  then show ?thesis using w i by (simp add: plan_inv_def slots_own_def ordered_def ws_inv_def L2Slot_EMPTY_def)
qed

lemma ex_plan_inv: "plan_inv ex_st ex_sr []" "sb_steps ex_buf = []" "sb_ok ex_buf"
  using new_state_plan_inv[OF ex_header ex_new_state ex_validate]
  by (simp_all add: ex_buf_def sb_new_def sb_steps_def sb_ok_def)

section \<open>Properties\<close>

text \<open>(C1) No panic, and the invariant survives: from a state and a staging that satisfy the planner
  invariant, whatever the request and the free space in the step buffer, \<open>plan_write\<close> returns (it neither
  panics nor loops), and the resulting state, staging and step stream satisfy the invariant again.\<close>

theorem plan_write_total:
  assumes "plan_inv st sr (H @ sb_steps steps)" "sb_ok steps"
  shows "\<exists>r st' sr' steps'. plan_write st sr voff len data steps = Some (r, st', sr', steps') \<and>
    sb_ok steps' \<and> plan_inv st' sr' (H @ sb_steps steps')"
  using assms by (rule plan_write_inv)

theorem plan_write_total_witness:
  "\<exists>st sr steps. plan_write ex_st ex_sr 0 512 (Fill 7) ex_buf = Some (Inr 4, st, sr, steps) \<and> plan_inv st sr ex_steps"
proof -
  obtain st sr b where "plan_write ex_st ex_sr 0 512 (Fill 7) ex_buf = Some (Inr 4, st, sr, b)" "sb_steps b = ex_steps"
    by (rule ex_plan)
  then show ?thesis using plan_write_total[of ex_st ex_sr "[]" ex_buf 0 512 "Fill 7"] ex_plan_inv by simp
qed

text \<open>(C2) Snapshot safety: no step that \<open>plan_write\<close> has emitted since the last flush writes to the disk
  outside one single host cluster, or to a host cluster whose staged refcount is above one.  A cluster
  shared with a snapshot is never overwritten.\<close>

theorem plan_write_spares_shared:
  assumes "plan_inv st sr (H @ sb_steps steps)" "sb_ok steps"
    and "plan_write st sr voff len data steps = Some (r, st', sr', steps')"
    and "s \<in> set (H @ sb_steps steps')"
    and "s_kind s \<in> {WriteRange, ZeroRange, FillRange, WritebackCluster}"
  shows "staged_rc sr' (cidx st' (s_disk_offset s)) \<le> 1 \<and> cidx st' (s_disk_offset s) < covered st' sr' \<and>
    unat (s_disk_offset s) mod unat (g_cluster_size (ws_geometry st')) + unat (s_len s)
      \<le> unat (g_cluster_size (ws_geometry st'))"
proof -
  have "plan_inv st' sr' (H @ sb_steps steps')" using plan_write_inv[OF assms(1,2), of voff len data] assms(3) by auto
  then have "safe_step st' sr' s" using assms(4) by (auto simp: plan_inv_def)
  moreover have "disk_write s" using assms(5) by (simp add: disk_write_def)
  ultimately show ?thesis by (simp add: safe_step_def)
qed

theorem plan_write_spares_shared_witness:
  "\<exists>st sr b. plan_write ex_st ex_sr 0 512 (Fill 7) ex_buf = Some (Inr 4, st, sr, b) \<and>
     body_step (Fill 7) 0 2560 512 Input0 \<in> set (sb_steps b) \<and> staged_rc sr (cidx st 2560) \<le> 1"
proof -
  obtain st sr b where p: "plan_write ex_st ex_sr 0 512 (Fill 7) ex_buf = Some (Inr 4, st, sr, b)"
    "sb_steps b = ex_steps" by (rule ex_plan)
  show ?thesis
    using plan_write_spares_shared[of ex_st ex_sr "[]" ex_buf 0 512 "Fill 7" "Inr 4" st sr b
        "body_step (Fill 7) 0 2560 512 Input0"] ex_plan_inv p
    by (simp add: ex_steps_def body_step_def)
qed



end
