(* ===== verification/Write_Progress.thy ===== *)
theory Write_Progress
  imports Write_Safety
begin

text \<open>
  Progress of \<open>plan_write\<close> across windows.  A call that runs out of buffer, or that stops so that a loaded
  L2 table can be read, leaves a resume point that is strictly closer to the end of the request
  (\<open>write_left\<close>); the steps of a window change no staged bytes but those of the L1 table, the L2 window and
  the bounce buffer; and the planner itself changes no staged bytes but the refblocks.
\<close>

section \<open>What a window touches\<close>

text \<open>A step that writes into a staged region writes into the L1 table, the L2 window or the bounce buffer.\<close>

definition stages_pointers :: "step \<Rightarrow> bool" where
  "stages_pointers s \<longleftrightarrow> (s_kind s \<in> {ReadCluster, LoadCluster, PatchEntryU64, ZeroRegion} \<longrightarrow>
     s_region s \<noteq> RRefcountTable \<and> s_region s \<noteq> RRefblocks \<and> s_region s \<noteq> RCallerData)"

lemma stages_pointers_steps [simp]:
  "stages_pointers (writeback_step a b c d)" "stages_pointers (zero_region_step a b d)" "stages_pointers (load_step a b c d)"
  "stages_pointers (zero_range_step b c d)" "stages_pointers (read_cluster_to_bounce_step b c d)"
  "stages_pointers (write_bounce_cluster_step b c d)" "stages_pointers (body_step e b f c d)"
  "stages_pointers (patch_step RL1 b c d)" "stages_pointers (patch_step (RL2Slot v) b c d)"
  "stages_pointers (barrier_step d)"
  by (simp_all add: stages_pointers_def step_builders split: data_source.split)

definition window_of :: "drive_ctx \<Rightarrow> drive_ctx \<Rightarrow> bool" where
  "window_of c c' \<longleftrightarrow> sb_ok (d_steps c') \<and> sb_capacity (d_steps c') = sb_capacity (d_steps c) \<and>
     (\<exists>rb. d_staged c' = (d_staged c)\<lparr>sr_refblocks := rb\<rparr>) \<and>
     (\<forall>s\<in>set (sb_steps (d_steps c')). s \<in> set (sb_steps (d_steps c)) \<or> stages_pointers s)"

lemma staged_id: "\<exists>rb. sr = sr\<lparr>sr_refblocks := rb\<rparr>"
  by (rule exI[of _ "sr_refblocks sr"]) simp

lemma window_refl: "sb_ok (d_steps c) \<Longrightarrow> window_of c c"
  by (simp add: window_of_def staged_id)

lemma window_trans: "window_of a b \<Longrightarrow> window_of b c \<Longrightarrow> window_of a c"
  unfolding window_of_def by (elim conjE exE, intro conjI) (auto intro: exI)

lemma dw_step_window: "sb_ok (d_steps c) \<Longrightarrow> wlp (window_of c) (dw_step c)"
  unfolding dw_step_def
  by (cases "p_stage (d_prog c)"; simp only: cluster_stage.case; (intro wlp_if)?;
      (unfold dw_defs Let_def)?; (intro wlp_rules)?;
      (auto simp: put_slot_Some touch_Some pending_zero_set_Some set_stage_def next_cluster_eq window_of_def staged_id sb_push_Some dest: sb_push_Some)?)

lemma drive_write_window: "sb_ok (d_steps c) \<Longrightarrow> wlp (window_of c) (drive_write c)"
proof (induction c rule: drive_write.induct)
  case (1 c)
  have W: "wlp (window_of c) (dw_step c)" by (rule dw_step_window[OF 1(2)])
  show ?case
  proof (cases "dw_step c")
    case (Next c')
    then have w: "window_of c c'" using W by simp
    then have "sb_ok (d_steps c')" by (simp add: window_of_def)
    then have "wlp (window_of c') (drive_write c')" by (rule 1(1)[OF Next])
    then show ?thesis using Next window_trans[OF w] drive_write.simps[of c] by (cases "drive_write c'") auto
  qed (use W drive_write.simps[of c] in simp_all)
qed

section \<open>Where a call stops for the next window\<close>

lemma emit_Stop: "emit s c k = Stop e r \<longleftrightarrow> sb_push (d_steps c) s = None \<and> e = BufFull \<and> r = c \<or>
    (\<exists>b. sb_push (d_steps c) s = Some b \<and> k (c\<lparr>d_state := bump s (d_state c), d_steps := b\<rparr>) = Stop e r)"
  by (auto simp: emit_eq split: option.splits)

lemma must_Stop: "must x k = Stop e r \<longleftrightarrow> (\<exists>v. x = Some v \<and> k v = Stop e r)"
  by (simp add: must_def split: option.splits)

lemma errors_not_full:
  "alloc_cluster st sr = Some (Inl e, st', sr') \<Longrightarrow> e \<noteq> BufFull"
  "dec_refcount st sr h = Some (Inl e, st', sr') \<Longrightarrow> e \<noteq> BufFull"
  "read_staged_refcount st sr h = Some (Inl e) \<Longrightarrow> e \<noteq> BufFull"
proof -
  show r: "read_staged_refcount st sr h = Some (Inl e) \<Longrightarrow> e \<noteq> BufFull" for e
    by (auto simp: read_staged_refcount_def Let_def split: if_splits option.splits sum.splits)
  show "alloc_cluster st sr = Some (Inl e, st', sr') \<Longrightarrow> e \<noteq> BufFull"
    by (auto simp: alloc_cluster_def Let_def split: if_splits option.splits sum.splits prod.splits snapshot_error.splits)
  show "dec_refcount st sr h = Some (Inl e, st', sr') \<Longrightarrow> e \<noteq> BufFull"
    by (auto simp: dec_refcount_def Let_def split: if_splits option.splits sum.splits prod.splits)
qed

lemma verdicts_not_full:
  "classify_l2_entry st sr raw = Some (Inl e) \<Longrightarrow> e \<noteq> BufFull"
  "validate_l1_entry st sr raw = Some (Inl e) \<Longrightarrow> e \<noteq> BufFull"
  using errors_not_full(3)[of st sr]
  by (auto simp: classify_l2_entry_def validate_l1_entry_def Let_def split: if_splits option.splits sum.splits)

lemma alloc_in_full: "alloc_in c k = Stop BufFull r \<Longrightarrow> \<exists>host cur rd rb.
     k host (c\<lparr>d_state := (d_state c)\<lparr>ws_alloc_cursor := cur, ws_refblock_dirty := rd\<rparr>, d_staged := (d_staged c)\<lparr>sr_refblocks := rb\<rparr>\<rparr>) = Stop BufFull r"
proof -
  assume a: "alloc_in c k = Stop BufFull r"
  then obtain q st' sr' where q: "alloc_cluster (d_state c) (d_staged c) = Some (q, st', sr')"
    by (auto simp: alloc_in_def must_Stop)
  from alloc_cluster_frame[OF q] show ?thesis using a q errors_not_full(1) by (cases q) (fastforce simp: alloc_in_def must_def Let_def)+
qed

lemma dec_in_full: "dec_in h c k = Stop BufFull r \<Longrightarrow> \<exists>rd rb.
     k (c\<lparr>d_state := (d_state c)\<lparr>ws_refblock_dirty := rd\<rparr>, d_staged := (d_staged c)\<lparr>sr_refblocks := rb\<rparr>\<rparr>) = Stop BufFull r"
proof -
  assume a: "dec_in h c k = Stop BufFull r"
  then obtain q st' sr' where q: "dec_refcount (d_state c) (d_staged c) h = Some (q, st', sr')"
    by (auto simp: dec_in_def must_Stop)
  from dec_refcount_frame[OF q] show ?thesis using a q errors_not_full(2) by (cases q) (fastforce simp: dec_in_def must_def Let_def)+
qed

text \<open>A stage gives up only on a full buffer, before it changes anything, or after it has bound a window slot to
  the table the cursor needs.\<close>

definition bound_slot :: "drive_ctx \<Rightarrow> bool" where
  "bound_slot c \<longleftrightarrow> (let sl = ws_l2_slots (d_state c) ! unat (p_slot (d_prog c)) in
     l_valid sl \<and> l_l1_idx sl = w_l1_idx (ctx_geo c) (d_prog c) \<and> unat (p_slot (d_prog c)) < c_l2_slots (ws_config (d_state c)))"

definition full_stop :: "drive_ctx \<Rightarrow> drive_ctx \<Rightarrow> bool" where
  "full_stop c c' \<longleftrightarrow> sb_remaining (d_steps c) = 0 \<and> d_state c' = d_state c \<and> d_steps c' = d_steps c \<and>
     (\<exists>v. d_prog c' = (d_prog c)\<lparr>p_slot := v\<rparr>) \<and> (p_stage (d_prog c) \<noteq> Enter \<longrightarrow> c' = c)"

definition load_stop :: "drive_ctx \<Rightarrow> drive_ctx \<Rightarrow> bool" where
  "load_stop c c' \<longleftrightarrow> p_stage (d_prog c) \<in> {SlotFree, CowL2Decrement} \<and>
     d_prog c' = (d_prog c)\<lparr>p_stage := Enter\<rparr> \<and> ctx_geo c' = ctx_geo c \<and> ws_config (d_state c') = ws_config (d_state c) \<and>
     (p_stage (d_prog c) = SlotFree \<longrightarrow> unat (p_slot (d_prog c)) < c_l2_slots (ws_config (d_state c)) \<longrightarrow> bound_slot c') \<and>
     (p_stage (d_prog c) = CowL2Decrement \<longrightarrow> bound_slot c \<longrightarrow> bound_slot c')"

lemma prog_slot_id: "\<exists>v. p = p\<lparr>p_slot := v\<rparr>"
  by (rule exI[of _ "p_slot p"]) simp

lemma full_stop_same: "sb_ok (d_steps c) \<Longrightarrow> sb_push (d_steps c) s = None \<Longrightarrow> full_stop c c"
  by (simp add: full_stop_def sb_push_None prog_slot_id)

lemma no_alloc_full: "(\<And>h c1. k h c1 \<noteq> Stop BufFull r) \<Longrightarrow> alloc_in c k \<noteq> Stop BufFull r"
  using alloc_in_full[of c k r] by metis

lemma slot_free_full:
  assumes b: "sb_ok (d_steps c)" and st: "p_stage (d_prog c) = SlotFree" and s: "dw_slot_free c = Stop BufFull c'"
  shows "full_stop c c' \<or> load_stop c c'"
proof -
  obtain raw where raw: "read_u64_be (sr_l1 (d_staged c)) (unat (w_l1_idx (ctx_geo c) (d_prog c)) * 8) = Some raw" "raw \<noteq> 0"
    using s no_alloc_full by (fastforce simp: dw_slot_free_def Let_def must_Stop split: if_splits)
  then obtain v where v: "validate_l1_entry (d_state c) (d_staged c) raw = Some v"
    using s by (auto simp: dw_slot_free_def Let_def must_Stop)
  show ?thesis
  proof (cases v)
    case (Inl e)
    then show ?thesis using s raw v verdicts_not_full(2)[OF v[unfolded Inl]] by (simp add: dw_slot_free_def Let_def must_def)
  next
    case (Inr w)
    show ?thesis
    proof (cases w)
      case (L1Owned h)
      have "emit (load_step (p_slot (d_prog c)) h (ctx_cs c) (ctx_dev c)) c (\<lambda>c1. assign_slot c1 False h (\<lambda>st'.
          Stop BufFull (set_stage Enter (c1\<lparr>d_state := st'\<rparr>)))) = Stop BufFull c'"
        using s raw v Inr L1Owned by (simp add: dw_slot_free_def Let_def must_def)
      then show ?thesis using full_stop_same[OF b] st
        by (auto simp: emit_Stop assign_slot_def must_Stop slot_at_Some put_slot_Some Let_def load_stop_def set_stage_def bound_slot_def
            w_l1_idx_def w_cur_def)
    next
      case (CowL2 h)
      then show ?thesis using s raw v Inr no_alloc_full by (fastforce simp: dw_slot_free_def Let_def must_def)
    qed
  qed
qed

lemma slot_ready_full:
  assumes b: "sb_ok (d_steps c)" and s: "dw_slot_ready c = Stop BufFull c'"
  shows "full_stop c c'"
proof -
  let ?p = "d_prog c"
  obtain entry where e: "read_staged_l2_entry (d_state c) (d_staged c) (p_slot ?p) (w_l2_idx (ctx_geo c) ?p) = Some entry"
    using s by (auto simp: dw_slot_ready_def Let_def must_Stop)
  then obtain v where v: "classify_l2_entry (d_state c) (d_staged c) entry = Some v"
    using s by (auto simp: dw_slot_ready_def Let_def must_Stop)
  show ?thesis
  proof (cases v)
    case (Inl x)
    then show ?thesis using s e v verdicts_not_full(1)[OF v[unfolded Inl]] by (simp add: dw_slot_ready_def Let_def must_def)
  next
    case (Inr w)
    show ?thesis
    proof (cases w)
      case (Owned h)
      then show ?thesis using s e v Inr full_stop_same[OF b] by (auto simp: dw_slot_ready_def Let_def must_def emit_Stop)
    next
      case Unallocated
      then show ?thesis using s e v Inr no_alloc_full by (fastforce simp: dw_slot_ready_def Let_def must_def split: if_splits)
    next
      case (OwnedZero h)
      then show ?thesis using s e v Inr by (simp add: dw_slot_ready_def Let_def must_def)
    next
      case (CowData h z)
      then show ?thesis using s e v Inr no_alloc_full by (fastforce simp: dw_slot_ready_def Let_def must_def)
    qed
  qed
qed

lemma dw_step_full:
  assumes b: "sb_ok (d_steps c)" and s: "dw_step c = Stop BufFull c'"
  shows "full_stop c c' \<or> load_stop c c'"
proof (cases "p_stage (d_prog c)")
  case Enter
  then show ?thesis using s b
    by (auto simp: dw_step_def dw_enter_def Let_def emit_Stop must_Stop full_stop_def sb_push_None set_stage_def split: if_splits option.splits)
next
  case SlotFree
  then have "dw_slot_free c = Stop BufFull c'" using s by (simp add: dw_step_def split: if_splits)
  then show ?thesis by (rule slot_free_full[OF b SlotFree])
next
  case SlotReady
  then have "dw_slot_ready c = Stop BufFull c'" using s by (simp add: dw_step_def split: if_splits)
  then show ?thesis using slot_ready_full[OF b] by blast
next
  case CowL2Decrement
  then show ?thesis using s b dec_in_full[of "p_cow_src (d_prog c)" c "\<lambda>c1. Stop BufFull (set_stage Enter c1)" c']
    by (auto simp: dw_step_def dw_cow_l2_decrement_def load_stop_def set_stage_def bound_slot_def w_l1_idx_def w_cur_def split: if_splits)
next
  case CowDataDecrement
  then show ?thesis using s b dec_in_full[of "p_cow_src (d_prog c)" c "\<lambda>c1. Next (next_cluster c1)" c']
    by (auto simp: dw_step_def dw_cow_data_decrement_def split: if_splits)
qed (use s full_stop_same[OF b] in \<open>auto simp: dw_step_def dw_defs Let_def emit_Stop must_Stop assign_slot_def split: if_splits\<close>)

section \<open>The resume point comes closer to the end\<close>

definition slot_hit :: "drive_ctx \<Rightarrow> bool" where
  "slot_hit c \<longleftrightarrow> find_slot (d_state c) (w_l1_idx (ctx_geo c) (d_prog c)) \<noteq> None"

definition write_left :: "drive_ctx \<Rightarrow> nat" where
  "write_left c = (unat (p_len (d_prog c)) - unat (p_consumed (d_prog c))) * 32 +
     (if p_stage (d_prog c) = Enter \<and> slot_hit c then 15 else 2 * stage_rank (p_stage (d_prog c)))"

definition cow_slot :: "drive_ctx \<Rightarrow> bool" where
  "cow_slot c \<longleftrightarrow> (p_stage (d_prog c) \<in> {CowL2Repoint, CowL2Decrement} \<longrightarrow> bound_slot c)"

lemma bound_hit: "bound_slot c \<Longrightarrow> slot_hit c"
  by (auto simp: slot_hit_def find_slot_def bound_slot_def Let_def find_None_upt)

lemma stage_rank_bounds: "stage_rank s \<le> 12" "stage_rank s = 12 \<longleftrightarrow> s = Enter"
  by (cases s; simp)+

lemma enter_hit_Next: "dw_step c = Next c' \<Longrightarrow> p_stage (d_prog c) = Enter \<Longrightarrow> slot_hit c \<Longrightarrow> p_stage (d_prog c') = SlotReady"
  by (auto simp: dw_step_def dw_enter_def slot_hit_def must_Next Let_def split: if_splits option.splits)

lemma write_left_Next:
  assumes "dw_step c = Next c'"
  shows "write_left c' < write_left c"
proof -
  note g = dw_step_Next_guard[OF assms] and a = dw_step_advances[OF assms]
  note w = win_len_bounds(1)[of "d_prog c" "ctx_geo c"] consumed_next[of "d_prog c" "ctx_geo c"]
  consider (rank) "p_consumed (d_prog c') = p_consumed (d_prog c)" "p_len (d_prog c') = p_len (d_prog c)"
      "stage_rank (p_stage (d_prog c')) < stage_rank (p_stage (d_prog c))"
    | (adv) "p_consumed (d_prog c') = p_consumed (d_prog c) + w_win_len (ctx_geo c) (d_prog c)" "p_len (d_prog c') = p_len (d_prog c)"
      "p_stage (d_prog c') = Enter"
    using a by (auto simp: advances_def)
  then show ?thesis
  proof cases
    case rank
    have "p_stage (d_prog c') \<noteq> Enter" using rank(3) stage_rank_bounds[of "p_stage (d_prog c)"] by auto
    then show ?thesis using rank enter_hit_Next[OF assms] by (auto simp: write_left_def)
  next
    case adv
    have "unat (p_consumed (d_prog c)) + unat (w_win_len (ctx_geo c) (d_prog c)) \<le> unat (p_len (d_prog c))"
      using w g by (simp add: word_le_nat_alt)
    moreover have "0 < unat (w_win_len (ctx_geo c) (d_prog c))" using w(1) g by (simp add: word_less_nat_alt)
    ultimately have "unat (p_len (d_prog c')) - unat (p_consumed (d_prog c')) < unat (p_len (d_prog c)) - unat (p_consumed (d_prog c))"
      using adv w(2) g by simp
    then show ?thesis using adv(3) by (auto simp: write_left_def)
  qed
qed

lemma cow_slot_Next:
  assumes "dw_step c = Next c'" "cow_slot c" "unat (p_slot (d_prog c)) < c_l2_slots (ws_config (d_state c))"
  shows "cow_slot c'"
proof (cases "p_stage (d_prog c)")
  case CowL2Load
  then show ?thesis using assms
    by (auto simp: dw_step_def dw_cow_l2_load_def next_elims Let_def set_stage_def cow_slot_def bound_slot_def w_l1_idx_def w_cur_def split: if_splits)
next
  case CowL2Repoint
  then show ?thesis using assms
    by (auto simp: dw_step_def dw_cow_l2_repoint_def next_elims Let_def set_stage_def cow_slot_def bound_slot_def w_l1_idx_def w_cur_def split: if_splits)
next
  case Enter
  then show ?thesis using assms
    by (auto simp: dw_step_def dw_enter_def next_elims Let_def set_stage_def cow_slot_def split: if_splits option.splits)
next
  case SlotFree
  then show ?thesis using assms
    by (auto simp: dw_step_def dw_slot_free_def next_elims Let_def set_stage_def cow_slot_def split: if_splits)
next
  case SlotReady
  then show ?thesis using assms
    by (auto simp: dw_step_def dw_slot_ready_def next_elims Let_def set_stage_def cow_slot_def next_cluster_eq next_prog_def split: if_splits)
qed (use assms in \<open>auto simp: dw_step_def dw_defs next_elims Let_def set_stage_def cow_slot_def next_cluster_eq next_prog_def split: if_splits\<close>)

lemma write_left_stop:
  assumes "dw_step c = Stop BufFull c'" "sb_ok (d_steps c)" "cow_slot c" "unat (p_slot (d_prog c)) < c_l2_slots (ws_config (d_state c))"
  shows "cow_slot c' \<and> (write_left c' < write_left c \<or> write_left c' = write_left c \<and> sb_remaining (d_steps c) = 0)"
proof -
  from dw_step_full[OF assms(2,1)] show ?thesis
  proof
    assume f: "full_stop c c'"
    then have "write_left c' = write_left c"
      by (auto simp: full_stop_def write_left_def slot_hit_def w_l1_idx_def w_cur_def)
    moreover have "cow_slot c'" using f assms(3) by (auto simp: full_stop_def cow_slot_def)
    ultimately show ?thesis using f by (simp add: full_stop_def)
  next
    assume l: "load_stop c c'"
    then have "bound_slot c'" using assms(3,4) by (auto simp: load_stop_def cow_slot_def)
    then show ?thesis using l bound_hit[of c'] by (auto simp: load_stop_def write_left_def cow_slot_def)
  qed
qed

lemma drive_write_progress:
  assumes "ctx_inv H c" "cow_slot c" "drive_write c = Stop BufFull c'"
  shows "cow_slot c' \<and> (write_left c' < write_left c \<or> write_left c' = write_left c \<and> sb_remaining (d_steps c) = 0)"
  using assms
proof (induction c rule: drive_write.induct)
  case (1 c)
  have sl: "unat (p_slot (d_prog c)) < c_l2_slots (ws_config (d_state c))" and b: "sb_ok (d_steps c)"
    using ctx_invD[OF 1(2)] 1(2) by (auto simp: ctx_inv_def write_inv_def prog_ok_def)
  show ?case
  proof (cases "dw_step c")
    case (Next c1)
    have k: "ctx_inv H c1" using dw_step_keeps[OF 1(2)] Next by simp
    have "drive_write c1 = Stop BufFull c'" using 1(4) Next drive_write.simps[of c] by simp
    from 1(1)[OF Next k cow_slot_Next[OF Next 1(3) sl] this] write_left_Next[OF Next] show ?thesis by auto
  next
    case (Stop e c1)
    then have "dw_step c = Stop BufFull c'" using 1(4) drive_write.simps[of c] by simp
    from write_left_stop[OF this b 1(3) sl] show ?thesis .
  qed (use 1(4) drive_write.simps[of c] in auto)
qed

text \<open>The request of a resume point is that of the call.\<close>

lemma dw_step_request: "wlp (\<lambda>c'. p_voff (d_prog c') = p_voff (d_prog c) \<and> p_len (d_prog c') = p_len (d_prog c) \<and> p_data (d_prog c') = p_data (d_prog c)) (dw_step c)"
  unfolding dw_step_def
  by (cases "p_stage (d_prog c)"; simp only: cluster_stage.case; (intro wlp_if)?;
      (unfold dw_defs Let_def)?; (intro wlp_rules)?; (auto simp: set_stage_def next_cluster_eq next_prog_def)?)

lemma drive_write_request: "wlp (\<lambda>c'. p_voff (d_prog c') = p_voff (d_prog c) \<and> p_len (d_prog c') = p_len (d_prog c) \<and> p_data (d_prog c') = p_data (d_prog c)) (drive_write c)"
proof (induction c rule: drive_write.induct)
  case (1 c)
  have "wlp (\<lambda>c'. p_voff (d_prog c') = p_voff (d_prog c) \<and> p_len (d_prog c') = p_len (d_prog c) \<and> p_data (d_prog c') = p_data (d_prog c)) (dw_step c)"
    by (rule dw_step_request)
  then show ?case using 1 by (subst drive_write.simps) (auto split: drive_res.splits)
qed

section \<open>Windows of one request\<close>

definition resume_ctx :: "write_state \<Rightarrow> staged_regions \<Rightarrow> write_progress \<Rightarrow> step_buf \<Rightarrow> drive_ctx" where
  "resume_ctx st sr p b = \<lparr>d_state = pending_zero_clear_all (st\<lparr>ws_pending := Idle\<rparr>), d_staged = sr, d_prog = p, d_steps = b\<rparr>"

text \<open>What is left of the pending request (of a request of \<open>len\<close> bytes when none is pending).\<close>

definition request_left :: "write_state \<Rightarrow> staged_regions \<Rightarrow> u64 \<Rightarrow> nat" where
  "request_left st sr len = (case ws_pending st of PWrite p \<Rightarrow> write_left (resume_ctx st sr p (sb_new [])) | _ \<Rightarrow> unat len * 32 + 25)"

definition cow_pending :: "write_state \<Rightarrow> bool" where
  "cow_pending st \<longleftrightarrow> (\<forall>sr p b. ws_pending st = PWrite p \<longrightarrow> cow_slot (resume_ctx st sr p b))"

text \<open>Whether a call of \<open>plan_write\<close> resumes a request, it is this one.\<close>

definition resumes :: "write_state \<Rightarrow> u64 \<Rightarrow> u64 \<Rightarrow> data_source \<Rightarrow> bool" where
  "resumes st voff len data \<longleftrightarrow> (\<exists>p. ws_pending st = PWrite p \<and> p_voff p = voff \<and> p_len p = len \<and> p_data p = data)"

lemma ctx_cong:
  assumes "d_prog c' = d_prog c" "ws_geometry (d_state c') = ws_geometry (d_state c)" "ws_config (d_state c') = ws_config (d_state c)"
    "ws_l2_slots (d_state c') = ws_l2_slots (d_state c)"
  shows "write_left c' = write_left c" "cow_slot c' = cow_slot c"
  using assms by (simp_all add: write_left_def slot_hit_def find_slot_def cow_slot_def bound_slot_def)

lemma run_write_window:
  assumes inv: "write_inv st sr p (H @ sb_steps b)" and b: "sb_ok b" "0 < sb_remaining b" and cow: "cow_slot (resume_ctx st sr p b)"
    and r: "run_write st sr p b = Some (r, st', sr', b')"
  shows "\<exists>rb. sr' = sr\<lparr>sr_refblocks := rb\<rparr>" "sb_ok b'" "sb_capacity b' = sb_capacity b"
    "\<forall>s\<in>set (sb_steps b'). s \<in> set (sb_steps b) \<or> stages_pointers s"
    "r = Inl BufFull \<Longrightarrow> cow_pending st' \<and> (\<forall>x l. request_left st' x l < write_left (resume_ctx st sr p b)) \<and> resumes st' (p_voff p) (p_len p) (p_data p)"
    "r \<noteq> Inl BufFull \<Longrightarrow> ws_pending st' = Idle" "ws_geometry st' = ws_geometry st" "ws_config st' = ws_config st"
proof -
  let ?c = "resume_ctx st sr p b"
  have w: "ws_inv st" using inv by (auto simp: write_inv_def staging_ok_def)
  note f = pending_clear_facts[OF w]
  have "write_inv (pending_zero_clear_all (st\<lparr>ws_pending := Idle\<rparr>)) sr p (H @ sb_steps b)"
    by (rule write_inv_same[OF inv f(1)]) (use inv slots_own_cong[OF f(2,1)] in \<open>auto simp: write_inv_def\<close>)
  then have ci: "ctx_inv H ?c" using b by (simp add: ctx_inv_def resume_ctx_def)
  have win: "wlp (window_of ?c) (drive_write ?c)" by (rule drive_write_window) (simp add: resume_ctx_def b)
  note req = drive_write_request[of ?c] and set = drive_write_settings[of ?c]
  have idle: "settings (d_state c1) = settings (d_state ?c) \<Longrightarrow> ws_pending (d_state c1) = Idle" for c1
    by (simp add: settings_def resume_ctx_def pending_zero_clear_all_def)
  have same: "settings (d_state c1) = settings (d_state ?c) \<Longrightarrow> ws_geometry (d_state c1) = ws_geometry st \<and> ws_config (d_state c1) = ws_config st" for c1
    by (simp add: settings_def resume_ctx_def pending_zero_clear_all_def)
  have rem: "sb_remaining (d_steps ?c) \<noteq> 0" using b by (simp add: resume_ctx_def)
  have rw: "run_write st sr p b = (case drive_write ?c of Panicked \<Rightarrow> None | Next c \<Rightarrow> None
      | Finished c \<Rightarrow> Some (Inr (sb_emitted (d_steps c) - sb_emitted b), d_state c, d_staged c, d_steps c)
      | Stop e c \<Rightarrow> Some (Inl e, if e = BufFull then (d_state c)\<lparr>ws_pending := PWrite (d_prog c)\<rparr> else d_state c, d_staged c, d_steps c))"
    by (simp add: run_write_def resume_ctx_def)
  have "\<exists>c1. (drive_write ?c = Finished c1 \<or> (\<exists>e. drive_write ?c = Stop e c1)) \<and> sr' = d_staged c1 \<and> b' = d_steps c1"
    using r unfolding rw by (cases "drive_write ?c") (auto split: if_splits)
  then obtain c1 where c1: "drive_write ?c = Finished c1 \<or> (\<exists>e. drive_write ?c = Stop e c1)" "sr' = d_staged c1" "b' = d_steps c1" by blast
  have "window_of ?c c1" using win c1(1) by auto
  then show "\<exists>rb. sr' = sr\<lparr>sr_refblocks := rb\<rparr>" "sb_ok b'" "sb_capacity b' = sb_capacity b"
    "\<forall>s\<in>set (sb_steps b'). s \<in> set (sb_steps b) \<or> stages_pointers s"
    using c1(2,3) by (auto simp: window_of_def resume_ctx_def)
  show "ws_geometry st' = ws_geometry st" "ws_config st' = ws_config st"
    using r rw set same by (auto split: drive_res.splits if_splits)
  show "r \<noteq> Inl BufFull \<Longrightarrow> ws_pending st' = Idle"
    using r rw set idle by (auto split: drive_res.splits if_splits)
  show "cow_pending st' \<and> (\<forall>x l. request_left st' x l < write_left ?c) \<and> resumes st' (p_voff p) (p_len p) (p_data p)" if full: "r = Inl BufFull"
  proof -
    obtain c2 where c2: "drive_write ?c = Stop BufFull c2" "st' = (d_state c2)\<lparr>ws_pending := PWrite (d_prog c2)\<rparr>"
      using r rw full by (auto split: drive_res.splits if_splits)
    have P: "cow_slot c2" "write_left c2 < write_left ?c" using drive_write_progress[OF ci cow c2(1)] rem by auto
    have eq: "write_left (resume_ctx st' x (d_prog c2) y) = write_left c2" "cow_slot (resume_ctx st' x (d_prog c2) y) = cow_slot c2" for x y
      by (rule ctx_cong; simp add: resume_ctx_def c2(2) pending_zero_clear_all_def)+
    show ?thesis using P eq req c2 by (auto simp: cow_pending_def request_left_def resumes_def resume_ctx_def)
  qed
qed

lemma admit_not_full: "admit_write geo voff len data = Some (Inl e) \<Longrightarrow> e \<noteq> BufFull"
  by (auto simp: admit_write_def split: if_splits option.splits data_source.splits)

lemma validate_not_full: "validate_staged st sr b = Some (Inl e) \<Longrightarrow> e \<noteq> BufFull"
  by (auto simp: validate_staged_def Let_def split: if_splits)

definition window_post :: "write_state \<Rightarrow> staged_regions \<Rightarrow> u64 \<Rightarrow> u64 \<Rightarrow> data_source \<Rightarrow> step_buf \<Rightarrow>
    write_error + nat \<Rightarrow> write_state \<Rightarrow> staged_regions \<Rightarrow> step_buf \<Rightarrow> bool" where
  "window_post st sr voff len data b r st' sr' b' \<longleftrightarrow>
     (\<exists>rb. sr' = sr\<lparr>sr_refblocks := rb\<rparr>) \<and> sb_ok b' \<and> sb_capacity b' = sb_capacity b \<and>
     (\<forall>s\<in>set (sb_steps b'). s \<in> set (sb_steps b) \<or> stages_pointers s) \<and> cow_pending st' \<and>
     ws_geometry st' = ws_geometry st \<and> ws_config st' = ws_config st \<and> (\<forall>n. r = Inr n \<longrightarrow> ws_pending st' = Idle) \<and>
     (r = Inl BufFull \<longrightarrow> (\<forall>x. request_left st' x len < request_left st sr len) \<and> resumes st' voff len data)"

lemma window_post_refl:
  "sb_ok b \<Longrightarrow> cow_pending st \<Longrightarrow> e \<noteq> BufFull \<Longrightarrow> window_post st sr voff len data b (Inl e) st sr b"
  "sb_ok b \<Longrightarrow> cow_pending st \<Longrightarrow> ws_pending st = Idle \<Longrightarrow> window_post st sr voff len data b (Inr n) st sr b"
  by (auto simp: window_post_def intro!: exI[of _ "sr_refblocks sr"])

lemma plan_write_window:
  assumes inv: "plan_inv st sr (H @ sb_steps b)" and b: "sb_ok b" "0 < sb_remaining b" and cow: "cow_pending st"
    and r: "plan_write st sr voff len data b = Some (r, st', sr', b')"
  shows "window_post st sr voff len data b r st' sr' b'"
proof -
  have w: "ws_inv st" using inv by (auto simp: plan_inv_def staging_ok_def)
  then have g: "geo_ok (ws_geometry st)" "0 < c_l2_slots (ws_config st)" by (auto simp: ws_inv_def)
  note refl = window_post_refl(1)[OF b(1) cow] window_post_refl(2)[OF b(1) cow]
  have run: "window_post st sr voff len data b r st' sr' b'"
    if "run_write st sr p b = Some (r, st', sr', b')" "write_inv st sr p (H @ sb_steps b)" "cow_slot (resume_ctx st sr p b)"
    "write_left (resume_ctx st sr p b) \<le> request_left st sr len" "p_voff p = voff" "p_len p = len" "p_data p = data" for p
  proof -
    note R = run_write_window[OF that(2) b that(3,1)]
    have "request_left st' x len < request_left st sr len" if "r = Inl BufFull" for x
      using R(5)[OF that] \<open>write_left _ \<le> _\<close> by (meson less_le_trans)
    then show ?thesis using R that(5-) by (cases "r = Inl BufFull") (auto simp: cow_pending_def window_post_def)
  qed
  show ?thesis
  proof (cases "ws_pending st")
    case Idle
    have fresh: "window_post st sr voff len data b r st' sr' b'"
      if a: "admit_write (ws_geometry st) voff len data = Some (Inr (Some p))" and rr: "run_write st sr p b = Some (r, st', sr', b')" for p
    proof (rule run[OF rr])
      have p: "prog_ok st p" "p_stage p = Enter" using admit_write_ok[OF g, of voff len data] a by auto
      show "write_inv st sr p (H @ sb_steps b)" using p inv by (simp add: write_inv_def plan_inv_def hosts_own_def stage_cov_def)
      show q: "p_voff p = voff" "p_len p = len" "p_data p = data"
        using a by (auto simp: admit_write_def split: option.splits if_splits data_source.splits)
      show "cow_slot (resume_ctx st sr p b)" using p by (simp add: cow_slot_def resume_ctx_def)
      show "write_left (resume_ctx st sr p b) \<le> request_left st sr len"
        using p(2) q Idle by (auto simp: request_left_def write_left_def resume_ctx_def intro!: add_mono)
    qed
    show ?thesis using r Idle refl fresh unfolding plan_write_def
      by (auto dest: admit_not_full validate_not_full split: option.splits sum.splits)
  next
    case (PWrite p)
    then have i: "write_inv st sr p (H @ sb_steps b)" "cow_slot (resume_ctx st sr p b)" using inv cow by (auto simp: plan_inv_def cow_pending_def)
    have l: "write_left (resume_ctx st sr p b) \<le> request_left st sr len" using PWrite ctx_cong(1)[of "resume_ctx st sr p b" "resume_ctx st sr p (sb_new [])"]
      by (simp add: request_left_def resume_ctx_def)
    show ?thesis using r PWrite refl run[OF _ i l] unfolding plan_write_def
      by (auto dest: validate_not_full split: option.splits sum.splits if_splits)
  next
    case (PFlush p)
    then show ?thesis using r refl unfolding plan_write_def by (auto simp: Let_def)
  qed
qed

end
