(* ===== verification/Step_Exec.thy ===== *)
theory Step_Exec
  imports Write_Types
begin

text \<open>
  The step executor (\<^verbatim>\<open>qcow2-write-exec/src/lib.rs\<close>): regions resolved to byte windows with bounds
  checks, byte ranges split into whole sectors with read-modify-write at the edges, and one action per
  step kind.  The device is an interface (\<open>device_io\<close>, the trait \<^verbatim>\<open>DeviceIo\<close>) whose state is a type
  variable; \<open>call_table_device\<close> is the guest's implementation over the host call table.
\<close>

section \<open>Causes, errors and statistics\<close>

datatype exec_cause = ReadFailed | WriteFailed | FsyncFailed | RegionBounds | UnknownSlot | Geometry
  | Overflow | StepContract

fun exec_cause_code :: "exec_cause \<Rightarrow> u32" where
  "exec_cause_code ReadFailed = 1"
| "exec_cause_code WriteFailed = 2"
| "exec_cause_code FsyncFailed = 3"
| "exec_cause_code RegionBounds = 4"
| "exec_cause_code UnknownSlot = 5"
| "exec_cause_code Geometry = 6"
| "exec_cause_code Overflow = 7"
| "exec_cause_code StepContract = 8"

record exec_error =
  ee_step_index :: nat
  ee_cause :: exec_cause

record exec_stats =
  es_steps_executed :: u64
  es_fsyncs :: u64

section \<open>Devices\<close>

text \<open>The trait \<^verbatim>\<open>DeviceIo\<close>: a \<^verbatim>\<open>&mut\<close> buffer is passed in and returned.\<close>

record 'd device_io =
  io_sector_size :: "'d \<Rightarrow> target_device \<Rightarrow> nat"
  io_read_sector :: "'d \<Rightarrow> target_device \<Rightarrow> u64 \<Rightarrow> bytes \<Rightarrow> bool \<times> bytes \<times> 'd"
  io_write_sector :: "'d \<Rightarrow> target_device \<Rightarrow> u64 \<Rightarrow> bytes \<Rightarrow> bool \<times> 'd"
  io_fsync :: "'d \<Rightarrow> target_device \<Rightarrow> bool option \<times> 'd"

text \<open>The entry points of the host call table that the executor calls; their code runs outside the guest
  operation, so they are parameters acting on a world \<open>'w\<close>.\<close>

record 'w call_table =
  read_input_sector :: "'w \<Rightarrow> u32 \<Rightarrow> u64 \<Rightarrow> bytes \<Rightarrow> bool \<times> bytes \<times> 'w"
  write_input_sector :: "'w \<Rightarrow> u32 \<Rightarrow> u64 \<Rightarrow> bytes \<Rightarrow> bool \<times> 'w"
  read_output_sector :: "'w \<Rightarrow> u64 \<Rightarrow> bytes \<Rightarrow> bool \<times> bytes \<times> 'w"
  write_output_sector :: "'w \<Rightarrow> u64 \<Rightarrow> bytes \<Rightarrow> bool \<times> 'w"
  fsync_input :: "'w \<Rightarrow> u32 \<Rightarrow> bool \<times> 'w"
  get_input_sector_size :: "u32 \<Rightarrow> nat"
  get_output_sector_size :: nat

record 'w call_table_io =
  ci_call_table :: "'w call_table"
  ci_input_sector_size :: nat
  ci_output_sector_size :: nat
  ci_input_fsync :: bool

definition call_table_io_new :: "'w call_table \<Rightarrow> bool \<Rightarrow> 'w call_table_io" where
  "call_table_io_new ct input_fsync = \<lparr>ci_call_table = ct, ci_input_sector_size = get_input_sector_size ct 0,
     ci_output_sector_size = get_output_sector_size ct, ci_input_fsync = input_fsync\<rparr>"

definition ci_sector_size :: "'w call_table_io \<Rightarrow> target_device \<Rightarrow> nat" where
  "ci_sector_size self device = (case device of Input0 \<Rightarrow> ci_input_sector_size self | Output \<Rightarrow> ci_output_sector_size self)"

definition ci_read_sector :: "'w call_table_io \<Rightarrow> 'w \<Rightarrow> target_device \<Rightarrow> u64 \<Rightarrow> bytes \<Rightarrow> bool \<times> bytes \<times> 'w" where
  "ci_read_sector self w device sector buf =
     (if length buf \<noteq> ci_sector_size self device then (False, buf, w)
      else case device of
        Input0 \<Rightarrow> read_input_sector (ci_call_table self) w 0 sector buf
      | Output \<Rightarrow> read_output_sector (ci_call_table self) w sector buf)"

definition ci_write_sector :: "'w call_table_io \<Rightarrow> 'w \<Rightarrow> target_device \<Rightarrow> u64 \<Rightarrow> bytes \<Rightarrow> bool \<times> 'w" where
  "ci_write_sector self w device sector buf =
     (if length buf \<noteq> ci_sector_size self device then (False, w)
      else case device of
        Input0 \<Rightarrow> write_input_sector (ci_call_table self) w 0 sector buf
      | Output \<Rightarrow> write_output_sector (ci_call_table self) w sector buf)"

definition ci_fsync :: "'w call_table_io \<Rightarrow> 'w \<Rightarrow> target_device \<Rightarrow> bool option \<times> 'w" where
  "ci_fsync self w device =
     (if device = Input0 \<and> ci_input_fsync self then
        let (ok, w') = fsync_input (ci_call_table self) w 0 in (Some ok, w')
      else (None, w))"

definition call_table_device :: "'w call_table_io \<Rightarrow> 'w device_io" where
  "call_table_device self = \<lparr>io_sector_size = (\<lambda>w. ci_sector_size self), io_read_sector = ci_read_sector self,
     io_write_sector = ci_write_sector self, io_fsync = ci_fsync self\<rparr>"

section \<open>Regions\<close>

record regions =
  rg_l1 :: bytes
  rg_l2_window :: bytes
  rg_refcount_table :: bytes
  rg_refblocks :: bytes
  rg_bounce :: bytes
  rg_caller_data :: bytes
  rg_rmw_sector :: bytes
  rg_fill_sector :: bytes
  rg_cluster_size :: nat

fun region_buf :: "regions \<Rightarrow> region_id \<Rightarrow> bytes" where
  "region_buf rg RL1 = rg_l1 rg"
| "region_buf rg (RL2Slot v) = rg_l2_window rg"
| "region_buf rg RRefcountTable = rg_refcount_table rg"
| "region_buf rg RRefblocks = rg_refblocks rg"
| "region_buf rg RBounce = rg_bounce rg"
| "region_buf rg RCallerData = rg_caller_data rg"

fun region_put :: "region_id \<Rightarrow> bytes \<Rightarrow> regions \<Rightarrow> regions" where
  "region_put RL1 b rg = rg\<lparr>rg_l1 := b\<rparr>"
| "region_put (RL2Slot v) b rg = rg\<lparr>rg_l2_window := b\<rparr>"
| "region_put RRefcountTable b rg = rg\<lparr>rg_refcount_table := b\<rparr>"
| "region_put RRefblocks b rg = rg\<lparr>rg_refblocks := b\<rparr>"
| "region_put RBounce b rg = rg\<lparr>rg_bounce := b\<rparr>"
| "region_put RCallerData b rg = rg\<lparr>rg_caller_data := b\<rparr>"

text \<open>\<open>resolve\<close> yields where the window starts in the buffer of the region; \<^verbatim>\<open>usize\<close> is 64 bits wide, so
  the conversions from \<^verbatim>\<open>u64\<close> cannot fail.\<close>

definition resolve :: "regions \<Rightarrow> region_id \<Rightarrow> u64 \<Rightarrow> u64 \<Rightarrow> exec_cause + nat" where
  "resolve rg region region_offset len =
     (let cs = rg_cluster_size rg in
      bind_res (case region of
          RL2Slot slot \<Rightarrow>
            if cs = 0 \<or> \<not> cs dvd length (rg_l2_window rg) then Inl Geometry
            else if length (rg_l2_window rg) div cs \<le> unat slot then Inl UnknownSlot
            else Inr (unat slot * cs, cs)
        | _ \<Rightarrow> Inr (0, length (region_buf rg region)))
      (\<lambda>(base, window).
         case checked_add region_offset len of
           None \<Rightarrow> Inl Overflow
         | Some end_off \<Rightarrow> if window < unat end_off then Inl RegionBounds else Inr (base + unat region_offset)))"

section \<open>Byte ranges over sectors\<close>

text \<open>\<open>n\<close> is the number of bytes to transfer and \<open>pos\<close> the number already done (\<^verbatim>\<open>done\<close>); the callers
  exclude a zero sector size.\<close>

definition read_chunk :: "'d device_io \<Rightarrow> target_device \<Rightarrow> nat \<Rightarrow> nat \<Rightarrow> nat \<Rightarrow> nat \<Rightarrow> u64 \<Rightarrow> bytes \<Rightarrow> bytes \<Rightarrow> 'd \<Rightarrow>
    bool \<times> bytes \<times> bytes \<times> 'd" where
  "read_chunk io device ssz pos in_off tk sector dst bounce d =
     (if in_off = 0 \<and> tk = ssz then
        let (ok, buf, d') = io_read_sector io d device sector (slice_at pos ssz dst)
        in (ok, splice_at pos buf dst, bounce, d')
      else
        let (ok, buf, d') = io_read_sector io d device sector bounce
        in (ok, if ok then splice_at pos (slice_at in_off tk buf) dst else dst, buf, d'))"

function read_loop :: "'d device_io \<Rightarrow> target_device \<Rightarrow> nat \<Rightarrow> nat \<Rightarrow> nat \<Rightarrow> u64 \<Rightarrow> bytes \<Rightarrow> bytes \<Rightarrow> 'd \<Rightarrow>
    (exec_cause + unit) \<times> bytes \<times> bytes \<times> 'd" where
  "read_loop io device ssz n pos cur dst bounce d =
     (if n \<le> pos \<or> ssz = 0 then (Inr (), dst, bounce, d)
      else
        let sector = of_nat (unat cur div ssz); in_off = unat cur mod ssz;
            tk = min (ssz - in_off) (n - pos);
            (ok, dst1, bounce1, d1) = read_chunk io device ssz pos in_off tk sector dst bounce d
        in if \<not> ok then (Inl ReadFailed, dst1, bounce1, d1)
           else case checked_add cur (of_nat tk) of
             None \<Rightarrow> (Inl Overflow, dst1, bounce1, d1)
           | Some cur' \<Rightarrow> read_loop io device ssz n (pos + tk) cur' dst1 bounce1 d1)"
  by pat_completeness auto
termination
  by (relation "measure (\<lambda>(io, device, ssz, n, pos, cur, dst, bounce, d). n - pos)") (auto intro!: diff_less_mono2)

definition read_bytes :: "'d device_io \<Rightarrow> target_device \<Rightarrow> u64 \<Rightarrow> bytes \<Rightarrow> bytes \<Rightarrow> 'd \<Rightarrow>
    (exec_cause + unit) \<times> bytes \<times> bytes \<times> 'd" where
  "read_bytes io device disk_offset dst rmw d =
     (if dst = [] then (Inr (), dst, rmw, d)
      else let ssz = io_sector_size io d device in
        if ssz = 0 \<or> length rmw < ssz then (Inl Geometry, dst, rmw, d)
        else let (r, dst', bounce', d') = read_loop io device ssz (length dst) 0 disk_offset dst (take ssz rmw) d
          in (r, dst', bounce' @ drop ssz rmw, d'))"

definition write_chunk :: "'d device_io \<Rightarrow> target_device \<Rightarrow> nat \<Rightarrow> nat \<Rightarrow> nat \<Rightarrow> nat \<Rightarrow> u64 \<Rightarrow> bytes \<Rightarrow> bytes \<Rightarrow> 'd \<Rightarrow>
    (exec_cause + unit) \<times> bytes \<times> 'd" where
  "write_chunk io device ssz pos in_off tk sector src bounce d =
     (if in_off = 0 \<and> tk = ssz then
        let (ok, d') = io_write_sector io d device sector (slice_at pos ssz src)
        in (if ok then Inr () else Inl WriteFailed, bounce, d')
      else
        let (ok, buf, d1) = io_read_sector io d device sector bounce in
        if \<not> ok then (Inl ReadFailed, buf, d1)
        else let buf1 = splice_at in_off (slice_at pos tk src) buf;
                 (ok2, d2) = io_write_sector io d1 device sector buf1
             in (if ok2 then Inr () else Inl WriteFailed, buf1, d2))"

function write_loop :: "'d device_io \<Rightarrow> target_device \<Rightarrow> nat \<Rightarrow> nat \<Rightarrow> u64 \<Rightarrow> bytes \<Rightarrow> bytes \<Rightarrow> 'd \<Rightarrow>
    (exec_cause + unit) \<times> bytes \<times> 'd" where
  "write_loop io device ssz pos cur src bounce d =
     (if length src \<le> pos \<or> ssz = 0 then (Inr (), bounce, d)
      else
        let sector = of_nat (unat cur div ssz); in_off = unat cur mod ssz;
            tk = min (ssz - in_off) (length src - pos);
            (r, bounce1, d1) = write_chunk io device ssz pos in_off tk sector src bounce d
        in case r of
             Inl e \<Rightarrow> (Inl e, bounce1, d1)
           | Inr _ \<Rightarrow>
               (case checked_add cur (of_nat tk) of
                  None \<Rightarrow> (Inl Overflow, bounce1, d1)
                | Some cur' \<Rightarrow> write_loop io device ssz (pos + tk) cur' src bounce1 d1))"
  by pat_completeness auto
termination
  by (relation "measure (\<lambda>(io, device, ssz, pos, cur, src, bounce, d). length src - pos)") (auto intro!: diff_less_mono2)

definition write_bytes :: "'d device_io \<Rightarrow> target_device \<Rightarrow> u64 \<Rightarrow> bytes \<Rightarrow> bytes \<Rightarrow> 'd \<Rightarrow>
    (exec_cause + unit) \<times> bytes \<times> 'd" where
  "write_bytes io device disk_offset src rmw d =
     (if src = [] then (Inr (), rmw, d)
      else let ssz = io_sector_size io d device in
        if ssz = 0 \<or> length rmw < ssz then (Inl Geometry, rmw, d)
        else let (r, bounce', d') = write_loop io device ssz 0 disk_offset src (take ssz rmw) d
          in (r, bounce' @ drop ssz rmw, d'))"

lemma fill_chunk:
  fixes pos len :: u64
  assumes "\<not> len \<le> pos" "0 < ssz"
  shows "unat (pos + of_nat (min (unat (len - pos)) ssz)) = unat pos + min (unat (len - pos)) ssz"
    "0 < min (unat (len - pos)) ssz" "unat pos + min (unat (len - pos)) ssz \<le> unat len" "unat (len - pos) = unat len - unat pos"
proof -
  let ?c = "min (unat (len - pos)) ssz"
  have le: "pos \<le> len" "unat pos < unat len" using assms(1) by (auto simp: word_less_nat_alt[symmetric] not_le)
  then show d: "unat (len - pos) = unat len - unat pos" by (simp add: unat_sub)
  show c: "0 < ?c" "unat pos + ?c \<le> unat len" using assms(2) d le by (auto simp: min_def)
  have "unat (of_nat ?c :: u64) = ?c" using c(2) unat_u64_less[of len] by (simp add: unat_of_nat)
  then show "unat (pos + of_nat ?c) = unat pos + ?c" using c(2) unat_u64_less[of len] by (simp add: unat_add_small)
qed

function fill_loop :: "'d device_io \<Rightarrow> target_device \<Rightarrow> nat \<Rightarrow> u64 \<Rightarrow> u64 \<Rightarrow> u64 \<Rightarrow> bytes \<Rightarrow> bytes \<Rightarrow> 'd \<Rightarrow>
    (exec_cause + unit) \<times> bytes \<times> 'd" where
  "fill_loop io device ssz pos disk_offset len fill rmw d =
     (if len \<le> pos \<or> ssz = 0 then (Inr (), rmw, d)
      else
        let chunk = min (unat (len - pos)) ssz in
        case checked_add disk_offset pos of
          None \<Rightarrow> (Inl Overflow, rmw, d)
        | Some off \<Rightarrow>
            (case write_bytes io device off (take chunk fill) rmw d of
               (Inl e, rmw1, d1) \<Rightarrow> (Inl e, rmw1, d1)
             | (Inr _, rmw1, d1) \<Rightarrow> fill_loop io device ssz (pos + of_nat chunk) disk_offset len fill rmw1 d1))"
  by pat_completeness auto
termination
  by (relation "measure (\<lambda>(io, device, ssz, pos, disk_offset, len, fill, rmw, d). unat len - unat pos)")
    (auto simp: fill_chunk word_less_nat_alt not_le intro!: diff_less_mono2)

declare read_loop.simps [simp del] write_loop.simps [simp del] fill_loop.simps [simp del]

definition fill_bytes :: "'d device_io \<Rightarrow> target_device \<Rightarrow> u64 \<Rightarrow> u64 \<Rightarrow> 8 word \<Rightarrow> bytes \<Rightarrow> bytes \<Rightarrow> 'd \<Rightarrow>
    (exec_cause + unit) \<times> bytes \<times> bytes \<times> 'd" where
  "fill_bytes io device disk_offset len byte fill_sector rmw d =
     (if len = 0 then (Inr (), fill_sector, rmw, d)
      else let ssz = io_sector_size io d device in
        if ssz = 0 \<or> length fill_sector < ssz \<or> length rmw < ssz then (Inl Geometry, fill_sector, rmw, d)
        else let fill = replicate ssz byte @ drop ssz fill_sector;
                 (r, rmw', d') = fill_loop io device ssz 0 disk_offset len fill rmw d
          in (r, fill, rmw', d'))"

section \<open>Steps\<close>

text \<open>Device to region, and region to device.\<close>

definition exec_read :: "'d device_io \<Rightarrow> step \<Rightarrow> regions \<Rightarrow> 'd \<Rightarrow> (exec_cause + unit) \<times> regions \<times> 'd" where
  "exec_read io s rg d =
     (case resolve rg (s_region s) (s_region_offset s) (s_len s) of
        Inl e \<Rightarrow> (Inl e, rg, d)
      | Inr start \<Rightarrow>
          let buf = region_buf rg (s_region s);
              (r, dst, rmw, d') = read_bytes io (s_device s) (s_disk_offset s) (slice_at start (unat (s_len s)) buf) (rg_rmw_sector rg) d
          in (r, (region_put (s_region s) (splice_at start dst buf) rg)\<lparr>rg_rmw_sector := rmw\<rparr>, d'))"

definition exec_write :: "'d device_io \<Rightarrow> step \<Rightarrow> regions \<Rightarrow> 'd \<Rightarrow> (exec_cause + unit) \<times> regions \<times> 'd" where
  "exec_write io s rg d =
     (case resolve rg (s_region s) (s_region_offset s) (s_len s) of
        Inl e \<Rightarrow> (Inl e, rg, d)
      | Inr start \<Rightarrow>
          let (r, rmw, d') = write_bytes io (s_device s) (s_disk_offset s)
                (slice_at start (unat (s_len s)) (region_buf rg (s_region s))) (rg_rmw_sector rg) d
          in (r, rg\<lparr>rg_rmw_sector := rmw\<rparr>, d'))"

definition exec_fill :: "'d device_io \<Rightarrow> step \<Rightarrow> 8 word \<Rightarrow> regions \<Rightarrow> 'd \<Rightarrow> (exec_cause + unit) \<times> regions \<times> 'd" where
  "exec_fill io s byte rg d =
     (let (r, fill, rmw, d') = fill_bytes io (s_device s) (s_disk_offset s) (s_len s) byte (rg_fill_sector rg) (rg_rmw_sector rg) d
      in (r, rg\<lparr>rg_rmw_sector := rmw, rg_fill_sector := fill\<rparr>, d'))"

text \<open>The whole-cluster contract of \<^verbatim>\<open>LoadCluster\<close> and \<^verbatim>\<open>WritebackCluster\<close>.\<close>

definition cluster_contract :: "step \<Rightarrow> regions \<Rightarrow> exec_cause + unit" where
  "cluster_contract s rg =
     (if rg_cluster_size rg = 0 then Inl Geometry
      else if unat (s_len s) \<noteq> rg_cluster_size rg then Inl StepContract
      else Inr ())"

definition exec_step :: "'d device_io \<Rightarrow> step \<Rightarrow> regions \<Rightarrow> 'd \<Rightarrow> exec_stats \<Rightarrow>
    (exec_cause + unit) \<times> regions \<times> 'd \<times> exec_stats" where
  "exec_step io s rg d stats =
     (let run = (\<lambda>(r, rg', d'). (r, rg', d', stats)) in
      case s_kind s of
        ReadCluster \<Rightarrow> run (exec_read io s rg d)
      | WriteRange \<Rightarrow> run (exec_write io s rg d)
      | ZeroRange \<Rightarrow> run (exec_fill io s 0 rg d)
      | FillRange \<Rightarrow> run (exec_fill io s (ucast (s_value s)) rg d)
      | PatchEntryU64 \<Rightarrow>
          (case resolve rg (s_region s) (s_region_offset s) 8 of
             Inl e \<Rightarrow> (Inl e, rg, d, stats)
           | Inr start \<Rightarrow> (Inr (), region_put (s_region s)
                 (splice_at start (u64_to_be (s_value s)) (region_buf rg (s_region s))) rg, d, stats))
      | LoadCluster \<Rightarrow>
          (case cluster_contract s rg of Inl e \<Rightarrow> (Inl e, rg, d, stats) | Inr _ \<Rightarrow> run (exec_read io s rg d))
      | WritebackCluster \<Rightarrow>
          (case cluster_contract s rg of Inl e \<Rightarrow> (Inl e, rg, d, stats) | Inr _ \<Rightarrow> run (exec_write io s rg d))
      | ZeroRegion \<Rightarrow>
          (case resolve rg (s_region s) (s_region_offset s) (s_len s) of
             Inl e \<Rightarrow> (Inl e, rg, d, stats)
           | Inr start \<Rightarrow> (Inr (), region_put (s_region s)
                 (splice_at start (replicate (unat (s_len s)) 0) (region_buf rg (s_region s))) rg, d, stats))
      | Barrier Ordering \<Rightarrow> (Inr (), rg, d, stats)
      | Barrier Durability \<Rightarrow>
          (case io_fsync io d (s_device s) of
             (None, d') \<Rightarrow> (Inr (), rg, d', stats)
           | (Some True, d') \<Rightarrow> (Inr (), rg, d', stats\<lparr>es_fsyncs := es_fsyncs stats + 1\<rparr>)
           | (Some False, d') \<Rightarrow> (Inl FsyncFailed, rg, d', stats)))"

fun execute_from :: "'d device_io \<Rightarrow> nat \<Rightarrow> step list \<Rightarrow> regions \<Rightarrow> 'd \<Rightarrow> exec_stats \<Rightarrow>
    (exec_error + exec_stats) \<times> regions \<times> 'd" where
  "execute_from io i [] rg d stats = (Inr stats, rg, d)"
| "execute_from io i (s # ss) rg d stats =
     (case exec_step io s rg d stats of
        (Inl cause, rg', d', stats') \<Rightarrow> (Inl \<lparr>ee_step_index = i, ee_cause = cause\<rparr>, rg', d')
      | (Inr _, rg', d', stats') \<Rightarrow>
          execute_from io (Suc i) ss rg' d' (stats'\<lparr>es_steps_executed := es_steps_executed stats' + 1\<rparr>))"

definition execute :: "'d device_io \<Rightarrow> step list \<Rightarrow> regions \<Rightarrow> 'd \<Rightarrow> (exec_error + exec_stats) \<times> regions \<times> 'd" where
  "execute io steps rg d = execute_from io 0 steps rg d \<lparr>es_steps_executed = 0, es_fsyncs = 0\<rparr>"

end
