(* ===== verification/Step_Refine.thy ===== *)
theory Step_Refine
  imports Step_Exec
begin

text \<open>
  The executor implements the step contracts.  \<open>apply_step\<close> states what each step kind promises, over
  regions and flat disks.  The locale \<open>sector_disk\<close> says what a sector device promises; inside it the
  byte-range layer is exact and a successful execution is the fold of the contracts.  The locale
  \<open>healthy_disk\<close> adds that sectors inside the capacity can be transferred; there every step whose window
  and disk range exist succeeds.  Both are shown for \<open>call_table_device\<close> over any call table that behaves as
  documented, and interpreted on a table over byte vectors.
\<close>

section \<open>The step contracts on flat disks\<close>

definition overwrite :: "nat \<Rightarrow> bytes \<Rightarrow> (nat \<Rightarrow> 8 word) \<Rightarrow> nat \<Rightarrow> 8 word" where
  "overwrite off src m = (\<lambda>x. if off \<le> x \<and> x < off + length src then src ! (x - off) else m x)"

definition bytes_at :: "(nat \<Rightarrow> 8 word) \<Rightarrow> nat \<Rightarrow> nat \<Rightarrow> bytes" where
  "bytes_at m off n = map m [off..<off + n]"

definition region_start :: "regions \<Rightarrow> region_id \<Rightarrow> nat" where
  "region_start rg region = (case region of RL2Slot v \<Rightarrow> unat v * rg_cluster_size rg | _ \<Rightarrow> 0)"

text \<open>What each step kind promises, with the disks as functions from byte offsets to bytes.\<close>

definition apply_step :: "step \<Rightarrow> regions \<times> (target_device \<Rightarrow> nat \<Rightarrow> 8 word) \<Rightarrow> regions \<times> (target_device \<Rightarrow> nat \<Rightarrow> 8 word)" where
  "apply_step s rm = (let (rg, m) = rm;
       buf = region_buf rg (s_region s); start = region_start rg (s_region s) + unat (s_region_offset s);
       n = unat (s_len s); off = unat (s_disk_offset s); dev = s_device s;
       put = (\<lambda>b. (region_put (s_region s) (splice_at start b buf) rg, m));
       wr = (\<lambda>b. (rg, m(dev := overwrite off b (m dev)))) in
     case s_kind s of
       ReadCluster \<Rightarrow> put (bytes_at (m dev) off n)
     | LoadCluster \<Rightarrow> put (bytes_at (m dev) off n)
     | WriteRange \<Rightarrow> wr (slice_at start n buf)
     | WritebackCluster \<Rightarrow> wr (slice_at start n buf)
     | ZeroRange \<Rightarrow> wr (replicate n 0)
     | FillRange \<Rightarrow> wr (replicate n (ucast (s_value s)))
     | PatchEntryU64 \<Rightarrow> put (u64_to_be (s_value s))
     | ZeroRegion \<Rightarrow> put (replicate n 0)
     | Barrier c \<Rightarrow> (rg, m))"

text \<open>The regions without the service buffers of the executor.\<close>

definition plain :: "regions \<Rightarrow> regions" where
  "plain rg = rg\<lparr>rg_rmw_sector := [], rg_fill_sector := []\<rparr>"

lemma length_bytes_at [simp]: "length (bytes_at m off n) = n"
  by (simp add: bytes_at_def)

lemma bytes_at_add: "bytes_at m off (a + b) = bytes_at m off a @ bytes_at m (off + a) b"
  unfolding bytes_at_def map_append[symmetric] add.assoc[symmetric] by (rule arg_cong[of _ _ "map m"]) (rule upt_add_eq_append, simp)

lemma slice_bytes_at: "a + k \<le> n \<Longrightarrow> slice_at a k (bytes_at m off n) = bytes_at m (off + a) k"
  by (rule nth_equalityI) (simp_all add: bytes_at_def slice_at_def add.assoc)

lemma overwrite_append: "overwrite off (xs @ ys) m = overwrite (off + length xs) ys (overwrite off xs m)"
  by (rule ext) (auto simp: overwrite_def nth_append)

lemma overwrite_Nil [simp]: "overwrite off [] m = m"
  by (rule ext) (auto simp: overwrite_def)

lemma overwrite_splice:
  assumes "a + length src \<le> n"
  shows "overwrite off (splice_at a src (bytes_at m off n)) m = overwrite (off + a) src m"
proof
  fix x
  have len: "length (splice_at a src (bytes_at m off n)) = n" using assms by (simp add: splice_at_def)
  have "splice_at a src (bytes_at m off n) ! i = (if a \<le> i \<and> i < a + length src then src ! (i - a) else m (off + i))" if "i < n" for i
    using assms that by (auto simp: nth_splice_at bytes_at_def)
  then show "overwrite off (splice_at a src (bytes_at m off n)) m x = overwrite (off + a) src m x"
    using assms by (auto simp: overwrite_def len)
qed

lemma resolve_Inr:
  assumes "resolve rg region off len = Inr start"
  shows "start = region_start rg region + unat off" "start + unat len \<le> length (region_buf rg region)"
    "\<And>v. region = RL2Slot v \<Longrightarrow> unat off + unat len \<le> rg_cluster_size rg"
proof -
  have A: "\<exists>base window e. (case region of
          RL2Slot slot \<Rightarrow>
            if rg_cluster_size rg = 0 \<or> \<not> rg_cluster_size rg dvd length (rg_l2_window rg) then Inl Geometry
            else if length (rg_l2_window rg) div rg_cluster_size rg \<le> unat slot then Inl UnknownSlot
            else Inr (unat slot * rg_cluster_size rg, rg_cluster_size rg)
        | _ \<Rightarrow> Inr (0, length (region_buf rg region))) = Inr (base, window) \<and>
      checked_add off len = Some e \<and> unat e \<le> window \<and> start = base + unat off"
    using assms by (auto simp: resolve_def Let_def bind_res_Inr not_less split: option.splits if_splits)
  then obtain base window e where B: "(case region of
          RL2Slot slot \<Rightarrow>
            if rg_cluster_size rg = 0 \<or> \<not> rg_cluster_size rg dvd length (rg_l2_window rg) then Inl Geometry
            else if length (rg_l2_window rg) div rg_cluster_size rg \<le> unat slot then Inl UnknownSlot
            else Inr (unat slot * rg_cluster_size rg, rg_cluster_size rg)
        | _ \<Rightarrow> Inr (0, length (region_buf rg region))) = Inr (base, window)"
      "checked_add off len = Some e" "unat e \<le> window" "start = base + unat off" by blast
  have e: "unat off + unat len \<le> window" using B(2,3) by (auto simp: checked_add_Some unat_add_small)
  have slot: "unat v * rg_cluster_size rg + rg_cluster_size rg \<le> length (rg_l2_window rg)"
    if "unat v < length (rg_l2_window rg) div rg_cluster_size rg" for v :: u16
  proof -
    have "Suc (unat v) * rg_cluster_size rg \<le> length (rg_l2_window rg) div rg_cluster_size rg * rg_cluster_size rg"
      using that by (intro mult_le_mono1) simp
    also have "\<dots> \<le> length (rg_l2_window rg)" by simp
    finally show ?thesis by simp
  qed
  have "(\<exists>v. region = RL2Slot v \<and> unat v < length (rg_l2_window rg) div rg_cluster_size rg \<and>
        base = unat v * rg_cluster_size rg \<and> window = rg_cluster_size rg) \<or>
      (\<forall>v. region \<noteq> RL2Slot v) \<and> base = 0 \<and> window = length (region_buf rg region)"
    using B(1) by (cases region) (auto simp: not_le split: if_splits)
  note D = this
  have "region_start rg region = base" using D by (cases region) (auto simp: region_start_def)
  then show "start = region_start rg region + unat off" using B(4) by simp
  have "base + window \<le> length (region_buf rg region)" using D slot by auto
  then show "start + unat len \<le> length (region_buf rg region)" using B(4) e by simp
  show "\<And>v. region = RL2Slot v \<Longrightarrow> unat off + unat len \<le> rg_cluster_size rg" using D e by auto
qed

lemma plain_simps [simp]:
  "region_buf (plain rg) r = region_buf rg r" "region_start (plain rg) r = region_start rg r"
  "region_put r b (plain rg) = plain (region_put r b rg)" "plain (rg\<lparr>rg_rmw_sector := x\<rparr>) = plain rg"
  "plain (rg\<lparr>rg_rmw_sector := x, rg_fill_sector := y\<rparr>) = plain rg"
  by (cases r; simp add: plain_def region_start_def)+

lemma region_put_simps [simp]:
  "rg_cluster_size (region_put r b rg) = rg_cluster_size rg" "rg_rmw_sector (region_put r b rg) = rg_rmw_sector rg"
  "rg_fill_sector (region_put r b rg) = rg_fill_sector rg" "region_buf (region_put r b rg) r = b"
  by (cases r; simp)+

text \<open>The sizes of the regions; \<open>resolve\<close> and the contracts depend on nothing else.\<close>

definition same_shape :: "regions \<Rightarrow> regions \<Rightarrow> bool" where
  "same_shape rg rg' \<longleftrightarrow> (\<forall>r. length (region_buf rg' r) = length (region_buf rg r)) \<and>
     length (rg_rmw_sector rg') = length (rg_rmw_sector rg) \<and> length (rg_fill_sector rg') = length (rg_fill_sector rg) \<and>
     rg_cluster_size rg' = rg_cluster_size rg"

lemma same_shape_trans: "same_shape a b \<Longrightarrow> same_shape b c \<Longrightarrow> same_shape a c"
  by (simp add: same_shape_def)

lemma same_shape_put: "length b = length (region_buf rg r) \<Longrightarrow> same_shape rg (region_put r b rg)"
proof -
  assume "length b = length (region_buf rg r)"
  then have "length (region_buf (region_put r b rg) q) = length (region_buf rg q)" for q by (cases r; cases q; simp)
  then show ?thesis by (simp add: same_shape_def)
qed

lemma same_shape_service:
  "length x = length (rg_rmw_sector rg) \<Longrightarrow> same_shape rg' rg \<Longrightarrow> same_shape rg' (rg\<lparr>rg_rmw_sector := x\<rparr>)"
  "length x = length (rg_rmw_sector rg) \<Longrightarrow> length y = length (rg_fill_sector rg) \<Longrightarrow>
     same_shape rg' rg \<Longrightarrow> same_shape rg' (rg\<lparr>rg_rmw_sector := x, rg_fill_sector := y\<rparr>)"
proof -
  have b: "region_buf (rg\<lparr>rg_rmw_sector := x\<rparr>) r = region_buf rg r" for r x by (cases r) simp_all
  have b2: "region_buf (rg\<lparr>rg_rmw_sector := x, rg_fill_sector := y\<rparr>) r = region_buf rg r" for r by (cases r) simp_all
  show "length x = length (rg_rmw_sector rg) \<Longrightarrow> same_shape rg' rg \<Longrightarrow> same_shape rg' (rg\<lparr>rg_rmw_sector := x\<rparr>)"
    by (simp add: same_shape_def b)
  show "length x = length (rg_rmw_sector rg) \<Longrightarrow> length y = length (rg_fill_sector rg) \<Longrightarrow>
     same_shape rg' rg \<Longrightarrow> same_shape rg' (rg\<lparr>rg_rmw_sector := x, rg_fill_sector := y\<rparr>)"
    by (simp add: same_shape_def b2)
qed

lemma resolve_shape: "same_shape rg rg' \<Longrightarrow> resolve rg' region off len = resolve rg region off len"
proof -
  assume s: "same_shape rg rg'"
  have "length (rg_l2_window rg') = length (rg_l2_window rg)"
    using spec[OF conjunct1[OF s[unfolded same_shape_def]], of "RL2Slot 0"] by simp
  note w = this
  have lb: "length (region_buf rg' region) = length (region_buf rg region)" and cs: "rg_cluster_size rg' = rg_cluster_size rg"
    using s by (simp_all add: same_shape_def)
  show ?thesis by (simp only: resolve_def Let_def lb w cs)
qed

text \<open>Service buffers that hold one sector of either device.\<close>

definition ample :: "(target_device \<Rightarrow> nat) \<Rightarrow> regions \<Rightarrow> bool" where
  "ample sz rg \<longleftrightarrow> (\<forall>dev. sz dev \<le> length (rg_rmw_sector rg) \<and> sz dev \<le> length (rg_fill_sector rg))"

text \<open>A step that a healthy device can execute: its window and its disk range exist.\<close>

definition step_fits :: "(target_device \<Rightarrow> nat) \<Rightarrow> regions \<Rightarrow> step \<Rightarrow> bool" where
  "step_fits cap rg s \<longleftrightarrow>
     (s_kind s \<in> {ReadCluster, WriteRange, LoadCluster, WritebackCluster, ZeroRegion} \<longrightarrow>
        (\<exists>p. resolve rg (s_region s) (s_region_offset s) (s_len s) = Inr p)) \<and>
     (s_kind s = PatchEntryU64 \<longrightarrow> (\<exists>p. resolve rg (s_region s) (s_region_offset s) 8 = Inr p)) \<and>
     (s_kind s \<in> {LoadCluster, WritebackCluster} \<longrightarrow> cluster_contract s rg = Inr ()) \<and>
     (s_kind s \<in> {ReadCluster, WriteRange, LoadCluster, WritebackCluster, ZeroRange, FillRange} \<longrightarrow>
        unat (s_disk_offset s) + unat (s_len s) \<le> cap (s_device s))"

lemma step_fits_shape: "same_shape rg rg' \<Longrightarrow> step_fits cap rg' s = step_fits cap rg s"
  by (simp add: step_fits_def resolve_shape cluster_contract_def) (simp add: same_shape_def)

section \<open>What a sector device promises\<close>

locale sector_disk =
  fixes io :: "'d device_io" and content :: "'d \<Rightarrow> target_device \<Rightarrow> nat \<Rightarrow> 8 word" and ssz :: "target_device \<Rightarrow> nat"
  assumes sector_size: "io_sector_size io d dev = ssz dev"
    and read_sector: "io_read_sector io d dev s buf = (ok, buf', d') \<Longrightarrow> length buf = ssz dev \<Longrightarrow>
      length buf' = ssz dev \<and> content d' = content d \<and>
      (ok \<longrightarrow> buf' = bytes_at (content d dev) (unat s * ssz dev) (ssz dev))"
    and write_sector: "io_write_sector io d dev s buf = (True, d') \<Longrightarrow> length buf = ssz dev \<Longrightarrow>
      content d' = (content d)(dev := overwrite (unat s * ssz dev) buf (content d dev))"
    and fsync: "io_fsync io d dev = (r, d') \<Longrightarrow> content d' = content d"
begin

lemma sector_of: "unat (of_nat (unat (cur :: u64) div n) :: u64) = unat cur div n"
  using order_le_less_trans[OF div_le_dividend[of "unat cur" n] unat_u64_less] by (simp add: unat_of_nat)

text \<open>One transfer: the bytes of the covering sector that start at \<open>cur\<close>.\<close>

lemma read_chunk_exact:
  assumes "read_chunk io dev (ssz dev) pos off tk s dst bounce d = (ok, dst', bounce', d')"
    and "length bounce = ssz dev" "pos + tk \<le> length dst" "off + tk \<le> ssz dev" "0 < tk"
  shows "length dst' = length dst \<and> length bounce' = ssz dev \<and> content d' = content d \<and>
    (ok \<longrightarrow> take (pos + tk) dst' = take pos dst @ bytes_at (content d dev) (unat s * ssz dev + off) tk)"
proof (cases "off = 0 \<and> tk = ssz dev")
  case True
  obtain ok1 buf d1 where R: "io_read_sector io d dev s (slice_at pos (ssz dev) dst) = (ok1, buf, d1)" by (metis prod_cases3)
  have len: "length (slice_at pos (ssz dev) dst) = ssz dev" using assms(3) True by simp
  note L = read_sector[OF R len]
  then show ?thesis using assms True R by (auto simp: read_chunk_def splice_at_def)
next
  case False
  obtain ok1 buf d1 where R: "io_read_sector io d dev s bounce = (ok1, buf, d1)" by (metis prod_cases3)
  note L = read_sector[OF R assms(2)]
  have "length (slice_at off tk buf) = tk" using L assms(4) by simp
  then show ?thesis using assms False R L by (auto simp: read_chunk_def splice_at_def slice_bytes_at)
qed

lemma read_loop_exact:
  assumes "read_loop io dev (ssz dev) n pos cur dst bounce d = (r, dst', bounce', d')"
    and "0 < ssz dev" "length dst = n" "length bounce = ssz dev" "pos \<le> n" "n < 2 ^ 64"
  shows "length dst' = n \<and> length bounce' = ssz dev \<and> content d' = content d \<and>
    (r = Inr () \<longrightarrow> dst' = take pos dst @ bytes_at (content d dev) (unat cur) (n - pos))"
  using assms(1,3,4,5)
proof (induction "n - pos" arbitrary: pos cur dst bounce d rule: less_induct)
  case less
  show ?case
  proof (cases "n \<le> pos")
    case True
    then have "read_loop io dev (ssz dev) n pos cur dst bounce d = (Inr (), dst, bounce, d)" by (subst read_loop.simps) simp
    then show ?thesis using True less.prems by (simp add: bytes_at_def)
  next
    case False
    let ?off = "unat cur mod ssz dev" let ?tk = "min (ssz dev - ?off) (n - pos)" let ?s = "of_nat (unat cur div ssz dev) :: u64"
    have off: "?off < ssz dev" using assms(2) by simp
    have tk: "0 < ?tk" "pos + ?tk \<le> n" "?off + ?tk \<le> ssz dev" "?tk < 2 ^ 64" using False off assms(6) by simp_all
    obtain ok dst1 b1 d1 where C: "read_chunk io dev (ssz dev) pos ?off ?tk ?s dst bounce d = (ok, dst1, b1, d1)" by (metis prod_cases4)
    have pos': "pos + ?tk \<le> length dst" using tk(2) less.prems(2) by simp
    note X = read_chunk_exact[OF C less.prems(3) pos' tk(3,1)]
    have at: "unat ?s * ssz dev + ?off = unat cur" by (simp add: sector_of)
    have step: "read_loop io dev (ssz dev) n pos cur dst bounce d =
        (if \<not> ok then (Inl ReadFailed, dst1, b1, d1)
         else case checked_add cur (of_nat ?tk) of None \<Rightarrow> (Inl Overflow, dst1, b1, d1)
         | Some cur' \<Rightarrow> read_loop io dev (ssz dev) n (pos + ?tk) cur' dst1 b1 d1)"
      using False assms(2) C by (subst read_loop.simps) (simp add: Let_def)
    show ?thesis
    proof (cases "ok \<and> checked_add cur (of_nat ?tk) \<noteq> None")
      case True
      then obtain cur' where cur': "checked_add cur (of_nat ?tk) = Some cur'" by blast
      then have u: "unat cur' = unat cur + ?tk" using tk(4) by (auto simp: checked_add_Some unat_add_small unat_of_nat)
      have R: "read_loop io dev (ssz dev) n (pos + ?tk) cur' dst1 b1 d1 = (r, dst', bounce', d')"
        using less.prems(1) step True cur' by simp
      have IH: "length dst' = n \<and> length bounce' = ssz dev \<and> content d' = content d1 \<and>
         (r = Inr () \<longrightarrow> dst' = take (pos + ?tk) dst1 @ bytes_at (content d1 dev) (unat cur') (n - (pos + ?tk)))"
      proof (rule less.hyps[OF _ R])
        show "n - (pos + ?tk) < n - pos" using tk(1,2) by linarith
        show "length dst1 = n" "length b1 = ssz dev" "pos + ?tk \<le> n" using X less.prems(2) tk(2) by simp_all
      qed
      have "bytes_at (content d dev) (unat cur) (n - pos) =
          bytes_at (content d dev) (unat cur) ?tk @ bytes_at (content d dev) (unat cur') (n - (pos + ?tk))"
        using bytes_at_add[of "content d dev" "unat cur" ?tk "n - (pos + ?tk)"] tk(2) u by simp
      then show ?thesis using IH X True at by auto
    next
      case False
      then show ?thesis using less.prems step X by (auto split: option.splits if_splits)
    qed
  qed
qed

lemma write_chunk_exact:
  assumes "write_chunk io dev (ssz dev) pos off tk s src bounce d = (r, bounce', d')"
    and "length bounce = ssz dev" "pos + tk \<le> length src" "off + tk \<le> ssz dev" "0 < tk"
  shows "length bounce' = ssz dev \<and> (r = Inr () \<longrightarrow>
    content d' = (content d)(dev := overwrite (unat s * ssz dev + off) (slice_at pos tk src) (content d dev)))"
proof (cases "off = 0 \<and> tk = ssz dev")
  case True
  obtain ok d1 where W: "io_write_sector io d dev s (slice_at pos (ssz dev) src) = (ok, d1)" by (metis surj_pair)
  have len: "length (slice_at pos (ssz dev) src) = ssz dev" using assms(3) True by simp
  show ?thesis using assms True W write_sector[OF _ len] by (auto simp: write_chunk_def split: if_splits)
next
  case False
  obtain ok buf d1 where R: "io_read_sector io d dev s bounce = (ok, buf, d1)" by (metis prod_cases3)
  note L = read_sector[OF R assms(2)]
  have sl: "length (slice_at pos tk src) = tk" using assms(3) by simp
  let ?b = "splice_at off (slice_at pos tk src) buf"
  have lb: "length ?b = ssz dev" using L sl assms(4) by (simp add: splice_at_def)
  obtain ok2 d2 where W: "io_write_sector io d1 dev s ?b = (ok2, d2)" by (metis surj_pair)
  have "overwrite (unat s * ssz dev) ?b (content d dev) = overwrite (unat s * ssz dev + off) (slice_at pos tk src) (content d dev)" if ok
    using L that overwrite_splice[of off "slice_at pos tk src" "ssz dev"] sl assms(4) by simp
  then show ?thesis using assms(1) False R W L lb write_sector[of d1 dev s ?b d2]
    by (auto simp: write_chunk_def Let_def split: if_splits)
qed

lemma write_loop_exact:
  assumes "write_loop io dev (ssz dev) pos cur src bounce d = (r, bounce', d')"
    and "0 < ssz dev" "length bounce = ssz dev" "length src < 2 ^ 64"
  shows "length bounce' = ssz dev \<and> (r = Inr () \<longrightarrow>
    content d' = (content d)(dev := overwrite (unat cur) (drop pos src) (content d dev)))"
  using assms(1,3)
proof (induction "length src - pos" arbitrary: pos cur bounce d rule: less_induct)
  case less
  show ?case
  proof (cases "length src \<le> pos")
    case True
    then have "write_loop io dev (ssz dev) pos cur src bounce d = (Inr (), bounce, d)" by (subst write_loop.simps) simp
    then show ?thesis using True less.prems by simp
  next
    case False
    let ?off = "unat cur mod ssz dev" let ?tk = "min (ssz dev - ?off) (length src - pos)" let ?s = "of_nat (unat cur div ssz dev) :: u64"
    have off: "?off < ssz dev" using assms(2) by simp
    have tk: "0 < ?tk" "pos + ?tk \<le> length src" "?off + ?tk \<le> ssz dev" "?tk < 2 ^ 64" using False off assms(4) by simp_all
    obtain q b1 d1 where C: "write_chunk io dev (ssz dev) pos ?off ?tk ?s src bounce d = (q, b1, d1)" by (metis prod_cases3)
    note X = write_chunk_exact[OF C less.prems(2) tk(2,3,1)]
    have at: "unat ?s * ssz dev + ?off = unat cur" by (simp add: sector_of)
    have step: "write_loop io dev (ssz dev) pos cur src bounce d =
        (case q of Inl e \<Rightarrow> (Inl e, b1, d1)
         | Inr _ \<Rightarrow> (case checked_add cur (of_nat ?tk) of None \<Rightarrow> (Inl Overflow, b1, d1)
             | Some cur' \<Rightarrow> write_loop io dev (ssz dev) (pos + ?tk) cur' src b1 d1))"
      using False assms(2) C by (subst write_loop.simps) (simp add: Let_def)
    show ?thesis
    proof (cases "q = Inr () \<and> checked_add cur (of_nat ?tk) \<noteq> None")
      case True
      then obtain cur' where cur': "checked_add cur (of_nat ?tk) = Some cur'" by blast
      then have u: "unat cur' = unat cur + ?tk" using tk(4) by (auto simp: checked_add_Some unat_add_small unat_of_nat)
      have R: "write_loop io dev (ssz dev) (pos + ?tk) cur' src b1 d1 = (r, bounce', d')"
        using less.prems(1) step True cur' by simp
      have IH: "length bounce' = ssz dev \<and> (r = Inr () \<longrightarrow>
          content d' = (content d1)(dev := overwrite (unat cur') (drop (pos + ?tk) src) (content d1 dev)))"
      proof (rule less.hyps[OF _ R])
        show "length src - (pos + ?tk) < length src - pos" using tk(1,2) by linarith
        show "length b1 = ssz dev" using X by simp
      qed
      have "drop pos src = slice_at pos ?tk src @ drop (pos + ?tk) src"
        by (simp add: slice_at_def) (metis append_take_drop_id drop_drop add.commute)
      then have "overwrite (unat cur) (drop pos src) m = overwrite (unat cur') (drop (pos + ?tk) src) (overwrite (unat cur) (slice_at pos ?tk src) m)" for m
        using overwrite_append[of "unat cur" "slice_at pos ?tk src"] u tk(2) by simp
      then show ?thesis using IH X True at by auto
    next
      case False
      then show ?thesis using less.prems step X by (auto split: option.splits sum.splits)
    qed
  qed
qed

lemma read_bytes_exact:
  assumes "read_bytes io dev off dst rmw d = (r, dst', rmw', d')" "length dst < 2 ^ 64"
  shows "length dst' = length dst \<and> length rmw' = length rmw \<and> content d' = content d \<and>
    (r = Inr () \<longrightarrow> dst' = bytes_at (content d dev) (unat off) (length dst))"
proof (cases "dst = [] \<or> ssz dev = 0 \<or> length rmw < ssz dev")
  case True
  then show ?thesis using assms by (auto simp: read_bytes_def sector_size Let_def bytes_at_def split: if_splits)
next
  case False
  obtain q dst1 b1 d1 where L: "read_loop io dev (ssz dev) (length dst) 0 off dst (take (ssz dev) rmw) d = (q, dst1, b1, d1)"
    by (metis prod_cases4)
  have "length (take (ssz dev) rmw) = ssz dev" using False by simp
  note X = read_loop_exact[OF L _ refl this _ assms(2)]
  then show ?thesis using assms(1) False L by (auto simp: read_bytes_def sector_size Let_def)
qed

lemma write_bytes_exact:
  assumes "write_bytes io dev off src rmw d = (r, rmw', d')" "length src < 2 ^ 64"
  shows "length rmw' = length rmw \<and> (r = Inr () \<longrightarrow> content d' = (content d)(dev := overwrite (unat off) src (content d dev)))"
proof (cases "src = [] \<or> ssz dev = 0 \<or> length rmw < ssz dev")
  case True
  then show ?thesis using assms by (auto simp: write_bytes_def sector_size Let_def split: if_splits)
next
  case False
  obtain q b1 d1 where L: "write_loop io dev (ssz dev) 0 off src (take (ssz dev) rmw) d = (q, b1, d1)"
    by (metis prod_cases3)
  have "length (take (ssz dev) rmw) = ssz dev" using False by simp
  note X = write_loop_exact[OF L _ this assms(2)]
  then show ?thesis using assms(1) False L by (auto simp: write_bytes_def sector_size Let_def)
qed

lemma fill_loop_exact:
  assumes "fill_loop io dev (ssz dev) pos off len fill rmw d = (r, rmw', d')"
    and "0 < ssz dev" "take (ssz dev) fill = replicate (ssz dev) byte" "pos \<le> len"
  shows "length rmw' = length rmw \<and> (r = Inr () \<longrightarrow>
    content d' = (content d)(dev := overwrite (unat off + unat pos) (replicate (unat len - unat pos) byte) (content d dev)))"
  using assms(1,4)
proof (induction "unat len - unat pos" arbitrary: pos rmw d rule: less_induct)
  case less
  show ?case
  proof (cases "len \<le> pos")
    case True
    then have "fill_loop io dev (ssz dev) pos off len fill rmw d = (Inr (), rmw, d)" by (subst fill_loop.simps) simp
    then show ?thesis using True less.prems by (simp add: word_le_nat_alt)
  next
    case False
    let ?c = "min (unat (len - pos)) (ssz dev)"
    note F = fill_chunk[OF False assms(2)]
    have fc: "take ?c fill = replicate ?c byte" using arg_cong[OF assms(3), of "take ?c"] by (simp add: min_def split: if_splits)
    have step: "fill_loop io dev (ssz dev) pos off len fill rmw d = (case checked_add off pos of None \<Rightarrow> (Inl Overflow, rmw, d)
        | Some o' \<Rightarrow> (case write_bytes io dev o' (take ?c fill) rmw d of
               (Inl e, rmw1, d1) \<Rightarrow> (Inl e, rmw1, d1)
             | (Inr _, rmw1, d1) \<Rightarrow> fill_loop io dev (ssz dev) (pos + of_nat ?c) off len fill rmw1 d1))"
      using False assms(2) by (subst fill_loop.simps) (simp add: Let_def)
    show ?thesis
    proof (cases "checked_add off pos")
      case None
      then show ?thesis using less.prems step by auto
    next
      case (Some o')
      then have o': "unat o' = unat off + unat pos" by (auto simp: checked_add_Some unat_add_small)
      obtain q rmw1 d1 where W: "write_bytes io dev o' (take ?c fill) rmw d = (q, rmw1, d1)" by (metis prod_cases3)
      have lt: "length (take ?c fill) < 2 ^ 64" using F(3) unat_u64_less[of len] fc by simp
      note X = write_bytes_exact[OF W lt]
      show ?thesis
      proof (cases q)
        case (Inl e)
        then show ?thesis using less.prems step Some W X by auto
      next
        case (Inr u)
        have R: "fill_loop io dev (ssz dev) (pos + of_nat ?c) off len fill rmw1 d1 = (r, rmw', d')"
          using less.prems(1) step Some W Inr by simp
        have IH: "length rmw' = length rmw1 \<and> (r = Inr () \<longrightarrow> content d' = (content d1)(dev :=
            overwrite (unat off + unat (pos + of_nat ?c)) (replicate (unat len - unat (pos + of_nat ?c)) byte) (content d1 dev)))"
        proof (rule less.hyps[OF _ R])
          show "unat len - unat (pos + of_nat ?c) < unat len - unat pos" using F(1,2,3) by linarith
          show "pos + of_nat ?c \<le> len" using F(1,3) by (simp add: word_le_nat_alt)
        qed
        have "replicate (unat len - unat pos) byte = replicate ?c byte @ replicate (unat len - unat (pos + of_nat ?c)) byte"
          using F(1,3) by (simp add: replicate_add[symmetric])
        then have "overwrite (unat off + unat pos) (replicate (unat len - unat pos) byte) m =
            overwrite (unat off + unat (pos + of_nat ?c)) (replicate (unat len - unat (pos + of_nat ?c)) byte)
              (overwrite (unat o') (take ?c fill) m)" for m
          using overwrite_append[of "unat off + unat pos" "replicate ?c byte"] F(1) o' fc by (simp add: add.assoc)
        then show ?thesis using IH X Inr by auto
      qed
    qed
  qed
qed

lemma fill_bytes_exact:
  assumes "fill_bytes io dev off len byte fill rmw d = (r, fill', rmw', d')"
  shows "length fill' = length fill \<and> length rmw' = length rmw \<and> (r = Inr () \<longrightarrow>
    content d' = (content d)(dev := overwrite (unat off) (replicate (unat len) byte) (content d dev)))"
proof (cases "len = 0 \<or> ssz dev = 0 \<or> length fill < ssz dev \<or> length rmw < ssz dev")
  case True
  then show ?thesis using assms by (auto simp: fill_bytes_def sector_size Let_def split: if_splits)
next
  case False
  let ?f = "replicate (ssz dev) byte @ drop (ssz dev) fill"
  obtain q rmw1 d1 where L: "fill_loop io dev (ssz dev) 0 off len ?f rmw d = (q, rmw1, d1)" by (metis prod_cases3)
  have "0 < ssz dev" "take (ssz dev) ?f = replicate (ssz dev) byte" using False by simp_all
  note X = fill_loop_exact[OF L this]
  then show ?thesis using assms False L by (auto simp: fill_bytes_def sector_size Let_def)
qed

lemma exec_read_refines:
  assumes "exec_read io s rg d = (Inr u, rg', d')"
  defines "start \<equiv> region_start rg (s_region s) + unat (s_region_offset s)"
  shows "content d' = content d \<and> plain rg' = plain (region_put (s_region s)
    (splice_at start (bytes_at (content d (s_device s)) (unat (s_disk_offset s)) (unat (s_len s))) (region_buf rg (s_region s))) rg)"
proof -
  obtain p where p: "resolve rg (s_region s) (s_region_offset s) (s_len s) = Inr p"
    using assms(1) by (auto simp: exec_read_def split: sum.splits)
  note P = resolve_Inr(1,2)[OF p]
  let ?dst = "slice_at p (unat (s_len s)) (region_buf rg (s_region s))"
  obtain r dst rmw d1 where R: "read_bytes io (s_device s) (s_disk_offset s) ?dst (rg_rmw_sector rg) d = (r, dst, rmw, d1)"
    by (metis prod_cases4)
  have len: "length ?dst = unat (s_len s)" using P(2) by simp
  show ?thesis using read_bytes_exact[OF R] len unat_u64_less[of "s_len s"] assms(1) p R P(1)
    by (auto simp: exec_read_def start_def)
qed

lemma exec_write_refines:
  assumes "exec_write io s rg d = (Inr u, rg', d')"
  defines "start \<equiv> region_start rg (s_region s) + unat (s_region_offset s)"
  shows "plain rg' = plain rg \<and> content d' = (content d)(s_device s := overwrite (unat (s_disk_offset s))
    (slice_at start (unat (s_len s)) (region_buf rg (s_region s))) (content d (s_device s)))"
proof -
  obtain p where p: "resolve rg (s_region s) (s_region_offset s) (s_len s) = Inr p"
    using assms(1) by (auto simp: exec_write_def split: sum.splits)
  note P = resolve_Inr(1,2)[OF p]
  let ?src = "slice_at p (unat (s_len s)) (region_buf rg (s_region s))"
  obtain r rmw d1 where R: "write_bytes io (s_device s) (s_disk_offset s) ?src (rg_rmw_sector rg) d = (r, rmw, d1)"
    by (metis prod_cases3)
  have len: "length ?src = unat (s_len s)" using P(2) by simp
  show ?thesis using write_bytes_exact[OF R] len unat_u64_less[of "s_len s"] assms(1) p R P(1)
    by (auto simp: exec_write_def start_def)
qed

lemma exec_fill_refines:
  assumes "exec_fill io s byte rg d = (Inr u, rg', d')"
  shows "plain rg' = plain rg \<and> content d' = (content d)(s_device s := overwrite (unat (s_disk_offset s))
    (replicate (unat (s_len s)) byte) (content d (s_device s)))"
proof -
  obtain r fill rmw d1 where R: "fill_bytes io (s_device s) (s_disk_offset s) (s_len s) byte (rg_fill_sector rg) (rg_rmw_sector rg) d = (r, fill, rmw, d1)"
    by (metis prod_cases4)
  show ?thesis using fill_bytes_exact[OF R] assms R by (auto simp: exec_fill_def)
qed

lemma exec_step_refines:
  assumes "exec_step io s rg d st = (Inr u, rg', d', st')"
  shows "apply_step s (plain rg, content d) = (plain rg', content d')"
proof (cases "s_kind s")
  case ReadCluster
  then have "exec_read io s rg d = (Inr u, rg', d')" using assms by (simp add: exec_step_def case_prod_beta prod_eq_iff)
  from exec_read_refines[OF this] ReadCluster show ?thesis by (simp add: apply_step_def Let_def)
next
  case LoadCluster
  then have "exec_read io s rg d = (Inr u, rg', d')" using assms by (simp add: exec_step_def case_prod_beta prod_eq_iff split: sum.splits)
  from exec_read_refines[OF this] LoadCluster show ?thesis by (simp add: apply_step_def Let_def)
next
  case WriteRange
  then have "exec_write io s rg d = (Inr u, rg', d')" using assms by (simp add: exec_step_def case_prod_beta prod_eq_iff)
  from exec_write_refines[OF this] WriteRange show ?thesis by (simp add: apply_step_def Let_def)
next
  case WritebackCluster
  then have "exec_write io s rg d = (Inr u, rg', d')" using assms by (simp add: exec_step_def case_prod_beta prod_eq_iff split: sum.splits)
  from exec_write_refines[OF this] WritebackCluster show ?thesis by (simp add: apply_step_def Let_def)
next
  case ZeroRange
  then have "exec_fill io s 0 rg d = (Inr u, rg', d')" using assms by (simp add: exec_step_def case_prod_beta prod_eq_iff)
  from exec_fill_refines[OF this] ZeroRange show ?thesis by (simp add: apply_step_def Let_def)
next
  case FillRange
  then have "exec_fill io s (ucast (s_value s)) rg d = (Inr u, rg', d')" using assms by (simp add: exec_step_def case_prod_beta prod_eq_iff)
  from exec_fill_refines[OF this] FillRange show ?thesis by (simp add: apply_step_def Let_def)
next
  case PatchEntryU64
  then show ?thesis using assms resolve_Inr(1)[of rg "s_region s" "s_region_offset s" 8]
    by (auto simp: exec_step_def apply_step_def Let_def split: sum.splits)
next
  case ZeroRegion
  then show ?thesis using assms resolve_Inr(1)[of rg "s_region s" "s_region_offset s" "s_len s"]
    by (auto simp: exec_step_def apply_step_def Let_def split: sum.splits)
next
  case (Barrier c)
  then show ?thesis using assms fsync[of d "s_device s"]
    by (cases c; cases "io_fsync io d (s_device s)")
      (auto simp: exec_step_def apply_step_def Let_def split: option.splits bool.splits)
qed

lemma execute_from_refines:
  assumes "execute_from io i ss rg d st = (Inr st', rg', d')"
  shows "fold apply_step ss (plain rg, content d) = (plain rg', content d')"
  using assms
proof (induction ss arbitrary: i rg d st)
  case (Cons s ss)
  obtain r rg1 d1 st1 where S: "exec_step io s rg d st = (r, rg1, d1, st1)" by (metis prod_cases4)
  obtain u where u: "r = Inr u" using Cons.prems S by (cases r) auto
  show ?case using Cons.IH[of "Suc i" rg1 d1] Cons.prems S u exec_step_refines[OF S[unfolded u]] by simp
qed simp

end

text \<open>A healthy device: sectors inside its capacity can be read and written, and fsync does not fail.\<close>

locale healthy_disk = sector_disk io content ssz
  for io :: "'d device_io" and content :: "'d \<Rightarrow> target_device \<Rightarrow> nat \<Rightarrow> 8 word" and ssz :: "target_device \<Rightarrow> nat" +
  fixes ready :: "'d \<Rightarrow> bool" and cap :: "'d \<Rightarrow> target_device \<Rightarrow> nat"
  assumes cap_sectors: "ready d \<Longrightarrow> 0 < ssz dev \<and> ssz dev dvd cap d dev \<and> cap d dev < 2 ^ 64"
    and read_ok: "ready d \<Longrightarrow> unat s * ssz dev + ssz dev \<le> cap d dev \<Longrightarrow> length buf = ssz dev \<Longrightarrow>
      \<exists>buf' d'. io_read_sector io d dev s buf = (True, buf', d') \<and> ready d' \<and> cap d' = cap d"
    and write_ok: "ready d \<Longrightarrow> unat s * ssz dev + ssz dev \<le> cap d dev \<Longrightarrow> length buf = ssz dev \<Longrightarrow>
      \<exists>d'. io_write_sector io d dev s buf = (True, d') \<and> ready d' \<and> cap d' = cap d"
    and fsync_ok: "ready d \<Longrightarrow> \<exists>r d'. io_fsync io d dev = (r, d') \<and> r \<noteq> Some False \<and> ready d' \<and> cap d' = cap d"
begin

lemma sector_in_cap:
  assumes "ready d" "unat (cur :: u64) < cap d dev"
  shows "unat (of_nat (unat cur div ssz dev) :: u64) * ssz dev + ssz dev \<le> cap d dev"
proof -
  obtain k where k: "cap d dev = ssz dev * k" "0 < ssz dev" using cap_sectors[OF assms(1), of dev] by blast
  have "unat cur div ssz dev < k" using assms(2) k by (simp add: div_less_iff_less_mult mult.commute)
  then have "Suc (unat cur div ssz dev) * ssz dev \<le> k * ssz dev" by (intro mult_le_mono1) simp
  then show ?thesis by (simp add: sector_of k(1) mult.commute)
qed

lemma read_chunk_ok:
  assumes "ready d" "unat s * ssz dev + ssz dev \<le> cap d dev" "length bounce = ssz dev" "pos + tk \<le> length dst"
  shows "\<exists>dst' b' d'. read_chunk io dev (ssz dev) pos off tk s dst bounce d = (True, dst', b', d') \<and> ready d' \<and> cap d' = cap d"
proof (cases "off = 0 \<and> tk = ssz dev")
  case True
  then have "length (slice_at pos (ssz dev) dst) = ssz dev" using assms(4) by simp
  from read_ok[OF assms(1,2) this] True show ?thesis by (auto simp: read_chunk_def)
next
  case False
  from read_ok[OF assms(1,2,3)] False show ?thesis by (auto simp: read_chunk_def)
qed

lemma write_chunk_ok:
  assumes "ready d" "unat s * ssz dev + ssz dev \<le> cap d dev" "length bounce = ssz dev" "pos + tk \<le> length src" "off + tk \<le> ssz dev"
  shows "\<exists>b' d'. write_chunk io dev (ssz dev) pos off tk s src bounce d = (Inr (), b', d') \<and> ready d' \<and> cap d' = cap d"
proof (cases "off = 0 \<and> tk = ssz dev")
  case True
  then have "length (slice_at pos (ssz dev) src) = ssz dev" using assms(4) by simp
  from write_ok[OF assms(1,2) this] True show ?thesis by (auto simp: write_chunk_def)
next
  case False
  obtain buf d1 where R: "io_read_sector io d dev s bounce = (True, buf, d1)" "ready d1" "cap d1 = cap d"
    using read_ok[OF assms(1,2,3)] by blast
  have "length buf = ssz dev" using read_sector[OF R(1) assms(3)] by simp
  then have "length (splice_at off (slice_at pos tk src) buf) = ssz dev" using assms(4,5) by (simp add: splice_at_def)
  from write_ok[OF R(2) _ this, of s] assms(2) R False show ?thesis by (auto simp: write_chunk_def Let_def)
qed

lemma advance_ok: "unat cur + n \<le> k \<Longrightarrow> 0 < n \<Longrightarrow> k < 2 ^ 64 \<Longrightarrow> \<exists>cur'. checked_add cur (of_nat n) = Some cur' \<and> unat cur' = unat cur + n"
  for cur :: u64
  by (auto simp: checked_add_def unat_add_small unat_of_nat)

lemma read_loop_ok:
  assumes "ready d" "length dst = n" "length bounce = ssz dev" "pos \<le> n" "unat cur + (n - pos) \<le> cap d dev"
  shows "\<exists>dst' b' d'. read_loop io dev (ssz dev) n pos cur dst bounce d = (Inr (), dst', b', d') \<and> ready d' \<and> cap d' = cap d"
  using assms
proof (induction "n - pos" arbitrary: pos cur dst bounce d rule: less_induct)
  case less
  note c = cap_sectors[OF less.prems(1), of dev]
  show ?case
  proof (cases "n \<le> pos")
    case True
    then show ?thesis using less.prems by (subst read_loop.simps) simp
  next
    case False
    let ?off = "unat cur mod ssz dev" let ?tk = "min (ssz dev - ?off) (n - pos)" let ?s = "of_nat (unat cur div ssz dev) :: u64"
    have off: "?off < ssz dev" using c by simp
    have tk: "0 < ?tk" "pos + ?tk \<le> n" "?off + ?tk \<le> ssz dev" using False off by simp_all
    have pos': "pos + ?tk \<le> length dst" using tk(2) less.prems(2) by simp
    have "unat cur < cap d dev" using less.prems(5) False by simp
    from read_chunk_ok[OF less.prems(1) sector_in_cap[OF less.prems(1) this] less.prems(3) pos', of ?off]
    obtain dst1 b1 d1 where C: "read_chunk io dev (ssz dev) pos ?off ?tk ?s dst bounce d = (True, dst1, b1, d1)" "ready d1" "cap d1 = cap d" by blast
    note X = read_chunk_exact[OF C(1) less.prems(3) pos' tk(3,1)]
    have "unat cur + ?tk \<le> cap d dev" using less.prems(5) tk(2) by linarith
    from advance_ok[OF this tk(1)] c obtain cur' where cur': "checked_add cur (of_nat ?tk) = Some cur'" "unat cur' = unat cur + ?tk" by blast
    have step: "read_loop io dev (ssz dev) n pos cur dst bounce d = read_loop io dev (ssz dev) n (pos + ?tk) cur' dst1 b1 d1"
      using False c C(1) cur'(1) by (subst read_loop.simps) (simp add: Let_def)
    have "\<exists>dst' b' d'. read_loop io dev (ssz dev) n (pos + ?tk) cur' dst1 b1 d1 = (Inr (), dst', b', d') \<and> ready d' \<and> cap d' = cap d1"
    proof (rule less.hyps[OF _ C(2)])
      show "n - (pos + ?tk) < n - pos" using tk(1,2) by linarith
      show "length dst1 = n" "length b1 = ssz dev" "pos + ?tk \<le> n" using X less.prems(2) tk(2) by simp_all
      show "unat cur' + (n - (pos + ?tk)) \<le> cap d1 dev" using less.prems(5) cur'(2) tk(2) C(3) by simp
    qed
    then show ?thesis using step C(3) by simp
  qed
qed

lemma write_loop_ok:
  assumes "ready d" "length bounce = ssz dev" "unat cur + (length src - pos) \<le> cap d dev"
  shows "\<exists>b' d'. write_loop io dev (ssz dev) pos cur src bounce d = (Inr (), b', d') \<and> ready d' \<and> cap d' = cap d"
  using assms
proof (induction "length src - pos" arbitrary: pos cur bounce d rule: less_induct)
  case less
  note c = cap_sectors[OF less.prems(1), of dev]
  show ?case
  proof (cases "length src \<le> pos")
    case True
    then show ?thesis using less.prems by (subst write_loop.simps) simp
  next
    case False
    let ?off = "unat cur mod ssz dev" let ?tk = "min (ssz dev - ?off) (length src - pos)" let ?s = "of_nat (unat cur div ssz dev) :: u64"
    have off: "?off < ssz dev" using c by simp
    have tk: "0 < ?tk" "pos + ?tk \<le> length src" "?off + ?tk \<le> ssz dev" using False off by simp_all
    have "unat cur < cap d dev" using less.prems(3) False by simp
    from write_chunk_ok[OF less.prems(1) sector_in_cap[OF less.prems(1) this] less.prems(2) tk(2,3)]
    obtain b1 d1 where C: "write_chunk io dev (ssz dev) pos ?off ?tk ?s src bounce d = (Inr (), b1, d1)" "ready d1" "cap d1 = cap d" by blast
    note X = write_chunk_exact[OF C(1) less.prems(2) tk(2,3,1)]
    have "unat cur + ?tk \<le> cap d dev" using less.prems(3) tk(2) by linarith
    from advance_ok[OF this tk(1)] c obtain cur' where cur': "checked_add cur (of_nat ?tk) = Some cur'" "unat cur' = unat cur + ?tk" by blast
    have step: "write_loop io dev (ssz dev) pos cur src bounce d = write_loop io dev (ssz dev) (pos + ?tk) cur' src b1 d1"
      using False c C(1) cur'(1) by (subst write_loop.simps) (simp add: Let_def)
    have "\<exists>b' d'. write_loop io dev (ssz dev) (pos + ?tk) cur' src b1 d1 = (Inr (), b', d') \<and> ready d' \<and> cap d' = cap d1"
    proof (rule less.hyps[OF _ C(2)])
      show "length src - (pos + ?tk) < length src - pos" using tk(1,2) by linarith
      show "length b1 = ssz dev" using X by simp
      show "unat cur' + (length src - (pos + ?tk)) \<le> cap d1 dev" using less.prems(3) cur'(2) tk(2) C(3) by simp
    qed
    then show ?thesis using step C(3) by simp
  qed
qed

lemma read_bytes_ok:
  assumes "ready d" "unat off + length dst \<le> cap d dev" "ssz dev \<le> length rmw"
  shows "\<exists>dst' rmw' d'. read_bytes io dev off dst rmw d = (Inr (), dst', rmw', d') \<and> ready d' \<and> cap d' = cap d"
  using read_loop_ok[of d dst "length dst" "take (ssz dev) rmw" dev 0 off] assms cap_sectors[OF assms(1), of dev]
  by (auto simp: read_bytes_def sector_size Let_def)

lemma write_bytes_ok:
  assumes "ready d" "unat off + length src \<le> cap d dev" "ssz dev \<le> length rmw"
  shows "\<exists>rmw' d'. write_bytes io dev off src rmw d = (Inr (), rmw', d') \<and> ready d' \<and> cap d' = cap d"
  using write_loop_ok[of d "take (ssz dev) rmw" dev off src 0] assms cap_sectors[OF assms(1), of dev]
  by (auto simp: write_bytes_def sector_size Let_def)

lemma fill_loop_ok:
  assumes "ready d" "take (ssz dev) fill = replicate (ssz dev) byte" "ssz dev \<le> length rmw" "pos \<le> len" "unat off + unat len \<le> cap d dev"
  shows "\<exists>rmw' d'. fill_loop io dev (ssz dev) pos off len fill rmw d = (Inr (), rmw', d') \<and> ready d' \<and> cap d' = cap d"
  using assms(1,3,4,5)
proof (induction "unat len - unat pos" arbitrary: pos rmw d rule: less_induct)
  case less
  note c = cap_sectors[OF less.prems(1), of dev]
  show ?case
  proof (cases "len \<le> pos")
    case True
    then show ?thesis using less.prems by (subst fill_loop.simps) simp
  next
    case False
    let ?c = "min (unat (len - pos)) (ssz dev)"
    note F = fill_chunk[OF False conjunct1[OF c]]
    have fc: "take ?c fill = replicate ?c byte" using arg_cong[OF assms(2), of "take ?c"] by (simp add: min_def split: if_splits)
    have "unat off + unat pos < 2 ^ 64" using F(2,3) less.prems(4) c by linarith
    then obtain o' where o': "checked_add off pos = Some o'" "unat o' = unat off + unat pos"
      by (auto simp: checked_add_def unat_add_small)
    have "unat o' + length (take ?c fill) \<le> cap d dev" using o'(2) F(3) less.prems(4) fc by simp
    from write_bytes_ok[OF less.prems(1) this less.prems(2)] obtain rmw1 d1 where
      W: "write_bytes io dev o' (take ?c fill) rmw d = (Inr (), rmw1, d1)" "ready d1" "cap d1 = cap d" by blast
    have lr: "length rmw1 = length rmw" using write_bytes_exact[OF W(1)] F(3) unat_u64_less[of len] fc by simp
    have "\<exists>rmw' d'. fill_loop io dev (ssz dev) (pos + of_nat ?c) off len fill rmw1 d1 = (Inr (), rmw', d') \<and> ready d' \<and> cap d' = cap d1"
    proof (rule less.hyps[OF _ W(2)])
      show "unat len - unat (pos + of_nat ?c) < unat len - unat pos" using F(1,2,3) by linarith
      show "pos + of_nat ?c \<le> len" using F(1,3) by (simp add: word_le_nat_alt)
      show "ssz dev \<le> length rmw1" "unat off + unat len \<le> cap d1 dev" using less.prems lr W(3) by simp_all
    qed
    then show ?thesis using False c o'(1) W by (subst fill_loop.simps) (simp add: Let_def)
  qed
qed

lemma fill_bytes_ok:
  assumes "ready d" "unat off + unat len \<le> cap d dev" "ssz dev \<le> length rmw" "ssz dev \<le> length fill"
  shows "\<exists>fill' rmw' d'. fill_bytes io dev off len byte fill rmw d = (Inr (), fill', rmw', d') \<and> ready d' \<and> cap d' = cap d"
  using fill_loop_ok[of d dev "replicate (ssz dev) byte @ drop (ssz dev) fill" byte rmw 0 len off] assms cap_sectors[OF assms(1), of dev]
  by (auto simp: fill_bytes_def sector_size Let_def)

lemma exec_read_ok:
  assumes "ready d" "ssz (s_device s) \<le> length (rg_rmw_sector rg)" "unat (s_disk_offset s) + unat (s_len s) \<le> cap d (s_device s)"
    and p: "resolve rg (s_region s) (s_region_offset s) (s_len s) = Inr p"
  shows "\<exists>rg' d'. exec_read io s rg d = (Inr (), rg', d') \<and> ready d' \<and> cap d' = cap d \<and> same_shape rg rg'"
proof -
  let ?buf = "region_buf rg (s_region s)" let ?dst = "slice_at p (unat (s_len s)) ?buf"
  have P: "p + unat (s_len s) \<le> length ?buf" by (rule resolve_Inr(2)[OF p])
  then have len: "length ?dst = unat (s_len s)" by simp
  then have "unat (s_disk_offset s) + length ?dst \<le> cap d (s_device s)" using assms(3) by simp
  from read_bytes_ok[OF assms(1) this assms(2)] obtain dst rmw d' where
    R: "read_bytes io (s_device s) (s_disk_offset s) ?dst (rg_rmw_sector rg) d = (Inr (), dst, rmw, d')" "ready d'" "cap d' = cap d" by blast
  have L: "length dst = unat (s_len s)" "length rmw = length (rg_rmw_sector rg)"
    using read_bytes_exact[OF R(1)] len unat_u64_less[of "s_len s"] by simp_all
  have "same_shape rg ((region_put (s_region s) (splice_at p dst ?buf) rg)\<lparr>rg_rmw_sector := rmw\<rparr>)"
    by (rule same_shape_service(1)[OF _ same_shape_put]) (use L P in \<open>simp_all add: splice_at_def\<close>)
  then show ?thesis using p R by (simp add: exec_read_def)
qed

lemma exec_write_ok:
  assumes "ready d" "ssz (s_device s) \<le> length (rg_rmw_sector rg)" "unat (s_disk_offset s) + unat (s_len s) \<le> cap d (s_device s)"
    and p: "resolve rg (s_region s) (s_region_offset s) (s_len s) = Inr p"
  shows "\<exists>rg' d'. exec_write io s rg d = (Inr (), rg', d') \<and> ready d' \<and> cap d' = cap d \<and> same_shape rg rg'"
proof -
  let ?buf = "region_buf rg (s_region s)" let ?src = "slice_at p (unat (s_len s)) ?buf"
  have len: "length ?src = unat (s_len s)" using resolve_Inr(2)[OF p] by simp
  then have "unat (s_disk_offset s) + length ?src \<le> cap d (s_device s)" using assms(3) by simp
  from write_bytes_ok[OF assms(1) this assms(2)] obtain rmw d' where
    R: "write_bytes io (s_device s) (s_disk_offset s) ?src (rg_rmw_sector rg) d = (Inr (), rmw, d')" "ready d'" "cap d' = cap d" by blast
  have L: "length rmw = length (rg_rmw_sector rg)" using write_bytes_exact[OF R(1)] len unat_u64_less[of "s_len s"] by simp
  have "same_shape rg (rg\<lparr>rg_rmw_sector := rmw\<rparr>)"
    by (rule same_shape_service(1)[OF L]) (simp add: same_shape_def)
  then show ?thesis using p R by (simp add: exec_write_def)
qed

lemma exec_fill_ok:
  assumes "ready d" "ssz (s_device s) \<le> length (rg_rmw_sector rg)" "ssz (s_device s) \<le> length (rg_fill_sector rg)"
    and "unat (s_disk_offset s) + unat (s_len s) \<le> cap d (s_device s)"
  shows "\<exists>rg' d'. exec_fill io s byte rg d = (Inr (), rg', d') \<and> ready d' \<and> cap d' = cap d \<and> same_shape rg rg'"
proof -
  from fill_bytes_ok[OF assms(1,4,2,3)] obtain fill rmw d' where
    R: "fill_bytes io (s_device s) (s_disk_offset s) (s_len s) byte (rg_fill_sector rg) (rg_rmw_sector rg) d = (Inr (), fill, rmw, d')"
      "ready d'" "cap d' = cap d" by blast
  have "same_shape rg (rg\<lparr>rg_rmw_sector := rmw, rg_fill_sector := fill\<rparr>)"
    by (rule same_shape_service(2)) (use fill_bytes_exact[OF R(1)] in \<open>simp_all add: same_shape_def\<close>)
  then show ?thesis using R by (simp add: exec_fill_def)
qed

lemma exec_step_ok:
  assumes r: "ready d" and a: "ample ssz rg" and f: "step_fits (cap d) rg s"
  shows "\<exists>rg' d' st'. exec_step io s rg d st = (Inr (), rg', d', st') \<and> ready d' \<and> cap d' = cap d \<and> same_shape rg rg'"
proof -
  have sv: "ssz (s_device s) \<le> length (rg_rmw_sector rg)" "ssz (s_device s) \<le> length (rg_fill_sector rg)" using a by (simp_all add: ample_def)
  have put: "same_shape rg (region_put (s_region s) (splice_at p b (region_buf rg (s_region s))) rg)"
    if "p + length b \<le> length (region_buf rg (s_region s))" for p b
    by (rule same_shape_put) (use that in \<open>simp add: splice_at_def\<close>)
  show ?thesis
  proof (cases "s_kind s")
    case ReadCluster
    then show ?thesis using f exec_read_ok[OF r sv(1)] by (fastforce simp: exec_step_def step_fits_def)
  next
    case LoadCluster
    then show ?thesis using f exec_read_ok[OF r sv(1)] by (fastforce simp: exec_step_def step_fits_def)
  next
    case WriteRange
    then show ?thesis using f exec_write_ok[OF r sv(1)] by (fastforce simp: exec_step_def step_fits_def)
  next
    case WritebackCluster
    then show ?thesis using f exec_write_ok[OF r sv(1)] by (fastforce simp: exec_step_def step_fits_def)
  next
    case ZeroRange
    then show ?thesis using f exec_fill_ok[OF r sv, of 0] by (fastforce simp: exec_step_def step_fits_def)
  next
    case FillRange
    then show ?thesis using f exec_fill_ok[OF r sv, of "ucast (s_value s)"] by (fastforce simp: exec_step_def step_fits_def)
  next
    case PatchEntryU64
    then obtain p where p: "resolve rg (s_region s) (s_region_offset s) 8 = Inr p" using f by (auto simp: step_fits_def)
    then show ?thesis using PatchEntryU64 r put[of p "u64_to_be (s_value s)"] resolve_Inr(2)[OF p]
      by (simp add: exec_step_def)
  next
    case ZeroRegion
    then obtain p where p: "resolve rg (s_region s) (s_region_offset s) (s_len s) = Inr p" using f by (auto simp: step_fits_def)
    then show ?thesis using ZeroRegion r put[of p "replicate (unat (s_len s)) 0"] resolve_Inr(2)[OF p]
      by (simp add: exec_step_def)
  next
    case (Barrier c)
    have refl: "same_shape rg rg" by (simp add: same_shape_def)
    obtain q d' where "io_fsync io d (s_device s) = (q, d')" "q \<noteq> Some False" "ready d'" "cap d' = cap d" using fsync_ok[OF r] by blast
    then show ?thesis using Barrier r refl by (cases c; cases q) (auto simp: exec_step_def)
  qed
qed

lemma execute_from_ok:
  assumes "ready d" "ample ssz rg" "\<forall>s\<in>set ss. step_fits (cap d) rg s"
  shows "\<exists>st' rg' d'. execute_from io i ss rg d st = (Inr st', rg', d') \<and> ready d' \<and> cap d' = cap d \<and> same_shape rg rg'"
  using assms
proof (induction ss arbitrary: i rg d st)
  case Nil
  then show ?case by (simp add: same_shape_def)
next
  case (Cons s ss)
  from exec_step_ok[OF Cons.prems(1,2)] Cons.prems(3) obtain rg1 d1 st1 where
    S: "exec_step io s rg d st = (Inr (), rg1, d1, st1)" "ready d1" "cap d1 = cap d" "same_shape rg rg1" by (metis list.set_intros(1))
  have "ample ssz rg1" using Cons.prems(2) S(4) by (simp add: ample_def same_shape_def)
  moreover have "\<forall>s\<in>set ss. step_fits (cap d1) rg1 s" using Cons.prems(3) S(3) step_fits_shape[OF S(4)] by simp
  ultimately have "\<exists>st' rg' d'. execute_from io (Suc i) ss rg1 d1 (st1\<lparr>es_steps_executed := es_steps_executed st1 + 1\<rparr>) = (Inr st', rg', d')
      \<and> ready d' \<and> cap d' = cap d1 \<and> same_shape rg1 rg'" by (rule Cons.IH[OF S(2)])
  then show ?case using S same_shape_trans[OF S(4)] by auto
qed

end

section \<open>The call table as a device\<close>

definition ct_size :: "'w call_table \<Rightarrow> target_device \<Rightarrow> nat" where
  "ct_size ct dev = (case dev of Input0 \<Rightarrow> get_input_sector_size ct 0 | Output \<Rightarrow> get_output_sector_size ct)"

definition ct_read :: "'w call_table \<Rightarrow> 'w \<Rightarrow> target_device \<Rightarrow> u64 \<Rightarrow> bytes \<Rightarrow> bool \<times> bytes \<times> 'w" where
  "ct_read ct w dev s buf = (case dev of Input0 \<Rightarrow> read_input_sector ct w 0 s buf | Output \<Rightarrow> read_output_sector ct w s buf)"

definition ct_write :: "'w call_table \<Rightarrow> 'w \<Rightarrow> target_device \<Rightarrow> u64 \<Rightarrow> bytes \<Rightarrow> bool \<times> 'w" where
  "ct_write ct w dev s buf = (case dev of Input0 \<Rightarrow> write_input_sector ct w 0 s buf | Output \<Rightarrow> write_output_sector ct w s buf)"

text \<open>What the documentation of the call table says: a sector read or write that returns true transferred the
  whole sector, and reads and fsync change no byte.\<close>

definition table_disk :: "'w call_table \<Rightarrow> ('w \<Rightarrow> target_device \<Rightarrow> nat \<Rightarrow> 8 word) \<Rightarrow> bool" where
  "table_disk ct content \<longleftrightarrow>
     (\<forall>w dev s buf ok buf' w'. ct_read ct w dev s buf = (ok, buf', w') \<longrightarrow> length buf = ct_size ct dev \<longrightarrow>
        length buf' = ct_size ct dev \<and> content w' = content w \<and>
        (ok \<longrightarrow> buf' = bytes_at (content w dev) (unat s * ct_size ct dev) (ct_size ct dev))) \<and>
     (\<forall>w dev s buf w'. ct_write ct w dev s buf = (True, w') \<longrightarrow> length buf = ct_size ct dev \<longrightarrow>
        content w' = (content w)(dev := overwrite (unat s * ct_size ct dev) buf (content w dev))) \<and>
     (\<forall>w ok w'. fsync_input ct w 0 = (ok, w') \<longrightarrow> content w' = content w)"

text \<open>A table whose devices are healthy in the worlds \<open>ready\<close>.\<close>

definition table_healthy :: "'w call_table \<Rightarrow> ('w \<Rightarrow> bool) \<Rightarrow> ('w \<Rightarrow> target_device \<Rightarrow> nat) \<Rightarrow> bool" where
  "table_healthy ct ready cap \<longleftrightarrow>
     (\<forall>w dev. ready w \<longrightarrow> 0 < ct_size ct dev \<and> ct_size ct dev dvd cap w dev \<and> cap w dev < 2 ^ 64) \<and>
     (\<forall>w dev s buf. ready w \<longrightarrow> unat s * ct_size ct dev + ct_size ct dev \<le> cap w dev \<longrightarrow> length buf = ct_size ct dev \<longrightarrow>
        (\<exists>buf' w'. ct_read ct w dev s buf = (True, buf', w') \<and> ready w' \<and> cap w' = cap w) \<and>
        (\<exists>w'. ct_write ct w dev s buf = (True, w') \<and> ready w' \<and> cap w' = cap w)) \<and>
     (\<forall>w. ready w \<longrightarrow> (\<exists>w'. fsync_input ct w 0 = (True, w') \<and> ready w' \<and> cap w' = cap w))"

lemma call_table_device_simps:
  "io_sector_size (call_table_device (call_table_io_new ct f)) w dev = ct_size ct dev"
  "io_read_sector (call_table_device (call_table_io_new ct f)) w dev s buf =
     (if length buf \<noteq> ct_size ct dev then (False, buf, w) else ct_read ct w dev s buf)"
  "io_write_sector (call_table_device (call_table_io_new ct f)) w dev s buf =
     (if length buf \<noteq> ct_size ct dev then (False, w) else ct_write ct w dev s buf)"
  "io_fsync (call_table_device (call_table_io_new ct f)) w dev =
     (if dev = Input0 \<and> f then let (ok, w') = fsync_input ct w 0 in (Some ok, w') else (None, w))"
  by (simp_all add: call_table_device_def call_table_io_new_def ci_sector_size_def ci_read_sector_def ci_write_sector_def
      ci_fsync_def ct_size_def ct_read_def ct_write_def split: target_device.split)

lemma table_sector_disk:
  assumes "table_disk ct content"
  shows "sector_disk (call_table_device (call_table_io_new ct f)) content (ct_size ct)"
proof
  fix d dev s buf ok buf' d'
  assume "io_read_sector (call_table_device (call_table_io_new ct f)) d dev s buf = (ok, buf', d')" "length buf = ct_size ct dev"
  then show "length buf' = ct_size ct dev \<and> content d' = content d \<and>
      (ok \<longrightarrow> buf' = bytes_at (content d dev) (unat s * ct_size ct dev) (ct_size ct dev))"
    using assms by (simp add: call_table_device_simps table_disk_def)
next
  fix d dev s buf d'
  assume "io_write_sector (call_table_device (call_table_io_new ct f)) d dev s buf = (True, d')" "length buf = ct_size ct dev"
  then show "content d' = (content d)(dev := overwrite (unat s * ct_size ct dev) buf (content d dev))"
    using assms by (simp add: call_table_device_simps table_disk_def)
next
  fix d dev r d'
  assume "io_fsync (call_table_device (call_table_io_new ct f)) d dev = (r, d')"
  then show "content d' = content d" using assms
    by (auto simp: call_table_device_simps table_disk_def split: if_splits prod.splits)
qed (simp add: call_table_device_simps)

lemma table_healthy_disk:
  assumes "table_disk ct content" "table_healthy ct ready cap"
  shows "healthy_disk (call_table_device (call_table_io_new ct f)) content (ct_size ct) ready cap"
proof (rule healthy_disk.intro[OF table_sector_disk[OF assms(1)]], rule healthy_disk_axioms.intro)
  fix d dev assume "ready d"
  then show "0 < ct_size ct dev \<and> ct_size ct dev dvd cap d dev \<and> cap d dev < 2 ^ 64"
    using assms(2) by (simp add: table_healthy_def)
next
  fix d dev and s :: u64 and buf :: bytes assume "ready d" "unat s * ct_size ct dev + ct_size ct dev \<le> cap d dev" "length buf = ct_size ct dev"
  then show "\<exists>buf' d'. io_read_sector (call_table_device (call_table_io_new ct f)) d dev s buf = (True, buf', d') \<and> ready d' \<and> cap d' = cap d"
    "\<exists>d'. io_write_sector (call_table_device (call_table_io_new ct f)) d dev s buf = (True, d') \<and> ready d' \<and> cap d' = cap d"
    using assms(2) by (simp_all add: call_table_device_simps table_healthy_def)
next
  fix d dev assume "ready d"
  then show "\<exists>r d'. io_fsync (call_table_device (call_table_io_new ct f)) d dev = (r, d') \<and> r \<noteq> Some False \<and> ready d' \<and> cap d' = cap d"
    using assms(2) by (cases "dev = Input0 \<and> f") (auto simp: call_table_device_simps table_healthy_def)
qed

section \<open>Devices in memory\<close>

text \<open>A call table over two byte vectors, as the mock device of the crate's own tests: sectors of \<open>n\<close> bytes,
  and a transfer fails exactly when the sector lies outside the vector.\<close>

type_synonym vec_world = "target_device \<Rightarrow> bytes"

definition vec_read :: "nat \<Rightarrow> vec_world \<Rightarrow> target_device \<Rightarrow> u64 \<Rightarrow> bytes \<Rightarrow> bool \<times> bytes \<times> vec_world" where
  "vec_read n w dev s buf = (if length buf = n \<and> unat s * n + n \<le> length (w dev)
     then (True, slice_at (unat s * n) n (w dev), w) else (False, buf, w))"

definition vec_write :: "nat \<Rightarrow> vec_world \<Rightarrow> target_device \<Rightarrow> u64 \<Rightarrow> bytes \<Rightarrow> bool \<times> vec_world" where
  "vec_write n w dev s buf = (if length buf = n \<and> unat s * n + n \<le> length (w dev)
     then (True, w(dev := splice_at (unat s * n) buf (w dev))) else (False, w))"

definition vec_table :: "nat \<Rightarrow> vec_world call_table" where
  "vec_table n = \<lparr>read_input_sector = (\<lambda>w i. vec_read n w Input0), write_input_sector = (\<lambda>w i. vec_write n w Input0),
     read_output_sector = (\<lambda>w. vec_read n w Output), write_output_sector = (\<lambda>w. vec_write n w Output),
     fsync_input = (\<lambda>w i. (True, w)), get_input_sector_size = (\<lambda>i. n), get_output_sector_size = n\<rparr>"

definition vec_content :: "vec_world \<Rightarrow> target_device \<Rightarrow> nat \<Rightarrow> 8 word" where
  "vec_content w dev x = (if x < length (w dev) then w dev ! x else 0)"

definition vec_ready :: "nat \<Rightarrow> vec_world \<Rightarrow> bool" where
  "vec_ready n w \<longleftrightarrow> (\<forall>dev. n dvd length (w dev) \<and> length (w dev) < 2 ^ 64)"

definition vec_cap :: "vec_world \<Rightarrow> target_device \<Rightarrow> nat" where
  "vec_cap w dev = length (w dev)"

lemma vec_access: "ct_size (vec_table n) dev = n" "ct_read (vec_table n) w dev s buf = vec_read n w dev s buf"
  "ct_write (vec_table n) w dev s buf = vec_write n w dev s buf"
  by (simp_all add: vec_table_def ct_size_def ct_read_def ct_write_def split: target_device.split)

lemma slice_content: "off + k \<le> length (w dev) \<Longrightarrow> slice_at off k (w dev) = bytes_at (vec_content w dev) off k"
  by (rule nth_equalityI) (simp_all add: bytes_at_def slice_at_def vec_content_def)

lemma vec_table_disk: "table_disk (vec_table n) vec_content"
proof -
  have "vec_content (w(dev := splice_at off buf (w dev))) = (vec_content w)(dev := overwrite off buf (vec_content w dev))"
    if "off + length buf \<le> length (w dev)" for w dev off buf
  proof (intro ext)
    fix e x
    have "length (splice_at off buf (w dev)) = length (w dev)" using that by (simp add: splice_at_def)
    then show "vec_content (w(dev := splice_at off buf (w dev))) e x = ((vec_content w)(dev := overwrite off buf (vec_content w dev))) e x"
      using that by (auto simp: vec_content_def overwrite_def nth_splice_at)
  qed
  then show ?thesis unfolding table_disk_def vec_access
    by (auto simp: vec_read_def vec_write_def slice_content vec_table_def split: if_splits)
qed

lemma vec_table_healthy: "0 < n \<Longrightarrow> table_healthy (vec_table n) (vec_ready n) vec_cap"
proof -
  assume n: "0 < n"
  have "vec_ready n (w(dev := b)) \<and> vec_cap (w(dev := b)) = vec_cap w" if "vec_ready n w" "length b = length (w dev)" for w dev b
    using that by (auto simp: vec_ready_def vec_cap_def fun_eq_iff)
  then show ?thesis unfolding table_healthy_def vec_access using n
    by (simp add: vec_read_def vec_write_def vec_table_def splice_at_def) (simp add: vec_ready_def vec_cap_def)
qed

interpretation vec_device: healthy_disk "call_table_device (call_table_io_new (vec_table 512) True)" vec_content "ct_size (vec_table 512)"
    "vec_ready 512" vec_cap
  by (rule table_healthy_disk[OF vec_table_disk vec_table_healthy]) simp

lemma execute_from_stats:
  "execute_from io i ss rg d st = (Inr st', rg', d') \<Longrightarrow> es_steps_executed st' = es_steps_executed st + of_nat (length ss)"
proof (induction ss arbitrary: i rg d st)
  case (Cons s ss)
  obtain r rg1 d1 st1 where S: "exec_step io s rg d st = (r, rg1, d1, st1)" by (metis prod_cases4)
  have "es_steps_executed st1 = es_steps_executed st" using S
    by (auto simp: exec_step_def Let_def split: step_kind.splits barrier_class.splits sum.splits prod.splits option.splits bool.splits)
  then show ?case using Cons.IH[of "Suc i" rg1 d1] Cons.prems S by (cases r) auto
qed simp

section \<open>An execution in memory\<close>

definition ex_regions :: regions where
  "ex_regions = \<lparr>rg_l1 = [1, 2, 3, 4, 5, 6, 7, 8], rg_l2_window = [], rg_refcount_table = [], rg_refblocks = [], rg_bounce = [],
     rg_caller_data = [], rg_rmw_sector = replicate 4 0, rg_fill_sector = replicate 4 0, rg_cluster_size = 8\<rparr>"

definition ex_world :: vec_world where
  "ex_world = (\<lambda>dev. replicate 16 0xEE)"

definition ex_program :: "step list" where
  "ex_program = [\<lparr>s_kind = WriteRange, s_device = Output, s_region = RL1, s_region_offset = 0, s_disk_offset = 2, s_len = 8, s_value = 0\<rparr>,
     \<lparr>s_kind = Barrier Durability, s_device = Output, s_region = RBounce, s_region_offset = 0, s_disk_offset = 0, s_len = 0, s_value = 0\<rparr>]"

lemma ex_program_fits: "vec_ready 4 ex_world" "ample (ct_size (vec_table 4)) ex_regions"
  "\<forall>s\<in>set ex_program. step_fits (vec_cap ex_world) ex_regions s"
  by (simp_all add: vec_ready_def ex_world_def ample_def vec_access ex_regions_def ex_program_def step_fits_def resolve_def bind_res_def
      checked_add_def vec_cap_def)

lemma ex_table_healthy: "table_healthy (vec_table 4) (vec_ready 4) vec_cap"
  by (rule vec_table_healthy) simp

lemma ex_program_run:
  obtains stats rg w where "execute (call_table_device (call_table_io_new (vec_table 4) False)) ex_program ex_regions ex_world = (Inr stats, rg, w)"
  using healthy_disk.execute_from_ok[OF table_healthy_disk[OF vec_table_disk ex_table_healthy, of False], OF ex_program_fits,
      of 0 "\<lparr>es_steps_executed = 0, es_fsyncs = 0\<rparr>"] that by (auto simp: execute_def)

section \<open>Properties\<close>

text \<open>(C5) The executor implements the step contracts: over any call table that behaves as documented, whatever
  the sector size and even if sectors may fail, a run that returns success has changed the regions and
  the bytes of the disks exactly as the contracts of its steps say, one after the other; the
  sub-sector read-modify-write at the edges of a range changes no neighbouring byte.\<close>

theorem execute_refines_contracts:
  assumes "table_disk ct content"
    and "execute (call_table_device (call_table_io_new ct input_fsync)) steps rg w = (Inr stats, rg', w')"
  shows "fold apply_step steps (plain rg, content w) = (plain rg', content w')"
  using sector_disk.execute_from_refines[OF table_sector_disk[OF assms(1)]] assms(2) by (simp add: execute_def)

theorem execute_refines_contracts_witness:
  "\<exists>stats rg w. execute (call_table_device (call_table_io_new (vec_table 4) False)) ex_program ex_regions ex_world = (Inr stats, rg, w) \<and>
     map (vec_content w Output) [0..<12] = [0xEE, 0xEE, 1, 2, 3, 4, 5, 6, 7, 8, 0xEE, 0xEE]"
proof -
  obtain stats rg w where R: "execute (call_table_device (call_table_io_new (vec_table 4) False)) ex_program ex_regions ex_world = (Inr stats, rg, w)"
    by (rule ex_program_run)
  have "fold apply_step ex_program (plain ex_regions, vec_content ex_world) = (plain rg, vec_content w)"
    by (rule execute_refines_contracts[OF vec_table_disk R])
  then have "vec_content w = snd (fold apply_step ex_program (plain ex_regions, vec_content ex_world))" by simp
  then have "vec_content w Output = overwrite 2 [1, 2, 3, 4, 5, 6, 7, 8] (vec_content ex_world Output)"
    by (simp add: ex_program_def apply_step_def ex_regions_def plain_def region_start_def slice_at_def)
  moreover have "map (overwrite 2 [1, 2, 3, 4, 5, 6, 7, 8] (vec_content ex_world Output)) [0..<12] =
      [0xEE, 0xEE, 1, 2, 3, 4, 5, 6, 7, 8, 0xEE, 0xEE]"
    by (simp add: upt_rec overwrite_def vec_content_def ex_world_def)
  ultimately have "map (vec_content w Output) [0..<12] = [0xEE, 0xEE, 1, 2, 3, 4, 5, 6, 7, 8, 0xEE, 0xEE]" by simp
  then show ?thesis using R by (intro exI conjI)
qed

text \<open>(C6) The executor does not refuse: over healthy devices, when every step's window lies in its region, its
  disk range inside the device, and the service buffers hold a sector, every step is executed and
  counted, and the result is that of the contracts.\<close>

theorem execute_completes:
  assumes "table_disk ct content" "table_healthy ct ready cap" "ready w" "ample (ct_size ct) rg"
    and "\<forall>s\<in>set steps. step_fits (cap w) rg s"
  shows "\<exists>stats rg' w'. execute (call_table_device (call_table_io_new ct input_fsync)) steps rg w = (Inr stats, rg', w') \<and>
    es_steps_executed stats = of_nat (length steps) \<and>
    fold apply_step steps (plain rg, content w) = (plain rg', content w')"
proof -
  obtain stats rg' w' where R: "execute_from (call_table_device (call_table_io_new ct input_fsync)) 0 steps rg w
      \<lparr>es_steps_executed = 0, es_fsyncs = 0\<rparr> = (Inr stats, rg', w')"
    using healthy_disk.execute_from_ok[OF table_healthy_disk[OF assms(1,2)] assms(3,4,5)] by blast
  show ?thesis using R execute_from_stats[OF R] sector_disk.execute_from_refines[OF table_sector_disk[OF assms(1)] R]
    by (simp add: execute_def)
qed

theorem execute_completes_witness:
  "\<exists>stats rg w. execute (call_table_device (call_table_io_new (vec_table 4) False)) ex_program ex_regions ex_world = (Inr stats, rg, w) \<and>
     es_steps_executed stats = 2"
  using execute_completes[OF vec_table_disk ex_table_healthy, OF ex_program_fits, where input_fsync = False]
  by (auto simp: ex_program_def)

end
