(* ===== verification/Step_Frame.thy ===== *)
theory Step_Frame
  imports Step_Refine
begin

text \<open>
  What an execution cannot change, whether it succeeds or fails: the sizes of the buffers, the regions that
  no step writes into, and the devices that no step addresses.  The interface \<open>frame_io\<close> is what the type
  of a Rust buffer and the separation of the two devices give; nothing is assumed about success.
\<close>

section \<open>Regions that stay apart\<close>

definition disjoint_regions :: "region_id \<Rightarrow> region_id \<Rightarrow> bool" where
  "disjoint_regions r q \<longleftrightarrow> (case (r, q) of (RL2Slot _, RL2Slot _) \<Rightarrow> False | _ \<Rightarrow> r \<noteq> q)"

definition stages :: "step \<Rightarrow> bool" where
  "stages s \<longleftrightarrow> s_kind s \<in> {ReadCluster, LoadCluster, PatchEntryU64, ZeroRegion}"

definition region_frame :: "step \<Rightarrow> regions \<Rightarrow> regions \<Rightarrow> bool" where
  "region_frame s rg rg' \<longleftrightarrow> same_shape rg rg' \<and> (\<forall>q. \<not> stages s \<or> disjoint_regions (s_region s) q \<longrightarrow> region_buf rg' q = region_buf rg q)"

lemma region_put_disjoint: "disjoint_regions r q \<Longrightarrow> region_buf (region_put r b rg) q = region_buf rg q"
  by (cases r; cases q) (auto simp: disjoint_regions_def)

lemma region_buf_service [simp]:
  "region_buf (rg\<lparr>rg_rmw_sector := x\<rparr>) q = region_buf rg q" "region_buf (rg\<lparr>rg_fill_sector := y\<rparr>) q = region_buf rg q"
  by (cases q; simp)+

lemma same_shape_refl [simp]: "same_shape rg rg"
  by (simp add: same_shape_def)

lemma region_frame_put:
  assumes "resolve rg (s_region s) off n = Inr p" "length b \<le> unat n" "stages s"
  shows "region_frame s rg (region_put (s_region s) (splice_at p b (region_buf rg (s_region s))) rg)"
proof -
  have "p + length b \<le> length (region_buf rg (s_region s))" using resolve_Inr(2)[OF assms(1)] assms(2) by simp
  then have "same_shape rg (region_put (s_region s) (splice_at p b (region_buf rg (s_region s))) rg)"
    by (intro same_shape_put) (simp add: splice_at_def)
  then show ?thesis using assms(3) by (simp add: region_frame_def region_put_disjoint)
qed

section \<open>Devices that stay apart\<close>

locale frame_io =
  fixes io :: "'d device_io" and content :: "'d \<Rightarrow> target_device \<Rightarrow> nat \<Rightarrow> 8 word"
  assumes read_len: "io_read_sector io d dev s buf = (ok, buf', d') \<Longrightarrow> length buf' = length buf"
    and read_frame: "io_read_sector io d dev s buf = (ok, buf', d') \<Longrightarrow> content d' = content d"
    and write_frame: "io_write_sector io d dev s buf = (ok, d') \<Longrightarrow> dev' \<noteq> dev \<Longrightarrow> content d' dev' = content d dev'"
    and fsync_frame: "io_fsync io d dev = (q, d') \<Longrightarrow> content d' = content d"
begin

lemma read_chunk_frame:
  assumes "read_chunk io device ssz pos in_off tk sector dst bounce d = (ok, dst', bounce', d')"
    "in_off + tk \<le> ssz" "pos + tk \<le> length dst" "length bounce = ssz"
  shows "length dst' = length dst \<and> length bounce' = ssz \<and> content d' = content d"
  using assms by (auto simp: read_chunk_def Let_def split: if_splits prod.splits dest: read_len read_frame)

lemma read_loop_frame:
  assumes "read_loop io dev ssz n pos cur dst bounce d = (r, dst', bounce', d')" "n \<le> length dst" "length bounce = ssz"
  shows "length dst' = length dst \<and> length bounce' = ssz \<and> content d' = content d"
  using assms
proof (induction "n - pos" arbitrary: pos cur dst bounce d rule: less_induct)
  case less
  show ?case
  proof (cases "n \<le> pos \<or> ssz = 0")
    case True
    then show ?thesis using less.prems by (auto simp: read_loop.simps[of io dev ssz])
  next
    case False
    let ?i = "unat cur mod ssz" let ?t = "min (ssz - ?i) (n - pos)"
    obtain ok dst1 b1 d1 where C: "read_chunk io dev ssz pos ?i ?t (of_nat (unat cur div ssz)) dst bounce d = (ok, dst1, b1, d1)"
      by (metis prod_cases4)
    have i: "?i < ssz" using False by simp
    have t: "n - (pos + ?t) < n - pos" "?i + ?t \<le> ssz" "pos + ?t \<le> length dst" using False i less.prems(2) by auto
    have F: "length dst1 = length dst" "length b1 = ssz" "content d1 = content d" using read_chunk_frame[OF C t(2,3) less.prems(3)] by auto
    have n1: "n \<le> length dst1" using less.prems(2) F(1) by simp
    show ?thesis using less.prems(1) False C F less.hyps[OF t(1) _ n1 F(2)]
      by (subst (asm) read_loop.simps) (auto simp: Let_def split: if_splits option.splits)
  qed
qed

lemma write_chunk_frame:
  assumes "write_chunk io dev ssz pos in_off tk sector src bounce d = (r, bounce', d')"
    "in_off + tk \<le> ssz" "pos + tk \<le> length src" "length bounce = ssz"
  shows "length bounce' = ssz \<and> (\<forall>dev'. dev' \<noteq> dev \<longrightarrow> content d' dev' = content d dev')"
proof (cases "in_off = 0 \<and> tk = ssz")
  case True
  then show ?thesis using assms by (auto simp: write_chunk_def Let_def split: prod.splits dest: write_frame)
next
  case False
  obtain ok buf d1 where R: "io_read_sector io d dev sector bounce = (ok, buf, d1)" by (metis prod_cases3)
  have b: "length buf = ssz" "content d1 = content d" using read_len[OF R] read_frame[OF R] assms(4) by auto
  have sp: "length (splice_at in_off (slice_at pos tk src) buf) = ssz" using assms(2,3) b by simp
  obtain ok2 d2 where W: "io_write_sector io d1 dev sector (splice_at in_off (slice_at pos tk src) buf) = (ok2, d2)" by (metis prod.exhaust)
  show ?thesis using assms(1) False R W b sp write_frame[OF W] by (auto simp: write_chunk_def Let_def split: if_splits)
qed

lemma write_loop_frame:
  assumes "write_loop io dev ssz pos cur src bounce d = (r, bounce', d')" "length bounce = ssz"
  shows "length bounce' = ssz \<and> (\<forall>dev'. dev' \<noteq> dev \<longrightarrow> content d' dev' = content d dev')"
  using assms
proof (induction "length src - pos" arbitrary: pos cur bounce d rule: less_induct)
  case less
  show ?case
  proof (cases "length src \<le> pos \<or> ssz = 0")
    case True
    then show ?thesis using less.prems by (auto simp: write_loop.simps[of io dev ssz])
  next
    case False
    let ?i = "unat cur mod ssz" let ?t = "min (ssz - ?i) (length src - pos)"
    obtain q b1 d1 where C: "write_chunk io dev ssz pos ?i ?t (of_nat (unat cur div ssz)) src bounce d = (q, b1, d1)" by (metis prod_cases3)
    have i: "?i < ssz" using False by simp
    have t: "length src - (pos + ?t) < length src - pos" "?i + ?t \<le> ssz" "pos + ?t \<le> length src" using False i by auto
    have F: "length b1 = ssz" "\<forall>dev'. dev' \<noteq> dev \<longrightarrow> content d1 dev' = content d dev'" using write_chunk_frame[OF C t(2,3) less.prems(2)] by auto
    show ?thesis using less.prems(1) False C F less.hyps[OF t(1) _ F(1)]
      by (subst (asm) write_loop.simps) (auto simp: Let_def split: sum.splits option.splits)
  qed
qed

lemma read_bytes_frame:
  assumes "read_bytes io dev off dst rmw d = (r, dst', rmw', d')"
  shows "length dst' = length dst \<and> length rmw' = length rmw \<and> content d' = content d"
proof (cases "dst = [] \<or> io_sector_size io d dev = 0 \<or> length rmw < io_sector_size io d dev")
  case True
  then show ?thesis using assms by (auto simp: read_bytes_def Let_def split: if_splits)
next
  case False
  let ?n = "io_sector_size io d dev"
  obtain q x b d1 where L: "read_loop io dev ?n (length dst) 0 off dst (take ?n rmw) d = (q, x, b, d1)" by (metis prod_cases4)
  show ?thesis using assms False L read_loop_frame[OF L] by (auto simp: read_bytes_def Let_def)
qed

lemma write_bytes_frame:
  assumes "write_bytes io dev off src rmw d = (r, rmw', d')"
  shows "length rmw' = length rmw \<and> (\<forall>dev'. dev' \<noteq> dev \<longrightarrow> content d' dev' = content d dev')"
proof (cases "src = [] \<or> io_sector_size io d dev = 0 \<or> length rmw < io_sector_size io d dev")
  case True
  then show ?thesis using assms by (auto simp: write_bytes_def Let_def split: if_splits)
next
  case False
  let ?n = "io_sector_size io d dev"
  obtain q b d1 where L: "write_loop io dev ?n 0 off src (take ?n rmw) d = (q, b, d1)" by (metis prod_cases3)
  show ?thesis using assms False L write_loop_frame[OF L] by (auto simp: write_bytes_def Let_def)
qed

lemma fill_loop_frame:
  assumes "fill_loop io dev ssz pos off len fill rmw d = (r, rmw', d')"
  shows "length rmw' = length rmw \<and> (\<forall>dev'. dev' \<noteq> dev \<longrightarrow> content d' dev' = content d dev')"
  using assms
proof (induction "unat len - unat pos" arbitrary: pos rmw d rule: less_induct)
  case less
  show ?case
  proof (cases "len \<le> pos \<or> ssz = 0")
    case True
    then show ?thesis using less.prems by (auto simp: fill_loop.simps[of io dev ssz])
  next
    case False
    let ?c = "min (unat (len - pos)) ssz"
    note t = fill_chunk[of len pos ssz]
    have dec: "unat len - unat (pos + of_nat ?c) < unat len - unat pos" using t False by linarith
    show ?thesis
    proof (cases "checked_add off pos")
      case None
      then show ?thesis using less.prems False by (subst (asm) fill_loop.simps) (simp add: Let_def)
    next
      case (Some o')
      obtain q rmw1 d1 where W: "write_bytes io dev o' (take ?c fill) rmw d = (q, rmw1, d1)" by (metis prod_cases3)
      note F = write_bytes_frame[OF W]
      show ?thesis using less.prems False Some W F less.hyps[OF dec, of rmw1 d1]
        by (subst (asm) fill_loop.simps) (auto simp: Let_def split: sum.splits)
    qed
  qed
qed

lemma fill_bytes_frame:
  assumes "fill_bytes io dev off len byte fill rmw d = (r, fill', rmw', d')"
  shows "length fill' = length fill \<and> length rmw' = length rmw \<and> (\<forall>dev'. dev' \<noteq> dev \<longrightarrow> content d' dev' = content d dev')"
proof (cases "len = 0 \<or> io_sector_size io d dev = 0 \<or> length fill < io_sector_size io d dev \<or> length rmw < io_sector_size io d dev")
  case True
  then show ?thesis using assms by (auto simp: fill_bytes_def Let_def split: if_splits)
next
  case False
  let ?n = "io_sector_size io d dev"
  obtain q b d1 where L: "fill_loop io dev ?n 0 off len (replicate ?n byte @ drop ?n fill) rmw d = (q, b, d1)" by (metis prod_cases3)
  show ?thesis using assms False L fill_loop_frame[OF L] by (auto simp: fill_bytes_def Let_def)
qed

lemma exec_read_frame:
  assumes "exec_read io s rg d = (r, rg', d')" "stages s"
  shows "region_frame s rg rg' \<and> content d' = content d"
proof (cases "resolve rg (s_region s) (s_region_offset s) (s_len s)")
  case (Inl e)
  then show ?thesis using assms by (simp add: exec_read_def region_frame_def)
next
  case (Inr p)
  let ?b = "region_buf rg (s_region s)"
  obtain q x rmw d1 where R: "read_bytes io (s_device s) (s_disk_offset s) (slice_at p (unat (s_len s)) ?b) (rg_rmw_sector rg) d = (q, x, rmw, d1)"
    by (metis prod_cases4)
  note F = read_bytes_frame[OF R]
  have "length x = unat (s_len s)" using F resolve_Inr(2)[OF Inr] by simp
  then have P: "region_frame s rg (region_put (s_region s) (splice_at p x ?b) rg)" by (intro region_frame_put[OF Inr _ assms(2)]) simp
  have "region_frame s rg ((region_put (s_region s) (splice_at p x ?b) rg)\<lparr>rg_rmw_sector := rmw\<rparr>)"
    using P F same_shape_service(1)[of rmw "region_put (s_region s) (splice_at p x ?b) rg" rg]
    by (simp add: region_frame_def)
  then show ?thesis using assms(1) Inr R F by (auto simp: exec_read_def)
qed

lemma exec_write_frame:
  assumes "exec_write io s rg d = (r, rg', d')"
  shows "region_frame s rg rg' \<and> (\<forall>dev. dev \<noteq> s_device s \<longrightarrow> content d' dev = content d dev)"
proof (cases "resolve rg (s_region s) (s_region_offset s) (s_len s)")
  case (Inr p)
  obtain q rmw d1 where W: "write_bytes io (s_device s) (s_disk_offset s) (slice_at p (unat (s_len s)) (region_buf rg (s_region s))) (rg_rmw_sector rg) d = (q, rmw, d1)"
    by (metis prod_cases3)
  note F = write_bytes_frame[OF W]
  show ?thesis using assms Inr W F same_shape_service(1)[of rmw rg rg] by (auto simp: exec_write_def region_frame_def)
qed (use assms in \<open>simp add: exec_write_def region_frame_def\<close>)

lemma exec_fill_frame:
  assumes "exec_fill io s byte rg d = (r, rg', d')"
  shows "region_frame s rg rg' \<and> (\<forall>dev. dev \<noteq> s_device s \<longrightarrow> content d' dev = content d dev)"
proof -
  obtain q fill rmw d1 where W: "fill_bytes io (s_device s) (s_disk_offset s) (s_len s) byte (rg_fill_sector rg) (rg_rmw_sector rg) d = (q, fill, rmw, d1)"
    by (metis prod_cases4)
  note F = fill_bytes_frame[OF W]
  show ?thesis using assms W F same_shape_service(2)[of rmw rg fill rg] by (auto simp: exec_fill_def region_frame_def)
qed

lemma exec_step_frame:
  assumes "exec_step io s rg d st = (r, rg', d', st')"
  shows "region_frame s rg rg' \<and> (\<forall>dev. dev \<noteq> s_device s \<longrightarrow> content d' dev = content d dev)"
proof -
  have refl: "region_frame s rg rg" by (simp add: region_frame_def)
  have rd: ?thesis if "exec_read io s rg d = (r, rg', d')" "stages s" using exec_read_frame[OF that] by simp
  show ?thesis
  proof (cases "s_kind s")
    case ReadCluster
    then show ?thesis using assms by (intro rd) (auto simp: exec_step_def stages_def split: prod.splits)
  next
    case LoadCluster
    show ?thesis
    proof (cases "cluster_contract s rg")
      case (Inr u)
      then show ?thesis using assms LoadCluster by (intro rd) (auto simp: exec_step_def stages_def split: prod.splits)
    qed (use assms LoadCluster refl in \<open>simp add: exec_step_def\<close>)
  next
    case WriteRange
    then show ?thesis using assms by (intro exec_write_frame[of s rg d r]) (auto simp: exec_step_def split: prod.splits)
  next
    case WritebackCluster
    show ?thesis
    proof (cases "cluster_contract s rg")
      case (Inr u)
      then show ?thesis using assms WritebackCluster by (intro exec_write_frame[of s rg d r]) (auto simp: exec_step_def split: prod.splits)
    qed (use assms WritebackCluster refl in \<open>simp add: exec_step_def\<close>)
  next
    case ZeroRange
    then show ?thesis using assms by (intro exec_fill_frame[of s 0 rg d r]) (auto simp: exec_step_def split: prod.splits)
  next
    case FillRange
    then show ?thesis using assms by (intro exec_fill_frame[of s "ucast (s_value s)" rg d r]) (auto simp: exec_step_def split: prod.splits)
  next
    case PatchEntryU64
    then show ?thesis using assms refl region_frame_put[of rg s "s_region_offset s" 8 _ "u64_to_be (s_value s)"]
      by (auto simp: exec_step_def stages_def split: sum.splits)
  next
    case ZeroRegion
    then show ?thesis using assms refl region_frame_put[of rg s "s_region_offset s" "s_len s" _ "replicate (unat (s_len s)) 0"]
      by (auto simp: exec_step_def stages_def split: sum.splits)
  next
    case (Barrier c)
    then show ?thesis using assms refl fsync_frame[of d "s_device s"]
      by (cases c) (auto simp: exec_step_def split: prod.splits option.splits bool.splits)
  qed
qed

text \<open>A whole program: the regions no step stages into, and the devices no step addresses, are unchanged.\<close>

lemma execute_from_frame:
  assumes "execute_from io i ss rg d st = (r, rg', d')"
  shows "same_shape rg rg' \<and> (\<forall>q. (\<forall>s\<in>set ss. stages s \<longrightarrow> disjoint_regions (s_region s) q) \<longrightarrow> region_buf rg' q = region_buf rg q) \<and>
    (\<forall>dev. (\<forall>s\<in>set ss. s_device s \<noteq> dev) \<longrightarrow> content d' dev = content d dev)"
  using assms
proof (induction ss arbitrary: i rg d st)
  case (Cons s ss)
  obtain r1 rg1 d1 st1 where S: "exec_step io s rg d st = (r1, rg1, d1, st1)" by (metis prod_cases4)
  note F = exec_step_frame[OF S]
  show ?case
  proof (cases r1)
    case (Inl e)
    then show ?thesis using Cons.prems S F by (auto simp: region_frame_def)
  next
    case (Inr u)
    then have "execute_from io (Suc i) ss rg1 d1 (st1\<lparr>es_steps_executed := es_steps_executed st1 + 1\<rparr>) = (r, rg', d')"
      using Cons.prems S by simp
    from Cons.IH[OF this] show ?thesis using F by (auto simp: region_frame_def intro: same_shape_trans)
  qed
qed simp

lemmas execute_frame = execute_from_frame[of 0 _ _ _ "\<lparr>es_steps_executed = 0, es_fsyncs = 0\<rparr>", folded execute_def]

end

section \<open>The call table\<close>

text \<open>A transfer of the call table keeps the size of the buffer it is given, reads and fsync change no disk byte, and a
  write to one device changes no byte of the other, even when it fails.\<close>

definition table_frame :: "'w call_table \<Rightarrow> ('w \<Rightarrow> target_device \<Rightarrow> nat \<Rightarrow> 8 word) \<Rightarrow> bool" where
  "table_frame ct content \<longleftrightarrow>
     (\<forall>w dev s buf ok buf' w'. ct_read ct w dev s buf = (ok, buf', w') \<longrightarrow> length buf' = length buf \<and> content w' = content w) \<and>
     (\<forall>w dev s buf ok w' dev'. ct_write ct w dev s buf = (ok, w') \<longrightarrow> dev' \<noteq> dev \<longrightarrow> content w' dev' = content w dev') \<and>
     (\<forall>w ok w'. fsync_input ct w 0 = (ok, w') \<longrightarrow> content w' = content w)"

lemma table_frame_io:
  assumes "table_frame ct content"
  shows "frame_io (call_table_device (call_table_io_new ct f)) content"
proof
  fix d dev s buf ok buf' d'
  assume R: "io_read_sector (call_table_device (call_table_io_new ct f)) d dev s buf = (ok, buf', d')"
  show "length buf' = length buf" "content d' = content d"
    using R assms by (auto simp: call_table_device_simps table_frame_def split: if_splits)
next
  fix d dev s buf ok d' dev'
  assume "io_write_sector (call_table_device (call_table_io_new ct f)) d dev s buf = (ok, d')" "dev' \<noteq> dev"
  then show "content d' dev' = content d dev'" using assms by (auto simp: call_table_device_simps table_frame_def split: if_splits)
next
  fix d dev q d'
  assume "io_fsync (call_table_device (call_table_io_new ct f)) d dev = (q, d')"
  then show "content d' = content d" using assms by (auto simp: call_table_device_simps table_frame_def split: if_splits prod.splits)
qed

lemma vec_table_frame: "table_frame (vec_table n) vec_content"
proof -
  have "fsync_input (vec_table n) w 0 = (True, w)" for w by (simp add: vec_table_def)
  then show ?thesis by (auto simp: table_frame_def vec_access vec_read_def vec_write_def vec_content_def split: if_splits)
qed

interpretation vec_frame: frame_io "call_table_device (call_table_io_new (vec_table 512) True)" vec_content
  by (rule table_frame_io[OF vec_table_frame])

end
