(* ===== verification/Write_Flush.thy ===== *)
theory Write_Flush
  imports Write_Safety
begin

text \<open>
  The end-of-epoch flush.  \<open>flush_skeleton\<close> writes down the stream the documentation of
  \<^verbatim>\<open>plan_flush\<close> draws (dirty L2 slots, then the L1 table, then the dirty refblocks, every
  non-empty group closed by a barrier); \<open>flush_rest\<close> is what is left of it at each stage of the
  resumable loop.  One iteration of the loop emits a prefix of the rest, so the stream does not depend
  on how the step buffer cuts it into windows, and the loop ends with nothing dirty.
\<close>

section \<open>The stream of a flush\<close>

definition slot_dirty :: "write_state \<Rightarrow> nat \<Rightarrow> bool" where
  "slot_dirty st i \<longleftrightarrow> l_valid (ws_l2_slots st ! i) \<and> l_dirty (ws_l2_slots st ! i)"

definition fence :: "target_device \<Rightarrow> step list \<Rightarrow> step list" where
  "fence dev g = (if g = [] then [] else g @ [barrier_step dev])"

definition bar :: "write_state \<Rightarrow> step list" where
  "bar st = (if ws_steps_since_barrier st = 0 then [] else [barrier_step (c_device (ws_config st))])"

definition l2_group :: "write_state \<Rightarrow> nat \<Rightarrow> step list" where
  "l2_group st k = map (\<lambda>i. writeback_step (of_nat i) (l_host_offset (ws_l2_slots st ! i))
       (g_cluster_size (ws_geometry st)) (c_device (ws_config st)))
     (filter (slot_dirty st) [k..<c_l2_slots (ws_config st)])"

definition l1_group :: "write_state \<Rightarrow> step list" where
  "l1_group st = (if ws_l1_dirty st then [l1_writeback_step (ws_geometry st) (c_device (ws_config st))] else [])"

definition rb_host :: "staged_regions \<Rightarrow> nat \<Rightarrow> u64" where
  "rb_host sr i = (case read_u64_be (sr_refcount_table sr) (i * 8) of None \<Rightarrow> 0 | Some e \<Rightarrow> e AND L1_OFFSET_MASK)"

definition rb_group :: "write_state \<Rightarrow> staged_regions \<Rightarrow> nat \<Rightarrow> step list" where
  "rb_group st sr k = map (\<lambda>i. refblock_writeback_step i (rb_host sr i)
       (g_cluster_size (ws_geometry st)) (c_device (ws_config st)))
     (filter (refblock_dirty st) [k..<c_max_refblocks (ws_config st)])"

definition flush_skeleton :: "write_state \<Rightarrow> staged_regions \<Rightarrow> step list" where
  "flush_skeleton st sr = (let dev = c_device (ws_config st) in
     bar st @ fence dev (l2_group st 0) @ fence dev (l1_group st) @ fence dev (rb_group st sr 0))"

text \<open>What is left to emit: at a barrier stage the pending barrier comes first; inside a group it closes the group.\<close>

definition flush_rest :: "flush_ctx \<Rightarrow> step list" where
  "flush_rest c = (let st = fl_state c; sr = fl_staged c; dev = c_device (ws_config st);
       k = unat (f_next_idx (fl_prog c));
       close = (\<lambda>g. if g = [] then bar st else fence dev g) in
     case f_stage (fl_prog c) of
       PreBarrier \<Rightarrow> flush_skeleton st sr
     | L2Writebacks \<Rightarrow> close (l2_group st k) @ fence dev (l1_group st) @ fence dev (rb_group st sr 0)
     | L1Barrier \<Rightarrow> bar st @ fence dev (l1_group st) @ fence dev (rb_group st sr 0)
     | L1Write \<Rightarrow> fence dev (l1_group st) @ fence dev (rb_group st sr 0)
     | RbBarrier \<Rightarrow> bar st @ fence dev (rb_group st sr 0)
     | RbWritebacks \<Rightarrow> close (rb_group st sr k)
     | EndBarrier \<Rightarrow> bar st)"

text \<open>A refblock whose table entry names a host cluster.\<close>

definition rb_mapped :: "write_state \<Rightarrow> staged_regions \<Rightarrow> nat \<Rightarrow> bool" where
  "rb_mapped st sr i \<longleftrightarrow> i < rb_count st sr \<and>
     (case read_u64_be (sr_refcount_table sr) (i * 8) of None \<Rightarrow> False
      | Some e \<Rightarrow> e AND L1_OFFSET_MASK \<noteq> 0 \<and> is_multiple_of (e AND L1_OFFSET_MASK) (g_cluster_size (ws_geometry st)) \<and>
          e AND 0x1ff = 0)"

definition dirty_mapped :: "write_state \<Rightarrow> staged_regions \<Rightarrow> bool" where
  "dirty_mapped st sr \<longleftrightarrow> (\<forall>i. refblock_dirty st i \<longrightarrow> rb_mapped st sr i)"

definition all_clean :: "write_state \<Rightarrow> bool" where
  "all_clean st \<longleftrightarrow> ws_steps_since_barrier st = 0 \<and> \<not> ws_l1_dirty st \<and>
     (\<forall>i<c_l2_slots (ws_config st). \<not> slot_dirty st i) \<and> (\<forall>i. \<not> refblock_dirty st i)"

text \<open>What a flush may change: dirty marks and the barrier counter.\<close>

definition flush_frame :: "write_state \<Rightarrow> write_state \<Rightarrow> bool" where
  "flush_frame st st' \<longleftrightarrow>
     (\<exists>sl rd d n. st' = st\<lparr>ws_l2_slots := sl, ws_refblock_dirty := rd, ws_l1_dirty := d, ws_steps_since_barrier := n\<rparr> \<and>
        map (\<lambda>s. s\<lparr>l_dirty := False\<rparr>) sl = map (\<lambda>s. s\<lparr>l_dirty := False\<rparr>) (ws_l2_slots st) \<and>
        length rd = length (ws_refblock_dirty st)) \<and>
     (\<forall>i. refblock_dirty st' i \<longrightarrow> refblock_dirty st i)"

section \<open>The loop invariant\<close>

definition flush_inv :: "flush_ctx \<Rightarrow> bool" where
  "flush_inv c \<longleftrightarrow> staging_ok (fl_state c) (fl_staged c) \<and> sb_ok (fl_steps c) \<and>
     (let st = fl_state c; stage = f_stage (fl_prog c); k = unat (f_next_idx (fl_prog c)) in
      (stage \<noteq> PreBarrier \<longrightarrow> unat (ws_steps_since_barrier st) + length (flush_rest c) < 2 ^ 64) \<and>
      (stage = L2Writebacks \<longrightarrow> (\<forall>i<k. \<not> slot_dirty st i)) \<and>
      (flush_rank stage \<le> 4 \<longrightarrow> (\<forall>i<c_l2_slots (ws_config st). \<not> slot_dirty st i)) \<and>
      (stage = L1Write \<longrightarrow> ws_l1_dirty st) \<and>
      (flush_rank stage \<le> 2 \<longrightarrow> \<not> ws_l1_dirty st) \<and>
      (stage = RbWritebacks \<longrightarrow> (\<forall>i<k. \<not> refblock_dirty st i)) \<and>
      (stage = EndBarrier \<longrightarrow> (\<forall>i. \<not> refblock_dirty st i)))"

definition flush_post :: "flush_ctx \<Rightarrow> flush_ctx drive_res \<Rightarrow> bool" where
  "flush_post c r = (case r of
     Next c' \<Rightarrow> flush_inv c' \<and> flush_frame (fl_state c) (fl_state c') \<and> fl_staged c' = fl_staged c \<and>
       sb_capacity (fl_steps c') = sb_capacity (fl_steps c) \<and>
       (\<exists>e. sb_steps (fl_steps c') = sb_steps (fl_steps c) @ e \<and> flush_rest c = e @ flush_rest c')
   | Finished c' \<Rightarrow> sb_ok (fl_steps c') \<and> flush_frame (fl_state c) (fl_state c') \<and> fl_staged c' = fl_staged c \<and>
       sb_steps (fl_steps c') = sb_steps (fl_steps c) @ flush_rest c \<and> all_clean (fl_state c')
   | Stop e c' \<Rightarrow> c' = c \<and> (e = BufFull \<and> sb_remaining (fl_steps c) = 0 \<and> flush_rest c \<noteq> [] \<or>
       e = StagedRegionsMismatch \<and> \<not> dirty_mapped (fl_state c) (fl_staged c))
   | Panicked \<Rightarrow> False)"

lemma flush_frame_refl: "flush_frame st st"
  unfolding flush_frame_def
  by (intro conjI exI[of _ "ws_l2_slots st"] exI[of _ "ws_refblock_dirty st"] exI[of _ "ws_l1_dirty st"]
      exI[of _ "ws_steps_since_barrier st"]) simp_all

lemma flush_frame_simps:
  assumes "flush_frame st st'"
  shows "ws_geometry st' = ws_geometry st" "ws_config st' = ws_config st" "ws_pending st' = ws_pending st"
    "ws_alloc_cursor st' = ws_alloc_cursor st" "ws_slot_pending_zero st' = ws_slot_pending_zero st"
    "same_base st st'"
  using assms unfolding flush_frame_def same_base_def by (auto dest: map_eq_imp_length_eq)

lemma flush_frame_trans: "flush_frame a b \<Longrightarrow> flush_frame b c \<Longrightarrow> flush_frame a c"
  unfolding flush_frame_def by (elim conjE exE, intro conjI) (auto intro!: exI)

lemma filter_find_Some: "List.find P [k..<n] = Some i \<Longrightarrow> filter P [k..<n] = i # filter P [Suc i..<n]"
proof (induction "n - k" arbitrary: k)
  case (Suc d)
  then have "k < n" by simp
  then show ?case using Suc.hyps(1)[of "Suc k"] Suc.hyps(2) Suc.prems by (auto simp: upt_conv_Cons split: if_splits)
qed simp

lemma filter_find_None: "List.find P xs = None \<Longrightarrow> filter P xs = []"
  by (auto simp: find_None_iff filter_empty_conv)

lemma group_since [simp]:
  "l2_group (st\<lparr>ws_steps_since_barrier := n\<rparr>) k = l2_group st k"
  "l1_group (st\<lparr>ws_steps_since_barrier := n\<rparr>) = l1_group st"
  "rb_group (st\<lparr>ws_steps_since_barrier := n\<rparr>) sr k = rb_group st sr k"
  "slot_dirty (st\<lparr>ws_steps_since_barrier := n\<rparr>) i = slot_dirty st i"
  "refblock_dirty (st\<lparr>ws_steps_since_barrier := n\<rparr>) i = refblock_dirty st i"
  by (simp_all add: l2_group_def l1_group_def rb_group_def slot_dirty_def[abs_def] refblock_dirty_def[abs_def])

lemma frame_since [simp]: "flush_frame st (st\<lparr>ws_steps_since_barrier := n\<rparr>)"
  unfolding flush_frame_def
  by (intro conjI exI[of _ "ws_l2_slots st"] exI[of _ "ws_refblock_dirty st"] exI[of _ "ws_l1_dirty st"]
      exI[of _ n]) simp_all

lemma bar_since [simp]: "bar (st\<lparr>ws_steps_since_barrier := 0\<rparr>) = []"
  by (simp add: bar_def)

lemma fence_Nil [simp]: "fence d [] = []"
  by (simp add: fence_def)

lemma barrier_emit:
  assumes "sb_ok b"
  obtains "barrier_if_needed st b = None" "sb_remaining b = 0" "bar st \<noteq> []"
  | b' where "barrier_if_needed st b = Some (st\<lparr>ws_steps_since_barrier := 0\<rparr>, b')" "sb_ok b'"
      "sb_steps b' = sb_steps b @ bar st" "sb_capacity b' = sb_capacity b"
proof (cases "ws_steps_since_barrier st = 0")
  case True
  then have "st\<lparr>ws_steps_since_barrier := 0\<rparr> = st" by simp
  then show ?thesis using True assms by (intro that(2)[of b]) (simp_all add: barrier_if_needed_def bar_def)
next
  case False
  show ?thesis
  proof (cases "sb_push b (barrier_step (c_device (ws_config st)))")
    case None
    then show ?thesis using False sb_push_None[OF assms]
      by (intro that(1)) (auto simp: barrier_if_needed_def bar_def push_step_def)
  next
    case (Some b')
    then show ?thesis using False sb_push_Some[OF assms Some]
      by (intro that(2)[of b']) (auto simp: barrier_if_needed_def bar_def push_step_def barrier_step_def)
  qed
qed

lemma push_emit:
  assumes "sb_ok b" "\<And>cl. s_kind s \<noteq> Barrier cl"
  obtains "push_step st b s = None" "sb_remaining b = 0"
  | b' where "push_step st b s = Some (st\<lparr>ws_steps_since_barrier := ws_steps_since_barrier st + 1\<rparr>, b')" "sb_ok b'"
      "sb_steps b' = sb_steps b @ [s]" "sb_capacity b' = sb_capacity b"
proof (cases "sb_push b s")
  case None
  then show ?thesis using sb_push_None[OF assms(1)] by (intro that(1)) (auto simp: push_step_def)
next
  case (Some b')
  then show ?thesis using assms(2) sb_push_Some[OF assms(1) Some]
    by (intro that(2)[of b']) (auto simp: push_step_def split: step_kind.splits)
qed

lemma length_groups:
  "length (l2_group st k) \<le> c_l2_slots (ws_config st)" "length (l1_group st) \<le> 1"
  "length (rb_group st sr k) \<le> c_max_refblocks (ws_config st)" "length (bar st) \<le> 1"
  "length (fence d g) \<le> Suc (length g)"
proof -
  show "length (l2_group st k) \<le> c_l2_slots (ws_config st)"
    using length_filter_le[of "slot_dirty st" "[k..<c_l2_slots (ws_config st)]"] by (simp add: l2_group_def)
  show "length (rb_group st sr k) \<le> c_max_refblocks (ws_config st)"
    using length_filter_le[of "refblock_dirty st" "[k..<c_max_refblocks (ws_config st)]"] by (simp add: rb_group_def)
qed (simp_all add: l1_group_def bar_def fence_def)

lemma staging_since [simp]: "staging_ok (st\<lparr>ws_steps_since_barrier := n\<rparr>) sr = staging_ok st sr"
  by (simp add: staging_ok_def ws_inv_def rb_count_def covered_def)

lemma since_step: "unat (n :: u64) + Suc m < 2 ^ 64 \<Longrightarrow> unat (n + 1) = Suc (unat n) \<and> n + 1 \<noteq> 0"
  using unat_add_small[of n 1] by (auto simp: unat_eq_zero[symmetric])

lemmas flush_ctx_simps = fl_goto_def fl_next_def flush_rest_def flush_skeleton_def flush_inv_def Let_def

lemma staging_bounds:
  assumes "staging_ok st sr"
  shows "g_cluster_size (ws_geometry st) \<noteq> 0" "c_l2_slots (ws_config st) \<le> 256" "c_max_refblocks (ws_config st) \<le> 2048"
    "length (ws_l2_slots st) = 256" "length (ws_refblock_dirty st) = 32"
  using assms geo_ok_nz(1)[of "ws_geometry st"] by (auto simp: staging_ok_def ws_inv_def MAX_L2_SLOTS_def MAX_REFBLOCKS_def)

lemma rest_bound:
  assumes "staging_ok st sr"
  shows "length (l2_group st k) \<le> 256" "length (rb_group st sr k) \<le> 2048"
  using length_groups(1)[of st k] length_groups(3)[of st sr k] staging_bounds[OF assms] by simp_all

lemma df_pre:
  assumes inv: "flush_inv c" and st: "f_stage (fl_prog c) = PreBarrier"
  shows "flush_post c (df_step c)"
proof -
  have s: "staging_ok (fl_state c) (fl_staged c)" and b: "sb_ok (fl_steps c)" using inv by (simp_all add: flush_inv_def)
  note B = length_groups(5)[of "c_device (ws_config (fl_state c))" "l2_group (fl_state c) 0"]
    length_groups(5)[of "c_device (ws_config (fl_state c))" "l1_group (fl_state c)"]
    length_groups(5)[of "c_device (ws_config (fl_state c))" "rb_group (fl_state c) (fl_staged c) 0"]
    length_groups(2)[of "fl_state c"] rest_bound[OF s, of 0]
  show ?thesis
  proof (rule barrier_emit[OF b, of "fl_state c"])
    assume "barrier_if_needed (fl_state c) (fl_steps c) = None" "sb_remaining (fl_steps c) = 0" "bar (fl_state c) \<noteq> []"
    then show ?thesis using st s
      by (simp add: df_step_def Let_def fl_emit_def flush_post_def staging_bounds flush_rest_def flush_skeleton_def)
  next
    fix b' assume R: "barrier_if_needed (fl_state c) (fl_steps c) = Some ((fl_state c)\<lparr>ws_steps_since_barrier := 0\<rparr>, b')"
      "sb_ok b'" "sb_steps b' = sb_steps (fl_steps c) @ bar (fl_state c)" "sb_capacity b' = sb_capacity (fl_steps c)"
    then show ?thesis using st s B
      by (auto simp: df_step_def Let_def fl_emit_def flush_post_def staging_bounds flush_ctx_simps)
  qed
qed

lemma df_l1_barrier:
  assumes inv: "flush_inv c" and st: "f_stage (fl_prog c) = L1Barrier"
  shows "flush_post c (df_step c)"
proof -
  have s: "staging_ok (fl_state c) (fl_staged c)" and b: "sb_ok (fl_steps c)" using inv by (simp_all add: flush_inv_def)
  show ?thesis
  proof (cases "ws_l1_dirty (fl_state c)")
    case False
    then have "l1_group (fl_state c) = []" by (simp add: l1_group_def)
    then show ?thesis using False st s inv flush_frame_refl
      by (auto simp: df_step_def flush_post_def staging_bounds flush_ctx_simps)
  next
    case True
    show ?thesis
    proof (rule barrier_emit[OF b, of "fl_state c"])
      assume "barrier_if_needed (fl_state c) (fl_steps c) = None" "sb_remaining (fl_steps c) = 0" "bar (fl_state c) \<noteq> []"
      then show ?thesis using st s True
        by (simp add: df_step_def Let_def fl_emit_def flush_post_def staging_bounds flush_rest_def)
    next
      fix b' assume R: "barrier_if_needed (fl_state c) (fl_steps c) = Some ((fl_state c)\<lparr>ws_steps_since_barrier := 0\<rparr>, b')"
        "sb_ok b'" "sb_steps b' = sb_steps (fl_steps c) @ bar (fl_state c)" "sb_capacity b' = sb_capacity (fl_steps c)"
      then show ?thesis using st s True inv
        by (auto simp: df_step_def fl_emit_def flush_post_def staging_bounds flush_ctx_simps)
    qed
  qed
qed

lemma df_rb_barrier:
  assumes inv: "flush_inv c" and st: "f_stage (fl_prog c) = RbBarrier"
  shows "flush_post c (df_step c)"
proof -
  have s: "staging_ok (fl_state c) (fl_staged c)" and b: "sb_ok (fl_steps c)" using inv by (simp_all add: flush_inv_def)
  show ?thesis
  proof (cases "next_dirty_refblock (fl_state c) 0")
    case None
    then have "rb_group (fl_state c) (fl_staged c) 0 = []" "\<forall>i. \<not> refblock_dirty (fl_state c) i"
      by (auto simp: rb_group_def next_dirty_refblock_def filter_find_None find_None_upt) (auto simp: refblock_dirty_def)
    then show ?thesis using None st s inv flush_frame_refl
      by (auto simp: df_step_def flush_post_def staging_bounds flush_ctx_simps)
  next
    case (Some i)
    then have ne: "rb_group (fl_state c) (fl_staged c) 0 \<noteq> []"
      by (simp add: rb_group_def next_dirty_refblock_def filter_find_Some)
    show ?thesis
    proof (rule barrier_emit[OF b, of "fl_state c"])
      assume "barrier_if_needed (fl_state c) (fl_steps c) = None" "sb_remaining (fl_steps c) = 0" "bar (fl_state c) \<noteq> []"
      then show ?thesis using st s Some
        by (simp add: df_step_def Let_def fl_emit_def flush_post_def staging_bounds flush_rest_def)
    next
      fix b' assume R: "barrier_if_needed (fl_state c) (fl_steps c) = Some ((fl_state c)\<lparr>ws_steps_since_barrier := 0\<rparr>, b')"
        "sb_ok b'" "sb_steps b' = sb_steps (fl_steps c) @ bar (fl_state c)" "sb_capacity b' = sb_capacity (fl_steps c)"
      then show ?thesis using st s Some ne inv
        by (auto simp: df_step_def fl_emit_def flush_post_def staging_bounds flush_ctx_simps)
    qed
  qed
qed

lemma df_end:
  assumes inv: "flush_inv c" and st: "f_stage (fl_prog c) = EndBarrier"
  shows "flush_post c (df_step c)"
proof -
  have s: "staging_ok (fl_state c) (fl_staged c)" and b: "sb_ok (fl_steps c)" using inv by (simp_all add: flush_inv_def)
  show ?thesis
  proof (rule barrier_emit[OF b, of "fl_state c"])
    assume "barrier_if_needed (fl_state c) (fl_steps c) = None" "sb_remaining (fl_steps c) = 0" "bar (fl_state c) \<noteq> []"
    then show ?thesis using st s
      by (simp add: df_step_def Let_def fl_emit_def flush_post_def staging_bounds flush_rest_def)
  next
    fix b' assume R: "barrier_if_needed (fl_state c) (fl_steps c) = Some ((fl_state c)\<lparr>ws_steps_since_barrier := 0\<rparr>, b')"
      "sb_ok b'" "sb_steps b' = sb_steps (fl_steps c) @ bar (fl_state c)" "sb_capacity b' = sb_capacity (fl_steps c)"
    then show ?thesis using st s inv
      by (auto simp: df_step_def fl_emit_def flush_post_def staging_bounds flush_ctx_simps all_clean_def)
  qed
qed

lemma df_l1_write:
  assumes inv: "flush_inv c" and st: "f_stage (fl_prog c) = L1Write"
  shows "flush_post c (df_step c)"
proof -
  let ?st = "fl_state c" let ?s = "l1_writeback_step (ws_geometry ?st) (c_device (ws_config ?st))"
  have s: "staging_ok ?st (fl_staged c)" and b: "sb_ok (fl_steps c)" and d: "ws_l1_dirty ?st"
    using inv st by (simp_all add: flush_inv_def Let_def)
  have g: "l1_group ?st = [?s]" using d by (simp add: l1_group_def)
  have nb: "s_kind ?s \<noteq> Barrier cl" for cl by (simp add: l1_writeback_step_def)
  have len: "unat (ws_steps_since_barrier ?st) + Suc (Suc (length (fence (c_device (ws_config ?st)) (rb_group ?st (fl_staged c) 0)))) < 2 ^ 64"
    using inv st g by (simp add: flush_inv_def flush_rest_def Let_def fence_def)
  note S = since_step[OF len]
  show ?thesis
  proof (rule push_emit[OF b nb, of ?st])
    assume "push_step ?st (fl_steps c) ?s = None" "sb_remaining (fl_steps c) = 0"
    then show ?thesis using st s g
      by (simp add: df_step_def Let_def fl_emit_def flush_post_def staging_bounds flush_rest_def fence_def)
  next
    fix b' assume R: "push_step ?st (fl_steps c) ?s = Some (?st\<lparr>ws_steps_since_barrier := ws_steps_since_barrier ?st + 1\<rparr>, b')"
      "sb_ok b'" "sb_steps b' = sb_steps (fl_steps c) @ [?s]" "sb_capacity b' = sb_capacity (fl_steps c)"
    let ?st' = "?st\<lparr>ws_steps_since_barrier := ws_steps_since_barrier ?st + 1, ws_l1_dirty := False\<rparr>"
    have G: "l2_group ?st' k = l2_group ?st k" "rb_group ?st' sr k = rb_group ?st sr k" "slot_dirty ?st' i = slot_dirty ?st i"
      "refblock_dirty ?st' i = refblock_dirty ?st i" "staging_ok ?st' sr = staging_ok ?st sr"
      "bar ?st' = [barrier_step (c_device (ws_config ?st))]" for k sr i using S
      by (simp_all add: l2_group_def rb_group_def slot_dirty_def[abs_def] refblock_dirty_def[abs_def] staging_ok_def ws_inv_def
          rb_count_def covered_def bar_def)
    have F: "flush_frame ?st ?st'" unfolding flush_frame_def
      by (intro conjI exI[of _ "ws_l2_slots ?st"] exI[of _ "ws_refblock_dirty ?st"] exI[of _ False]
        exI[of _ "ws_steps_since_barrier ?st + 1"]) (simp_all add: refblock_dirty_def)
    show ?thesis using R st s inv g G F len S
      by (auto simp: df_step_def fl_emit_def flush_post_def staging_bounds flush_ctx_simps fence_def[of _ "[?s]"])
  qed
qed

lemma idx_next: "i < 2048 \<Longrightarrow> unat (of_nat i + 1 :: u32) = Suc i"
  using unat_add_small[of "of_nat i :: u32" 1] by (simp add: unat_of_nat)

text \<open>A slot written back: it leaves the group, and nothing else of the stream changes.\<close>

lemma l2_group_written:
  fixes st :: write_state
  defines "st' i n \<equiv> st\<lparr>ws_steps_since_barrier := n, ws_l2_slots := (ws_l2_slots st)[i := (ws_l2_slots st ! i)\<lparr>l_dirty := False\<rparr>]\<rparr>"
  assumes find: "next_dirty_slot st k = Some i" and len: "c_l2_slots (ws_config st) \<le> length (ws_l2_slots st)"
  shows "l2_group st k = writeback_step (of_nat i) (l_host_offset (ws_l2_slots st ! i)) (g_cluster_size (ws_geometry st))
       (c_device (ws_config st)) # l2_group (st' i n) (Suc i)"
    and "slot_dirty (st' i n) j \<longleftrightarrow> j \<noteq> i \<and> slot_dirty st j"
    and "rb_group (st' i n) sr l = rb_group st sr l" and "l1_group (st' i n) = l1_group st"
    and "staging_ok (st' i n) sr = staging_ok st sr" and "flush_frame st (st' i n)"
proof -
  have f: "List.find (slot_dirty st) [k..<c_l2_slots (ws_config st)] = Some i"
    using find by (simp add: next_dirty_slot_def slot_dirty_def[abs_def])
  then have i: "i < length (ws_l2_slots st)" using len by (auto simp: find_Some_upt)
  show sd: "slot_dirty (st' i n) j \<longleftrightarrow> j \<noteq> i \<and> slot_dirty st j" for j
    using i by (auto simp: st'_def slot_dirty_def nth_list_update)
  have same: "filter (slot_dirty st) [Suc i..<m] = filter (slot_dirty (st' i n)) [Suc i..<m]" for m
    by (rule filter_cong) (auto simp: sd)
  have "map (\<lambda>j. writeback_step (of_nat j) (l_host_offset (ws_l2_slots st ! j)) a b) xs =
      map (\<lambda>j. writeback_step (of_nat j) (l_host_offset (ws_l2_slots (st' i n) ! j)) a b) xs" for a b xs
    using i by (auto simp: st'_def nth_list_update)
  then show "l2_group st k = writeback_step (of_nat i) (l_host_offset (ws_l2_slots st ! i)) (g_cluster_size (ws_geometry st))
       (c_device (ws_config st)) # l2_group (st' i n) (Suc i)"
    unfolding l2_group_def filter_find_Some[OF f] same list.map by (simp add: st'_def)
  show "rb_group (st' i n) sr l = rb_group st sr l" "l1_group (st' i n) = l1_group st"
    by (simp_all add: st'_def rb_group_def l1_group_def refblock_dirty_def[abs_def])
  show "staging_ok (st' i n) sr = staging_ok st sr"
    by (simp add: st'_def staging_ok_def ws_inv_def rb_count_def covered_def)
  show "flush_frame st (st' i n)" unfolding flush_frame_def st'_def
    using i by (intro conjI exI[of _ "(ws_l2_slots st)[i := (ws_l2_slots st ! i)\<lparr>l_dirty := False\<rparr>]"]
      exI[of _ "ws_refblock_dirty st"] exI[of _ "ws_l1_dirty st"] exI[of _ n])
     (simp_all add: refblock_dirty_def map_update list_update_same_conv)
qed

lemma df_l2:
  assumes inv: "flush_inv c" and st: "f_stage (fl_prog c) = L2Writebacks"
  shows "flush_post c (df_step c)"
proof -
  let ?st = "fl_state c" let ?k = "unat (f_next_idx (fl_prog c))"
  have s: "staging_ok ?st (fl_staged c)" and b: "sb_ok (fl_steps c)" using inv by (simp_all add: flush_inv_def)
  have clean: "\<forall>i<?k. \<not> slot_dirty ?st i" using inv st by (simp add: flush_inv_def Let_def)
  note bnds = staging_bounds[OF s]
  show ?thesis
  proof (cases "next_dirty_slot ?st ?k")
    case None
    then have f: "List.find (slot_dirty ?st) [?k..<c_l2_slots (ws_config ?st)] = None"
      by (simp add: next_dirty_slot_def slot_dirty_def[abs_def])
    then have "l2_group ?st ?k = []" "\<forall>i<c_l2_slots (ws_config ?st). \<not> slot_dirty ?st i"
      using clean by (auto simp: l2_group_def filter_find_None find_None_upt not_le[symmetric])
    then show ?thesis using None st s inv flush_frame_refl
      by (auto simp: df_step_def df_l2_writebacks_def flush_post_def bnds flush_ctx_simps)
  next
    case (Some i)
    then have i: "?k \<le> i" "i < c_l2_slots (ws_config ?st)" "\<forall>j. ?k \<le> j \<and> j < i \<longrightarrow> \<not> slot_dirty ?st j"
      by (auto simp: next_dirty_slot_def slot_dirty_def find_Some_upt)
    let ?s = "writeback_step (of_nat i) (l_host_offset (ws_l2_slots ?st ! i)) (g_cluster_size (ws_geometry ?st)) (c_device (ws_config ?st))"
    have nb: "s_kind ?s \<noteq> Barrier cl" for cl by (simp add: writeback_step_def)
    have sl: "slot_at ?st i = Some (ws_l2_slots ?st ! i)" "i < length (ws_l2_slots ?st)" using i bnds by (simp_all add: slot_at_def)
    have le: "c_l2_slots (ws_config ?st) \<le> length (ws_l2_slots ?st)" using bnds by simp
    note W = l2_group_written[OF Some le, where n = "ws_steps_since_barrier ?st + 1"]
    have len: "unat (ws_steps_since_barrier ?st) + Suc (length (l2_group ?st ?k) +
        length (fence (c_device (ws_config ?st)) (l1_group ?st)) +
        length (fence (c_device (ws_config ?st)) (rb_group ?st (fl_staged c) 0))) < 2 ^ 64"
      using inv st W(1) by (simp add: flush_inv_def flush_rest_def Let_def fence_def[of _ "_ # _"])
    note S = since_step[OF len]
    show ?thesis
    proof (rule push_emit[OF b nb, of ?st])
      assume "push_step ?st (fl_steps c) ?s = None" "sb_remaining (fl_steps c) = 0"
      then show ?thesis using st Some sl W(1)
        by (simp add: df_step_def df_l2_writebacks_def Let_def must_def fl_emit_def flush_post_def bnds flush_rest_def fence_def)
    next
      fix b' assume R: "push_step ?st (fl_steps c) ?s = Some (?st\<lparr>ws_steps_since_barrier := ws_steps_since_barrier ?st + 1\<rparr>, b')"
        "sb_ok b'" "sb_steps b' = sb_steps (fl_steps c) @ [?s]" "sb_capacity b' = sb_capacity (fl_steps c)"
      let ?st' = "?st\<lparr>ws_steps_since_barrier := ws_steps_since_barrier ?st + 1,
        ws_l2_slots := (ws_l2_slots ?st)[i := (ws_l2_slots ?st ! i)\<lparr>l_dirty := False\<rparr>]\<rparr>"
      let ?c' = "c\<lparr>fl_state := ?st', fl_prog := (fl_prog c)\<lparr>f_next_idx := of_nat i + 1\<rparr>, fl_steps := b'\<rparr>"
      have step: "df_step c = Next ?c'" using st Some sl R(1)
        by (simp add: df_step_def df_l2_writebacks_def Let_def must_def fl_emit_def bnds put_slot_def fl_next_def)
      have k': "unat (of_nat i + 1 :: u32) = Suc i" using idx_next[of i] i(2) bnds(2) by simp
      have bar': "bar ?st' = [barrier_step (c_device (ws_config ?st))]" using S by (simp add: bar_def)
      have rest: "flush_rest c = ?s # flush_rest ?c'" using st W(1,3,4) k' bar'
        by (simp add: flush_rest_def Let_def fence_def[of _ "l2_group _ _"] fence_def[of _ "_ # _"])
      have cl': "\<not> slot_dirty ?st' j" if "j < Suc i" for j using that clean i(3) W(2)[where j = j] by (cases "j < ?k") (auto simp: less_Suc_eq)
      have "length (flush_rest ?c') < length (flush_rest c)" by (simp add: rest)
      then have "unat (ws_steps_since_barrier ?st + 1) + length (flush_rest ?c') < 2 ^ 64"
        using inv st S rest by (simp add: flush_inv_def Let_def)
      then have "flush_inv ?c'" using st s R(2) W(5) k' cl' by (simp add: flush_inv_def Let_def)
      then show ?thesis using step R rest W(6) by (simp add: flush_post_def)
    qed
  qed
qed

lemma rb_group_written:
  fixes st :: write_state
  defines "st' i n \<equiv> st\<lparr>ws_steps_since_barrier := n, ws_refblock_dirty := (ws_refblock_dirty st)[i div 64 := ws_refblock_dirty st ! (i div 64) AND NOT (shl 1 (i mod 64))]\<rparr>"
  assumes find: "next_dirty_refblock st k = Some i" and len: "c_max_refblocks (ws_config st) \<le> 64 * length (ws_refblock_dirty st)"
  shows "rb_group st sr k = refblock_writeback_step i (rb_host sr i) (g_cluster_size (ws_geometry st))
       (c_device (ws_config st)) # rb_group (st' i n) sr (Suc i)"
    and "refblock_dirty (st' i n) j \<longleftrightarrow> j \<noteq> i \<and> refblock_dirty st j"
    and "slot_dirty (st' i n) j = slot_dirty st j"
    and "staging_ok (st' i n) sr = staging_ok st sr" and "flush_frame st (st' i n)"
proof -
  have f: "List.find (refblock_dirty st) [k..<c_max_refblocks (ws_config st)] = Some i"
    using find by (simp add: next_dirty_refblock_def)
  then have i: "i div 64 < length (ws_refblock_dirty st)" using len by (auto simp: find_Some_upt)
  show sd: "refblock_dirty (st' i n) j \<longleftrightarrow> j \<noteq> i \<and> refblock_dirty st j" for j
    using bitset_get_clear[OF i, of j] by (auto simp: st'_def refblock_dirty_def)
  have same: "filter (refblock_dirty st) [Suc i..<m] = filter (refblock_dirty (st' i n)) [Suc i..<m]" for m
    by (rule filter_cong) (auto simp: sd)
  show "rb_group st sr k = refblock_writeback_step i (rb_host sr i) (g_cluster_size (ws_geometry st))
       (c_device (ws_config st)) # rb_group (st' i n) sr (Suc i)"
    unfolding rb_group_def filter_find_Some[OF f] same list.map by (simp add: st'_def)
  show "slot_dirty (st' i n) j = slot_dirty st j" by (simp add: st'_def slot_dirty_def)
  show "staging_ok (st' i n) sr = staging_ok st sr"
    by (simp add: st'_def staging_ok_def ws_inv_def rb_count_def covered_def)
  have "\<forall>j. refblock_dirty (st' i n) j \<longrightarrow> refblock_dirty st j" by (simp add: sd)
  then show "flush_frame st (st' i n)" unfolding flush_frame_def
    by (intro conjI exI[of _ "ws_l2_slots st"] exI[of _ "(ws_refblock_dirty st)[i div 64 := ws_refblock_dirty st ! (i div 64) AND NOT (shl 1 (i mod 64))]"]
      exI[of _ "ws_l1_dirty st"] exI[of _ n]) (simp_all add: st'_def)
qed

lemma df_rb:
  assumes inv: "flush_inv c" and st: "f_stage (fl_prog c) = RbWritebacks"
  shows "flush_post c (df_step c)"
proof -
  let ?st = "fl_state c" let ?sr = "fl_staged c" let ?k = "unat (f_next_idx (fl_prog c))"
  have s: "staging_ok ?st ?sr" and b: "sb_ok (fl_steps c)" using inv by (simp_all add: flush_inv_def)
  have clean: "\<forall>i<?k. \<not> refblock_dirty ?st i" using inv st by (simp add: flush_inv_def Let_def)
  note bnds = staging_bounds[OF s]
  show ?thesis
  proof (cases "next_dirty_refblock ?st ?k")
    case None
    then have f: "List.find (refblock_dirty ?st) [?k..<c_max_refblocks (ws_config ?st)] = None"
      by (simp add: next_dirty_refblock_def)
    have "\<not> refblock_dirty ?st i" for i
    proof
      assume d: "refblock_dirty ?st i"
      then have "i < c_max_refblocks (ws_config ?st)" by (simp add: refblock_dirty_def)
      moreover have "?k \<le> i" using d clean by (meson not_le)
      ultimately show False using f d by (simp add: find_None_upt)
    qed
    then have "rb_group ?st ?sr ?k = []" "\<forall>i. \<not> refblock_dirty ?st i" by (simp_all add: rb_group_def)
    then show ?thesis using None st s inv flush_frame_refl
      by (auto simp: df_step_def df_rb_writebacks_def flush_post_def bnds flush_ctx_simps)
  next
    case (Some i)
    then have i: "?k \<le> i" "i < c_max_refblocks (ws_config ?st)" "refblock_dirty ?st i" "\<forall>j. ?k \<le> j \<and> j < i \<longrightarrow> \<not> refblock_dirty ?st j"
      by (auto simp: next_dirty_refblock_def find_Some_upt)
    let ?s = "refblock_writeback_step i (rb_host ?sr i) (g_cluster_size (ws_geometry ?st)) (c_device (ws_config ?st))"
    have nb: "s_kind ?s \<noteq> Barrier cl" for cl by (simp add: refblock_writeback_step_def)
    have le: "c_max_refblocks (ws_config ?st) \<le> 64 * length (ws_refblock_dirty ?st)" using bnds by simp
    have i64: "i div 64 < length (ws_refblock_dirty ?st)" using i(2) le by simp
    note W = rb_group_written[OF Some le, where n = "ws_steps_since_barrier ?st + 1"]
    show ?thesis
    proof (cases "rb_mapped ?st ?sr i")
      case False
      then have nm: "\<not> dirty_mapped ?st ?sr" using i(3) by (auto simp: dirty_mapped_def)
      have "read_u64_be (sr_refcount_table ?sr) (i * 8) \<noteq> None" if "i < rb_count ?st ?sr"
        using that s by (auto simp: staging_ok_def read_u64_be_def)
      then have "df_step c = Stop StagedRegionsMismatch c" using False st Some
        by (auto simp: df_step_def df_rb_writebacks_def Let_def must_def bnds rb_mapped_def rb_count_def not_le[symmetric]
            split: option.splits)
      then show ?thesis using nm by (simp add: flush_post_def)
    next
      case True
      then obtain e where e: "i < rb_count ?st ?sr" "read_u64_be (sr_refcount_table ?sr) (i * 8) = Some e"
          "e AND L1_OFFSET_MASK \<noteq> 0" "is_multiple_of (e AND L1_OFFSET_MASK) (g_cluster_size (ws_geometry ?st))" "e AND 0x1ff = 0"
        by (auto simp: rb_mapped_def split: option.splits)
      have h: "rb_host ?sr i = e AND L1_OFFSET_MASK" using e(2) by (simp add: rb_host_def)
      have len: "unat (ws_steps_since_barrier ?st) + Suc (length (rb_group ?st ?sr ?k)) < 2 ^ 64"
        using inv st W(1)[where sr = ?sr] by (simp add: flush_inv_def flush_rest_def Let_def fence_def)
      note S = since_step[OF len]
      show ?thesis
      proof (rule push_emit[OF b nb, of ?st])
        assume "push_step ?st (fl_steps c) ?s = None" "sb_remaining (fl_steps c) = 0"
        then show ?thesis using st Some e h W(1)[where sr = ?sr]
          by (simp add: df_step_def df_rb_writebacks_def Let_def must_def fl_emit_def flush_post_def bnds flush_rest_def fence_def
              rb_count_def)
      next
        fix b' assume R: "push_step ?st (fl_steps c) ?s = Some (?st\<lparr>ws_steps_since_barrier := ws_steps_since_barrier ?st + 1\<rparr>, b')"
          "sb_ok b'" "sb_steps b' = sb_steps (fl_steps c) @ [?s]" "sb_capacity b' = sb_capacity (fl_steps c)"
        let ?st' = "?st\<lparr>ws_steps_since_barrier := ws_steps_since_barrier ?st + 1,
          ws_refblock_dirty := (ws_refblock_dirty ?st)[i div 64 := ws_refblock_dirty ?st ! (i div 64) AND NOT (shl 1 (i mod 64))]\<rparr>"
        let ?c' = "c\<lparr>fl_state := ?st', fl_prog := (fl_prog c)\<lparr>f_next_idx := of_nat i + 1\<rparr>, fl_steps := b'\<rparr>"
        have step: "df_step c = Next ?c'" using st Some R(1) e h i64
          by (simp add: df_step_def df_rb_writebacks_def Let_def must_def fl_emit_def bnds refblock_dirty_clear_def fl_next_def rb_count_def)
        have k': "unat (of_nat i + 1 :: u32) = Suc i" using idx_next[of i] i(2) bnds(3) by simp
        have bar': "bar ?st' = [barrier_step (c_device (ws_config ?st))]" using S by (simp add: bar_def)
        have rest: "flush_rest c = ?s # flush_rest ?c'" using st W(1)[where sr = ?sr] k' bar'
          by (simp add: flush_rest_def Let_def fence_def)
        have cl': "\<not> refblock_dirty ?st' j" if "j < Suc i" for j using that clean i(4) W(2)[where j = j] by (cases "j < ?k") (auto simp: less_Suc_eq)
        have "unat (ws_steps_since_barrier ?st + 1) + length (flush_rest ?c') < 2 ^ 64"
          using inv st S rest by (simp add: flush_inv_def Let_def)
        then have "flush_inv ?c'" using st s R(2) W(3,4) k' cl' inv by (simp add: flush_inv_def Let_def)
        then show ?thesis using step R rest W(5) by (simp add: flush_post_def)
      qed
    qed
  qed
qed

lemma df_step_post: "flush_inv c \<Longrightarrow> flush_post c (df_step c)"
  by (cases "f_stage (fl_prog c)") (simp_all add: df_pre df_l2 df_l1_barrier df_l1_write df_rb_barrier df_rb df_end)

section \<open>The loop and its windows\<close>

lemma rb_mapped_cong: "ws_geometry st' = ws_geometry st \<Longrightarrow> rb_mapped st' sr i = rb_mapped st sr i"
  by (simp only: rb_mapped_def rb_count_def)

lemma dirty_mapped_frame:
  assumes "flush_frame st st'" "dirty_mapped st sr"
  shows "dirty_mapped st' sr"
proof -
  have "refblock_dirty st' i \<longrightarrow> refblock_dirty st i" for i using assms(1) by (simp add: flush_frame_def)
  then show ?thesis using assms(2) rb_mapped_cong[OF flush_frame_simps(1)[OF assms(1)]] by (auto simp only: dirty_mapped_def)
qed

lemma dirty_mapped_cong:
  assumes "ws_geometry st' = ws_geometry st" "ws_config st' = ws_config st" "ws_refblock_dirty st' = ws_refblock_dirty st"
  shows "dirty_mapped st' sr = dirty_mapped st sr"
  by (simp only: dirty_mapped_def refblock_dirty_def rb_mapped_cong[OF assms(1)] assms(2,3))

definition flush_done :: "flush_ctx \<Rightarrow> flush_ctx drive_res \<Rightarrow> bool" where
  "flush_done c r = (case r of
     Finished c' \<Rightarrow> sb_ok (fl_steps c') \<and> flush_frame (fl_state c) (fl_state c') \<and> fl_staged c' = fl_staged c \<and>
       sb_steps (fl_steps c') = sb_steps (fl_steps c) @ flush_rest c \<and> all_clean (fl_state c')
   | Stop e c' \<Rightarrow> flush_inv c' \<and> flush_frame (fl_state c) (fl_state c') \<and> fl_staged c' = fl_staged c \<and>
       sb_capacity (fl_steps c') = sb_capacity (fl_steps c) \<and>
       (\<exists>out. sb_steps (fl_steps c') = sb_steps (fl_steps c) @ out \<and> flush_rest c = out @ flush_rest c') \<and>
       (e = BufFull \<and> sb_remaining (fl_steps c') = 0 \<and> flush_rest c' \<noteq> [] \<or>
        e = StagedRegionsMismatch \<and> \<not> dirty_mapped (fl_state c) (fl_staged c))
   | Next c' \<Rightarrow> False
   | Panicked \<Rightarrow> False)"

lemma drive_flush_done: "flush_inv c \<Longrightarrow> flush_done c (drive_flush c)"
proof (induction c rule: drive_flush.induct)
  case (1 c)
  note P = df_step_post[OF 1(2)]
  show ?case
  proof (cases "df_step c")
    case (Next c')
    then have N: "flush_inv c'" "flush_frame (fl_state c) (fl_state c')" "fl_staged c' = fl_staged c"
        "sb_capacity (fl_steps c') = sb_capacity (fl_steps c)"
      and "\<exists>e. sb_steps (fl_steps c') = sb_steps (fl_steps c) @ e \<and> flush_rest c = e @ flush_rest c'"
      using P by (simp_all add: flush_post_def)
    then obtain e where e: "sb_steps (fl_steps c') = sb_steps (fl_steps c) @ e" "flush_rest c = e @ flush_rest c'" by blast
    have D: "flush_done c' (drive_flush c')" using 1(1)[OF Next N(1)] .
    have mp: "dirty_mapped (fl_state c) sr \<Longrightarrow> dirty_mapped (fl_state c') sr" for sr by (rule dirty_mapped_frame[OF N(2)])
    have eq: "drive_flush c = drive_flush c'" using Next by (simp add: drive_flush.simps[of c])
    show ?thesis using D N(3,4) e mp flush_frame_trans[OF N(2)] unfolding eq flush_done_def
      by (cases "drive_flush c'") auto
  next
    case (Finished c')
    then show ?thesis using P by (simp add: drive_flush.simps[of c] flush_post_def flush_done_def)
  next
    case (Stop e c')
    then show ?thesis using P 1(2) flush_frame_refl by (auto simp: drive_flush.simps[of c] flush_post_def flush_done_def)
  next
    case Panicked
    then show ?thesis using P by (simp add: flush_post_def)
  qed
qed

text \<open>The context a call starts from; a resumed call starts where the last one stopped.\<close>

definition flush_start :: "write_state \<Rightarrow> staged_regions \<Rightarrow> step_buf \<Rightarrow> flush_ctx" where
  "flush_start st sr b = \<lparr>fl_state = pending_zero_clear_all (st\<lparr>ws_pending := Idle\<rparr>), fl_staged = sr,
     fl_prog = (case ws_pending st of PFlush p \<Rightarrow> p | _ \<Rightarrow> \<lparr>f_stage = PreBarrier, f_next_idx = 0\<rparr>), fl_steps = b\<rparr>"

lemma flush_rest_steps [simp]: "flush_rest (c\<lparr>fl_steps := b\<rparr>) = flush_rest c"
  by (simp add: flush_rest_def Let_def)

lemma flush_start_resume:
  assumes "flush_frame (pending_zero_clear_all (st\<lparr>ws_pending := Idle\<rparr>)) (fl_state c)"
  shows "flush_start ((fl_state c)\<lparr>ws_pending := PFlush (fl_prog c)\<rparr>) (fl_staged c) b = c\<lparr>fl_steps := b\<rparr>"
proof -
  have "ws_pending (fl_state c) = Idle" "ws_slot_pending_zero (fl_state c) = replicate (MAX_L2_SLOTS div 64) 0"
    using flush_frame_simps[OF assms] by (simp_all add: pending_zero_clear_all_def)
  then have "(fl_state c)\<lparr>ws_pending := Idle\<rparr> = fl_state c"
     "(fl_state c)\<lparr>ws_slot_pending_zero := replicate (MAX_L2_SLOTS div 64) 0\<rparr> = fl_state c" by simp_all
  then have "(fl_state c)\<lparr>ws_pending := Idle, ws_slot_pending_zero := replicate (MAX_L2_SLOTS div 64) 0\<rparr> = fl_state c" by simp
  then show ?thesis by (simp add: flush_start_def pending_zero_clear_all_def)
qed

lemma plan_flush_start:
  assumes inv: "flush_inv (flush_start st sr b)" and cap: "0 < sb_capacity b" and pend: "\<And>p. ws_pending st \<noteq> PWrite p"
  shows "plan_flush st sr b = (case drive_flush (flush_start st sr b) of
      Finished c \<Rightarrow> Some (Inr (sb_emitted (fl_steps c) - sb_emitted b), fl_state c, fl_staged c, fl_steps c)
    | Stop e c \<Rightarrow> Some (Inl e, if e = BufFull then (fl_state c)\<lparr>ws_pending := PFlush (fl_prog c)\<rparr> else fl_state c, fl_staged c, fl_steps c)
    | _ \<Rightarrow> None)"
proof -
  have "staging_ok (pending_zero_clear_all (st\<lparr>ws_pending := Idle\<rparr>)) sr" using inv by (simp add: flush_inv_def flush_start_def)
  then have "validate_staged st sr b = Some (Inr ())" using cap
    by (auto simp: staging_ok_def validate_staged_def pending_zero_clear_all_def Let_def rb_count_def ws_inv_def geo_ok_def not_less)
  then show ?thesis using pend
    by (auto simp: plan_flush_def run_flush_def flush_start_def split: pending.splits drive_res.splits)
qed

lemma flush_start_rest: "flush_rest (flush_start st sr b) = flush_rest (flush_start st sr (sb_new []))"
  by (simp add: flush_start_def flush_rest_def Let_def)

lemma flush_start_inv: "flush_inv (flush_start st sr (sb_new [])) \<Longrightarrow> sb_ok b \<Longrightarrow> flush_inv (flush_start st sr b)"
  using flush_start_rest[of st sr b] by (simp add: flush_inv_def flush_start_def Let_def)

text \<open>One call with an empty buffer: the rest of the stream, or a full window and a resume point for what follows.\<close>

lemma plan_flush_call:
  assumes I: "flush_inv (flush_start st sr (sb_new []))" and b: "sb_ok b" "sb_steps b = []" "0 < sb_capacity b"
    and np: "\<And>p. ws_pending st \<noteq> PWrite p"
  obtains (complete) n st' b' where "plan_flush st sr b = Some (Inr n, st', sr, b')"
      "sb_steps b' = flush_rest (flush_start st sr (sb_new []))" "all_clean st'"
      "flush_frame (pending_zero_clear_all (st\<lparr>ws_pending := Idle\<rparr>)) st'"
  | (window) st' b' where "plan_flush st sr b = Some (Inl BufFull, st', sr, b')" "sb_ok b'" "sb_capacity b' = sb_capacity b"
      "length (sb_steps b') = sb_capacity b"
      "flush_rest (flush_start st sr (sb_new [])) = sb_steps b' @ flush_rest (flush_start st' sr (sb_new []))"
      "flush_rest (flush_start st' sr (sb_new [])) \<noteq> []" "flush_inv (flush_start st' sr (sb_new []))"
      "\<And>p. ws_pending st' \<noteq> PWrite p" "dirty_mapped st sr \<Longrightarrow> dirty_mapped st' sr"
      "flush_frame (pending_zero_clear_all (st\<lparr>ws_pending := Idle\<rparr>)) (pending_zero_clear_all (st'\<lparr>ws_pending := Idle\<rparr>))"
  | (refused) st' b' rest where "plan_flush st sr b = Some (Inl StagedRegionsMismatch, st', sr, b')" "\<not> dirty_mapped st sr"
      "flush_rest (flush_start st sr (sb_new [])) = sb_steps b' @ rest"
proof -
  let ?c = "flush_start st sr b" let ?z = "\<lambda>st. pending_zero_clear_all (st\<lparr>ws_pending := Idle\<rparr>)"
  have J: "flush_inv ?c" by (rule flush_start_inv[OF I b(1)])
  have R: "flush_rest ?c = flush_rest (flush_start st sr (sb_new []))" by (rule flush_start_rest)
  have st: "fl_state ?c = ?z st" "fl_staged ?c = sr" "fl_steps ?c = b" by (simp_all add: flush_start_def)
  have dm: "dirty_mapped (fl_state ?c) sr = dirty_mapped st sr" using dirty_mapped_cong[of "fl_state ?c" st] by (simp add: st pending_zero_clear_all_def)
  note D = drive_flush_done[OF J] and P = plan_flush_start[OF J b(3) np]
  show ?thesis
  proof (cases "drive_flush ?c")
    case (Finished c')
    then show ?thesis using D P R st b by (intro complete) (auto simp: flush_done_def)
  next
    case (Stop e c')
    then have F: "flush_inv c'" "flush_frame (?z st) (fl_state c')" "fl_staged c' = sr" "sb_capacity (fl_steps c') = sb_capacity b"
        "flush_rest ?c = sb_steps (fl_steps c') @ flush_rest c'"
        "e = BufFull \<and> sb_remaining (fl_steps c') = 0 \<and> flush_rest c' \<noteq> [] \<or> e = StagedRegionsMismatch \<and> \<not> dirty_mapped st sr"
      using D dm st b by (auto simp: flush_done_def)
    show ?thesis
    proof (cases "e = BufFull")
      case True
      then have F6: "sb_remaining (fl_steps c') = 0" "flush_rest c' \<noteq> []" using F(6) by simp_all
      let ?st' = "(fl_state c')\<lparr>ws_pending := PFlush (fl_prog c')\<rparr>"
      have re: "flush_start ?st' sr x = c'\<lparr>fl_steps := x\<rparr>" for x using flush_start_resume[OF F(2)] F(3) by simp
      have z: "?z ?st' = fl_state c'" using arg_cong[OF re[of b], of fl_state] by (simp add: flush_start_def)
      show ?thesis
      proof (rule window)
        show "plan_flush st sr b = Some (Inl BufFull, ?st', sr, fl_steps c')" using P Stop F(3) True by simp
        show ok: "sb_ok (fl_steps c')" using F(1) by (simp add: flush_inv_def)
        show "length (sb_steps (fl_steps c')) = sb_capacity b"
          using length_sb_steps[OF ok] F(4) F6(1) ok by (simp add: sb_remaining_def sb_capacity_def sb_ok_def)
        show "flush_inv (flush_start ?st' sr (sb_new []))" using F(1) by (simp add: re) (simp add: flush_inv_def Let_def)
        show "dirty_mapped ?st' sr" if "dirty_mapped st sr"
          using dirty_mapped_frame[OF F(2)] that dm dirty_mapped_cong[of ?st' "fl_state c'"] st by simp
        show "flush_frame (?z st) (?z ?st')" using F(2) by (simp only: z)
      qed (use F F6 R in \<open>simp_all add: re\<close>)
    next
      case False
      then show ?thesis using P Stop F R by (intro refused) auto
    qed
  qed (use D in \<open>simp_all add: flush_done_def\<close>)
qed

text \<open>The caller's loop: a buffer of each given capacity in turn, draining the steps after every call.\<close>

fun flush_windows :: "write_state \<Rightarrow> staged_regions \<Rightarrow> nat list \<Rightarrow> (step list \<times> write_state) option" where
  "flush_windows st sr [] = None"
| "flush_windows st sr (cap # caps) =
     (case plan_flush st sr (sb_new (replicate cap (barrier_step Input0))) of
        Some (Inr n, st', sr', b) \<Rightarrow> Some (sb_steps b, st')
      | Some (Inl BufFull, st', sr', b) \<Rightarrow> map_option (\<lambda>(ss, s). (sb_steps b @ ss, s)) (flush_windows st' sr' caps)
      | _ \<Rightarrow> None)"

lemma flush_windows_rest:
  assumes "flush_inv (flush_start st sr (sb_new []))" "\<forall>p. ws_pending st \<noteq> PWrite p" "dirty_mapped st sr"
    "\<forall>n\<in>set caps. 0 < n" "length (flush_rest (flush_start st sr (sb_new []))) \<le> sum_list caps" "caps \<noteq> []"
  shows "\<exists>st'. flush_windows st sr caps = Some (flush_rest (flush_start st sr (sb_new [])), st') \<and>
     all_clean st' \<and> flush_frame (pending_zero_clear_all (st\<lparr>ws_pending := Idle\<rparr>)) st'"
  using assms
proof (induction caps arbitrary: st)
  case (Cons n caps)
  let ?b = "sb_new (replicate n (barrier_step Input0))"
  have b: "sb_ok ?b" "sb_steps ?b = []" "0 < sb_capacity ?b" using Cons.prems(4) by simp_all
  have np: "ws_pending st \<noteq> PWrite p" for p using Cons.prems(2) by simp
  show ?case
  proof (rule plan_flush_call[OF Cons.prems(1) b np])
    fix k st' b' assume "plan_flush st sr ?b = Some (Inr k, st', sr, b')"
      "sb_steps b' = flush_rest (flush_start st sr (sb_new []))" "all_clean st'"
      "flush_frame (pending_zero_clear_all (st\<lparr>ws_pending := Idle\<rparr>)) st'"
    then show ?case by simp
  next
    fix st' b' assume W: "plan_flush st sr ?b = Some (Inl BufFull, st', sr, b')" "length (sb_steps b') = sb_capacity ?b"
      "flush_rest (flush_start st sr (sb_new [])) = sb_steps b' @ flush_rest (flush_start st' sr (sb_new []))"
      "flush_rest (flush_start st' sr (sb_new [])) \<noteq> []" "flush_inv (flush_start st' sr (sb_new []))"
      "\<And>p. ws_pending st' \<noteq> PWrite p" "dirty_mapped st sr \<Longrightarrow> dirty_mapped st' sr"
      "flush_frame (pending_zero_clear_all (st\<lparr>ws_pending := Idle\<rparr>)) (pending_zero_clear_all (st'\<lparr>ws_pending := Idle\<rparr>))"
    have "caps \<noteq> []" using Cons.prems(5) W(2-4) by auto
    then obtain st2 where "flush_windows st' sr caps = Some (flush_rest (flush_start st' sr (sb_new [])), st2)" "all_clean st2"
        "flush_frame (pending_zero_clear_all (st'\<lparr>ws_pending := Idle\<rparr>)) st2"
      using Cons.IH[OF W(5) _ W(7)[OF Cons.prems(3)]] Cons.prems(4,5) W(2,3,6) by auto
    then show ?case using W(1,3) flush_frame_trans[OF W(8)] by auto
  qed (use Cons.prems(3) in simp)
qed simp

lemma slots_own_frame:
  assumes "flush_frame st st'" "slots_own st sr" "staging_ok st sr"
  shows "slots_own st' sr"
proof -
  have m: "map (\<lambda>s. s\<lparr>l_dirty := False\<rparr>) (ws_l2_slots st') = map (\<lambda>s. s\<lparr>l_dirty := False\<rparr>) (ws_l2_slots st)"
    using assms(1) by (auto simp: flush_frame_def)
  have eq: "l_valid (ws_l2_slots st' ! i) = l_valid (ws_l2_slots st ! i) \<and> l_host_offset (ws_l2_slots st' ! i) = l_host_offset (ws_l2_slots st ! i)"
    if "i < length (ws_l2_slots st)" for i
  proof -
    have i': "i < length (ws_l2_slots st')" using that map_eq_imp_length_eq[OF m] by simp
    have "(ws_l2_slots st' ! i)\<lparr>l_dirty := False\<rparr> = (ws_l2_slots st ! i)\<lparr>l_dirty := False\<rparr>"
      using arg_cong[OF m, of "\<lambda>xs. xs ! i"] that i' by simp
    from arg_cong[OF this, of l_valid] arg_cong[OF this, of l_host_offset] show ?thesis by simp
  qed
  show ?thesis using assms(2) eq staging_bounds[OF assms(3)] same_base_simps[OF flush_frame_simps(6)[OF assms(1)]]
    by (simp add: slots_own_def flush_frame_simps(2)[OF assms(1)])
qed

lemma clear_base:
  assumes "plan_inv st sr H"
  shows "staging_ok (pending_zero_clear_all (st\<lparr>ws_pending := Idle\<rparr>)) sr" "slots_own (pending_zero_clear_all (st\<lparr>ws_pending := Idle\<rparr>)) sr"
proof -
  let ?st = "pending_zero_clear_all (st\<lparr>ws_pending := Idle\<rparr>)"
  have sb: "same_base st ?st" using assms
    by (simp add: same_base_def pending_zero_clear_all_def plan_inv_def staging_ok_def ws_inv_def)
  show "staging_ok ?st sr" "slots_own ?st sr" using assms same_base_simps(1)[OF sb] slots_own_cong[OF _ sb]
    by (simp_all add: plan_inv_def) (simp add: pending_zero_clear_all_def)
qed

lemma epoch_start:
  assumes "plan_inv st sr H" "ws_pending st = Idle"
  shows "flush_inv (flush_start st sr (sb_new []))" "flush_rest (flush_start st sr (sb_new [])) = flush_skeleton st sr"
proof -
  show "flush_rest (flush_start st sr (sb_new [])) = flush_skeleton st sr" using assms(2)
    by (simp add: flush_rest_def flush_start_def flush_skeleton_def Let_def pending_zero_clear_all_def bar_def l2_group_def l1_group_def
        rb_group_def slot_dirty_def[abs_def] refblock_dirty_def[abs_def])
  show "flush_inv (flush_start st sr (sb_new []))" using clear_base(1)[OF assms(1)] assms(2) by (simp add: flush_inv_def flush_start_def)
qed

lemma epoch_end:
  assumes "plan_inv st sr H" "flush_frame (pending_zero_clear_all (st\<lparr>ws_pending := Idle\<rparr>)) st'"
  shows "plan_inv st' sr []" "ws_pending st' = Idle"
proof -
  note s = clear_base[OF assms(1)]
  show "ws_pending st' = Idle" using flush_frame_simps(3)[OF assms(2)] by (simp add: pending_zero_clear_all_def)
  then show "plan_inv st' sr []" using slots_own_frame[OF assms(2) s(2,1)] s(1) same_base_simps(1)[OF flush_frame_simps(6)[OF assms(2)]]
    by (simp add: plan_inv_def ordered_def)
qed

lemma flush_windows_epoch:
  assumes inv: "plan_inv st sr H" and pend: "ws_pending st = Idle" and dm: "dirty_mapped st sr"
    and caps: "\<forall>n\<in>set caps. 0 < n" "caps \<noteq> []" "length (flush_skeleton st sr) \<le> sum_list caps"
  shows "\<exists>st'. flush_windows st sr caps = Some (flush_skeleton st sr, st') \<and> all_clean st' \<and> plan_inv st' sr []"
  using flush_windows_rest[OF epoch_start(1)[OF inv pend] _ dm caps(1) _ caps(2)] pend caps(3) epoch_start(2)[OF inv pend]
    epoch_end(1)[OF inv] by auto

section \<open>An epoch to flush\<close>

definition ex_dirty :: write_state where
  "ex_dirty = ex_st\<lparr>ws_l2_slots := (replicate 256 L2Slot_EMPTY)[0 := \<lparr>l_valid = True, l_dirty = True, l_l1_idx = 0, l_host_offset = 1024, l_last_access = 1\<rparr>],
     ws_refblock_dirty := 1 # replicate 31 0, ws_l1_dirty := True, ws_steps_since_barrier := 4\<rparr>"

lemma ex_dirty_skeleton: "flush_skeleton ex_dirty ex_sr =
   [barrier_step Input0, writeback_step 0 1024 512 Input0, barrier_step Input0, l1_writeback_step ex_geo Input0, barrier_step Input0,
    refblock_writeback_step 0 1024 512 Input0, barrier_step Input0]"
  by (simp add: flush_skeleton_def ex_dirty_def ex_st_def ex_cfg_def ex_geo_def ex_sr_def bar_def fence_def l2_group_def l1_group_def rb_group_def
      slot_dirty_def refblock_dirty_def bitset_get_def shr_def rb_host_def read_u64_be_def slice_at_def u64_from_be_def be_val_def Let_def
      L1_OFFSET_MASK_def)

lemma ex_dirty_inv: "plan_inv ex_dirty ex_sr []" "ws_pending ex_dirty = Idle"
proof -
  have rc: "staged_rc ex_sr 2 = 1" by (simp add: ex_sr_def ex_rb_eq rc_flat_def be_val_def slice_at_def)
  have "same_base ex_st ex_dirty" by (simp add: same_base_def ex_dirty_def ex_st_def)
  then have "staging_ok ex_dirty ex_sr" using same_base_simps(1) ex_plan_inv(1) by (simp add: plan_inv_def)
  moreover have "slots_own ex_dirty ex_sr" using rc
    by (simp add: slots_own_def own_def ex_dirty_def ex_st_def ex_cfg_def ex_geo_def cidx_def covered_def rb_count_def ex_sr_def ex_rb_length)
  ultimately show "plan_inv ex_dirty ex_sr []" by (simp add: plan_inv_def ordered_def ex_dirty_def ex_st_def)
qed (simp add: ex_dirty_def ex_st_def)

lemma ex_dirty_mapped: "dirty_mapped ex_dirty ex_sr"
proof -
  have "refblock_dirty ex_dirty i \<longrightarrow> i = 0" for i by (simp add: refblock_dirty_def ex_dirty_def ex_st_def ex_cfg_def)
  moreover have "rb_mapped ex_dirty ex_sr 0"
    by (simp add: rb_mapped_def rb_count_def ex_dirty_def ex_st_def ex_geo_def ex_sr_def ex_rb_length read_u64_be_def slice_at_def
      u64_from_be_def be_val_def L1_OFFSET_MASK_def is_multiple_of_def)
  ultimately show ?thesis by (auto simp: dirty_mapped_def)
qed

section \<open>Properties\<close>

text \<open>(C4) A flush completes and does not depend on the buffer: from an idle planner whose dirty refblocks are
  mapped by the refcount table, a caller that offers step buffers of any non-zero capacities, draining each,
  collects exactly the documented skeleton (the barrier that pins the data writes, the dirty L2 tables in slot
  order, the L1 table, the dirty refblocks last, every group followed by a durability barrier) as soon as the
  capacities add up to its length; afterwards nothing is dirty, and the planner invariant holds for a fresh epoch.\<close>

theorem flush_any_windows:
  assumes "plan_inv st sr H" "ws_pending st = Idle" "dirty_mapped st sr"
    and "\<forall>n\<in>set caps. 0 < n" "caps \<noteq> []" "length (flush_skeleton st sr) \<le> sum_list caps"
  shows "\<exists>st'. flush_windows st sr caps = Some (flush_skeleton st sr, st') \<and> all_clean st' \<and> plan_inv st' sr []"
  using assms by (rule flush_windows_epoch)

theorem flush_any_windows_witness:
  "\<exists>st'. flush_windows ex_dirty ex_sr [2, 1, 3, 4] =
     Some ([barrier_step Input0, writeback_step 0 1024 512 Input0, barrier_step Input0, l1_writeback_step ex_geo Input0,
       barrier_step Input0, refblock_writeback_step 0 1024 512 Input0, barrier_step Input0], st') \<and> all_clean st'"
  using flush_any_windows[of ex_dirty ex_sr "[]" "[2, 1, 3, 4]"] ex_dirty_inv ex_dirty_mapped by (auto simp: ex_dirty_skeleton)

end
