(* ===== verification/Commit_Window.thy ===== *)
theory Commit_Window
  imports Write_Progress Step_Frame Write_Flush
begin

text \<open>
  The plan and execute loops of the commit operation (\<^verbatim>\<open>operations/commit/src/main.rs\<close>): a request is
  planned into the step buffer, the window is executed against the backing device, and the planner is
  resumed with the same arguments until it reports success.  The staged buffers are one memory: the
  planner sees them through \<open>staged_view\<close> and the executor as the \<open>regions\<close>.
\<close>

section \<open>Exit codes\<close>

abbreviation ERROR_OK :: u32 where "ERROR_OK \<equiv> 0"
abbreviation ERROR_UNSUPPORTED_FORMAT :: u32 where "ERROR_UNSUPPORTED_FORMAT \<equiv> 1"
abbreviation ERROR_EXTERNAL_DATA_FILE :: u32 where "ERROR_EXTERNAL_DATA_FILE \<equiv> 3"
abbreviation ERROR_LUKS_UNSUPPORTED :: u32 where "ERROR_LUKS_UNSUPPORTED \<equiv> 4"
abbreviation ERROR_BACKING_TOO_SMALL :: u32 where "ERROR_BACKING_TOO_SMALL \<equiv> 5"
abbreviation ERROR_OVERLAY_LARGER_THAN_BACKING :: u32 where "ERROR_OVERLAY_LARGER_THAN_BACKING \<equiv> 6"
abbreviation ERROR_HEADER_MISMATCH :: u32 where "ERROR_HEADER_MISMATCH \<equiv> 7"
abbreviation ERROR_OVERLAY_CORRUPT :: u32 where "ERROR_OVERLAY_CORRUPT \<equiv> 8"
abbreviation ERROR_BACKING_CORRUPT :: u32 where "ERROR_BACKING_CORRUPT \<equiv> 9"
abbreviation ERROR_SCRATCH_TOO_SMALL :: u32 where "ERROR_SCRATCH_TOO_SMALL \<equiv> 10"
abbreviation ERROR_REFCOUNT_EXHAUSTED :: u32 where "ERROR_REFCOUNT_EXHAUSTED \<equiv> 11"
abbreviation ERROR_PARSE_FAILED :: u32 where "ERROR_PARSE_FAILED \<equiv> 12"
abbreviation ERROR_INTERNAL_OVERFLOW :: u32 where "ERROR_INTERNAL_OVERFLOW \<equiv> 13"
abbreviation ERROR_BACKING_HAS_SNAPSHOTS :: u32 where "ERROR_BACKING_HAS_SNAPSHOTS \<equiv> 14"
abbreviation ERROR_BACKING_UNSUPPORTED :: u32 where "ERROR_BACKING_UNSUPPORTED \<equiv> 16"
abbreviation ERROR_BACKING_INCONSISTENT :: u32 where "ERROR_BACKING_INCONSISTENT \<equiv> 17"

fun map_write_error :: "write_error \<Rightarrow> u32" where
  "map_write_error WRefcountExhausted = ERROR_REFCOUNT_EXHAUSTED"
| "map_write_error CompressedCluster = ERROR_UNSUPPORTED_FORMAT"
| "map_write_error SnapshotShared = ERROR_BACKING_INCONSISTENT"
| "map_write_error SnapshotSharedL2Table = ERROR_BACKING_INCONSISTENT"
| "map_write_error RefcountInconsistent = ERROR_BACKING_INCONSISTENT"
| "map_write_error RefcountCoverage = ERROR_BACKING_INCONSISTENT"
| "map_write_error UnknownL1Entry = ERROR_BACKING_INCONSISTENT"
| "map_write_error UnknownL2Entry = ERROR_BACKING_INCONSISTENT"
| "map_write_error StagedRegionsMismatch = ERROR_BACKING_INCONSISTENT"
| "map_write_error NeedsBackingFill = ERROR_BACKING_INCONSISTENT"
| "map_write_error BufFull = ERROR_INTERNAL_OVERFLOW"
| "map_write_error NotImplemented = ERROR_INTERNAL_OVERFLOW"
| "map_write_error OutOfBounds = ERROR_INTERNAL_OVERFLOW"
| "map_write_error ResumeMismatch = ERROR_INTERNAL_OVERFLOW"

datatype run_exit = RunOk | RunErr u32 | RunPanic

section \<open>Windows\<close>

text \<open>The planner's view of the staged buffers; only the refblocks are borrowed mutably.\<close>

definition staged_view :: "regions \<Rightarrow> staged_regions" where
  "staged_view rg = \<lparr>sr_l1 = rg_l1 rg, sr_l2_window = rg_l2_window rg, sr_refcount_table = rg_refcount_table rg,
     sr_refblocks = rg_refblocks rg\<rparr>"

definition exec_window :: "'d device_io \<Rightarrow> step_buf \<Rightarrow> regions \<Rightarrow> 'd \<Rightarrow> bool \<times> step_buf \<times> regions \<times> 'd" where
  "exec_window io steps rg d =
     (case execute io (sb_steps steps) rg d of
        (Inl e, rg', d') \<Rightarrow> (False, sb_reset steps, rg', d')
      | (Inr stats, rg', d') \<Rightarrow> (True, sb_reset steps, rg', d'))"

type_synonym 'd loop_result = "(run_exit \<times> write_state \<times> regions \<times> step_buf \<times> 'd) option"

text \<open>The two loops; \<open>None\<close> would be a loop that never ends.\<close>

partial_function (option) plan_write_loop ::
    "'d device_io \<Rightarrow> u64 \<Rightarrow> u64 \<Rightarrow> data_source \<Rightarrow> write_state \<Rightarrow> regions \<Rightarrow> step_buf \<Rightarrow> 'd \<Rightarrow> 'd loop_result" where
  "plan_write_loop io voff len data st rg b d =
     (case plan_write st (staged_view rg) voff len data b of
        None \<Rightarrow> Some (RunPanic, st, rg, b, d)
      | Some (r, st', sr', b') \<Rightarrow>
          (case exec_window io b' (rg\<lparr>rg_refblocks := sr_refblocks sr'\<rparr>) d of
             (ok, b2, rg2, d2) \<Rightarrow>
               (case r of
                  Inr n \<Rightarrow> Some (if ok then RunOk else RunErr ERROR_HEADER_MISMATCH, st', rg2, b2, d2)
                | Inl e \<Rightarrow>
                    if e = BufFull then
                      (if ok then plan_write_loop io voff len data st' rg2 b2 d2
                       else Some (RunErr ERROR_HEADER_MISMATCH, st', rg2, b2, d2))
                    else Some (RunErr (map_write_error e), st', rg2, b2, d2))))"

partial_function (option) plan_flush_loop ::
    "'d device_io \<Rightarrow> write_state \<Rightarrow> regions \<Rightarrow> step_buf \<Rightarrow> 'd \<Rightarrow> 'd loop_result" where
  "plan_flush_loop io st rg b d =
     (case plan_flush st (staged_view rg) b of
        None \<Rightarrow> Some (RunPanic, st, rg, b, d)
      | Some (r, st', sr', b') \<Rightarrow>
          (case exec_window io b' (rg\<lparr>rg_refblocks := sr_refblocks sr'\<rparr>) d of
             (ok, b2, rg2, d2) \<Rightarrow>
               (case r of
                  Inr n \<Rightarrow> Some (if ok then RunOk else RunErr ERROR_HEADER_MISMATCH, st', rg2, b2, d2)
                | Inl e \<Rightarrow>
                    if e = BufFull then
                      (if ok then plan_flush_loop io st' rg2 b2 d2
                       else Some (RunErr ERROR_HEADER_MISMATCH, st', rg2, b2, d2))
                    else Some (RunErr (map_write_error e), st', rg2, b2, d2))))"

section \<open>Windows and the invariants of the planner\<close>

lemma staged_view_sel [simp]:
  "sr_l1 (staged_view rg) = rg_l1 rg" "sr_l2_window (staged_view rg) = rg_l2_window rg"
  "sr_refcount_table (staged_view rg) = rg_refcount_table rg" "sr_refblocks (staged_view rg) = rg_refblocks rg"
  by (simp_all add: staged_view_def)

text \<open>The invariants read the sizes of the L1 table and of the window, and the refcount structures.\<close>

definition same_refs :: "staged_regions \<Rightarrow> staged_regions \<Rightarrow> bool" where
  "same_refs sr sr' \<longleftrightarrow> length (sr_l1 sr') = length (sr_l1 sr) \<and> length (sr_l2_window sr') = length (sr_l2_window sr) \<and>
     sr_refcount_table sr' = sr_refcount_table sr \<and> sr_refblocks sr' = sr_refblocks sr"

lemma same_refs_own: "same_refs sr sr' \<Longrightarrow> own st sr' = own st sr" "same_refs sr sr' \<Longrightarrow> safe_step st sr' = safe_step st sr"
  by (auto simp: own_def safe_step_def covered_def rb_count_def same_refs_def fun_eq_iff)

lemma same_refs_plan:
  assumes "same_refs sr sr'" "plan_inv st sr H"
  shows "plan_inv st sr' H"
proof -
  have s: "staging_ok st sr' = staging_ok st sr" using assms(1) by (simp add: staging_ok_def covered_def rb_count_def same_refs_def)
  have o: "slots_own st sr' = slots_own st sr" "hosts_own st sr' p = hosts_own st sr p" for p
    by (simp_all add: slots_own_def hosts_own_def same_refs_own[OF assms(1)])
  have w: "write_inv st sr' p H = write_inv st sr p H" for p by (simp add: write_inv_def s o same_refs_own[OF assms(1)])
  show ?thesis using assms(2) by (simp add: plan_inv_def s o w same_refs_own[OF assms(1)] cong: pending.case_cong)
qed

lemma plan_inv_forget: "plan_inv st sr H \<Longrightarrow> ws_pending st = Idle \<Longrightarrow> plan_inv st sr []"
  by (simp add: plan_inv_def ordered_def)


lemma stages_pointers_disjoint:
  "stages_pointers s \<Longrightarrow> stages s \<Longrightarrow> q \<in> {RRefcountTable, RRefblocks, RCallerData} \<Longrightarrow> disjoint_regions (s_region s) q"
  by (auto simp: stages_pointers_def stages_def disjoint_regions_def split: region_id.splits)

text \<open>What a request keeps of the memory: everything but the staged L1 table, L2 window, refblocks and bounce buffer,
  and of these the sizes of all but the refblocks.\<close>

definition same_carve :: "regions \<Rightarrow> regions \<Rightarrow> bool" where
  "same_carve rg rg' \<longleftrightarrow> length (rg_l1 rg') = length (rg_l1 rg) \<and> length (rg_l2_window rg') = length (rg_l2_window rg) \<and>
     length (rg_bounce rg') = length (rg_bounce rg) \<and> length (rg_rmw_sector rg') = length (rg_rmw_sector rg) \<and>
     length (rg_fill_sector rg') = length (rg_fill_sector rg) \<and> rg_refcount_table rg' = rg_refcount_table rg \<and>
     rg_caller_data rg' = rg_caller_data rg \<and> rg_cluster_size rg' = rg_cluster_size rg"

lemma same_carve_refl [simp]: "same_carve rg rg" "same_carve rg (rg\<lparr>rg_refblocks := rb\<rparr>)"
  by (simp_all add: same_carve_def)

lemma same_carve_trans: "same_carve a b \<Longrightarrow> same_carve b c \<Longrightarrow> same_carve a c"
  by (simp add: same_carve_def)

lemma same_shapeD:
  assumes "same_shape rg rg'"
  shows "length (rg_l1 rg') = length (rg_l1 rg)" "length (rg_l2_window rg') = length (rg_l2_window rg)"
    "length (rg_bounce rg') = length (rg_bounce rg)" "length (rg_rmw_sector rg') = length (rg_rmw_sector rg)"
    "length (rg_fill_sector rg') = length (rg_fill_sector rg)" "rg_cluster_size rg' = rg_cluster_size rg"
  using assms spec[OF conjunct1[OF assms[unfolded same_shape_def]], of RL1]
    spec[OF conjunct1[OF assms[unfolded same_shape_def]], of "RL2Slot 0"]
    spec[OF conjunct1[OF assms[unfolded same_shape_def]], of RBounce] by (simp_all add: same_shape_def)

context frame_io
begin

lemma exec_window_frame:
  assumes "exec_window io b rg d = (ok, b2, rg2, d2)" "\<forall>s\<in>set (sb_steps b). stages_pointers s"
  shows "b2 = sb_reset b" "same_carve rg rg2" "same_refs (staged_view rg) (staged_view rg2)"
    "(\<forall>s\<in>set (sb_steps b). s_device s \<noteq> dev) \<Longrightarrow> content d2 dev = content d dev"
proof -
  obtain r where E: "execute io (sb_steps b) rg d = (r, rg2, d2)" "b2 = sb_reset b"
    using assms(1) by (auto simp: exec_window_def split: prod.splits sum.splits)
  note F = execute_frame[OF E(1)]
  show "b2 = sb_reset b" by (rule E(2))
  have eq: "region_buf rg2 q = region_buf rg q" if "q \<in> {RRefcountTable, RRefblocks, RCallerData}" for q
    using F assms(2) stages_pointers_disjoint[OF _ _ that] by blast
  show "same_carve rg rg2" "same_refs (staged_view rg) (staged_view rg2)"
    using same_shapeD[OF conjunct1[OF F]] eq[of RRefcountTable] eq[of RRefblocks] eq[of RCallerData]
    by (simp_all add: same_carve_def same_refs_def)
  show "(\<forall>s\<in>set (sb_steps b). s_device s \<noteq> dev) \<Longrightarrow> content d2 dev = content d dev" using F by blast
qed

text \<open>One turn of the write loop, when the planner neither panics nor refuses.\<close>

lemma write_window:
  assumes I: "plan_inv st (staged_view rg) H" "cow_pending st" and b: "sb_ok b" "sb_steps b = []" "0 < sb_capacity b"
  obtains r st' rb b' ok rg2 d2 where
    "plan_write st (staged_view rg) voff len data b = Some (r, st', (staged_view rg)\<lparr>sr_refblocks := rb\<rparr>, b')"
    "exec_window io b' (rg\<lparr>rg_refblocks := rb\<rparr>) d = (ok, sb_reset b', rg2, d2)"
    "\<exists>H'. plan_inv st' (staged_view rg2) H'" "cow_pending st'" "sb_capacity b' = sb_capacity b" "same_carve rg rg2"
    "ws_config st' = ws_config st" "ws_geometry st' = ws_geometry st" "\<forall>dev. dev \<noteq> c_device (ws_config st) \<longrightarrow> content d2 dev = content d dev"
    "\<And>n. r = Inr n \<Longrightarrow> ws_pending st' = Idle"
    "r = Inl BufFull \<Longrightarrow> request_left st' (staged_view rg2) len < request_left st (staged_view rg) len"
proof -
  have rem: "0 < sb_remaining b" using b by (simp add: sb_remaining_def sb_capacity_def sb_ok_def sb_steps_def)
  have inv: "plan_inv st (staged_view rg) (H @ sb_steps b)" using I b(2) by simp
  obtain r st' sr' b' where P: "plan_write st (staged_view rg) voff len data b = Some (r, st', sr', b')"
    "sb_ok b'" "plan_inv st' sr' (H @ sb_steps b')" using plan_write_inv[OF inv b(1)] by blast
  note W = plan_write_window[OF inv b(1) rem I(2) P(1), unfolded window_post_def]
  then obtain rb where rb: "sr' = (staged_view rg)\<lparr>sr_refblocks := rb\<rparr>" by blast
  have sv: "sr' = staged_view (rg\<lparr>rg_refblocks := rb\<rparr>)" by (simp add: rb staged_view_def)
  obtain ok b2 rg2 d2 where E: "exec_window io b' (rg\<lparr>rg_refblocks := rb\<rparr>) d = (ok, b2, rg2, d2)" by (metis prod_cases4)
  have sp: "\<forall>s\<in>set (sb_steps b'). stages_pointers s" using W b(2) by simp
  note F = exec_window_frame[OF E sp]
  have pi: "plan_inv st' (staged_view rg2) (H @ sb_steps b')" using same_refs_plan[OF F(3)] P(3) sv by simp
  have dev: "\<forall>s\<in>set (sb_steps b'). s_device s = c_device (ws_config st)"
    using P(3) W by (auto simp: plan_inv_def safe_step_def)
  show ?thesis
  proof (rule that[OF P(1)[unfolded rb]])
    show "exec_window io b' (rg\<lparr>rg_refblocks := rb\<rparr>) d = (ok, sb_reset b', rg2, d2)" using E F(1) by simp
    show "\<exists>H'. plan_inv st' (staged_view rg2) H'" using pi by blast
    show "same_carve rg rg2" using same_carve_trans[OF same_carve_refl(2) F(2)] .
    show "\<forall>dev. dev \<noteq> c_device (ws_config st) \<longrightarrow> content d2 dev = content d dev"
      using F(4) dev by metis
  qed (use W in auto)
qed

lemma plan_write_loop_frame:
  assumes "plan_inv st (staged_view rg) H" "cow_pending st" "sb_ok b" "sb_steps b = []" "0 < sb_capacity b"
  shows "\<exists>e st' rg' b' d'. plan_write_loop io voff len data st rg b d = Some (e, st', rg', b', d') \<and> e \<noteq> RunPanic \<and>
    (\<exists>H'. plan_inv st' (staged_view rg') H') \<and> cow_pending st' \<and> (e = RunOk \<longrightarrow> ws_pending st' = Idle) \<and>
    sb_ok b' \<and> sb_steps b' = [] \<and> sb_capacity b' = sb_capacity b \<and> same_carve rg rg' \<and>
    ws_config st' = ws_config st \<and> ws_geometry st' = ws_geometry st \<and> (\<forall>dev. dev \<noteq> c_device (ws_config st) \<longrightarrow> content d' dev = content d dev)"
  using assms
proof (induction "request_left st (staged_view rg) len" arbitrary: st rg b d H rule: less_induct)
  case less
  obtain r st' rb b' ok rg2 d2 where P: "plan_write st (staged_view rg) voff len data b = Some (r, st', (staged_view rg)\<lparr>sr_refblocks := rb\<rparr>, b')"
    "exec_window io b' (rg\<lparr>rg_refblocks := rb\<rparr>) d = (ok, sb_reset b', rg2, d2)"
    and Q: "\<exists>H'. plan_inv st' (staged_view rg2) H'" "cow_pending st'" "sb_capacity b' = sb_capacity b" "same_carve rg rg2"
    "ws_config st' = ws_config st" "ws_geometry st' = ws_geometry st" "\<forall>dev. dev \<noteq> c_device (ws_config st) \<longrightarrow> content d2 dev = content d dev"
    "\<And>n. r = Inr n \<Longrightarrow> ws_pending st' = Idle"
    "r = Inl BufFull \<Longrightarrow> request_left st' (staged_view rg2) len < request_left st (staged_view rg) len"
    using write_window[OF less.prems] by blast
  have eq: "plan_write_loop io voff len data st rg b d =
      (case r of Inr n \<Rightarrow> Some (if ok then RunOk else RunErr ERROR_HEADER_MISMATCH, st', rg2, sb_reset b', d2)
       | Inl e \<Rightarrow> if e = BufFull then (if ok then plan_write_loop io voff len data st' rg2 (sb_reset b') d2
             else Some (RunErr ERROR_HEADER_MISMATCH, st', rg2, sb_reset b', d2))
           else Some (RunErr (map_write_error e), st', rg2, sb_reset b', d2))"
    by (subst plan_write_loop.simps) (simp add: P)
  show ?case
  proof (cases "r = Inl BufFull \<and> ok")
    case True
    obtain H' where H': "plan_inv st' (staged_view rg2) H'" using Q(1) by blast
    have lt: "request_left st' (staged_view rg2) len < request_left st (staged_view rg) len" using Q(9) True by simp
    have "sb_ok (sb_reset b')" "sb_steps (sb_reset b') = []" "0 < sb_capacity (sb_reset b')" using Q(3) less.prems(5) by simp_all
    from less.hyps[OF lt H' Q(2) this, of d2] show ?thesis using eq True Q(3-7) same_carve_trans[OF Q(4)] by auto
  next
    case False
    then show ?thesis using eq Q by (auto split: sum.splits)
  qed
qed

end

section \<open>The flush loop\<close>

definition flush_step :: "target_device \<Rightarrow> step \<Rightarrow> bool" where
  "flush_step dev s \<longleftrightarrow> \<not> stages s \<and> s_device s = dev"

lemma flush_step_groups:
  "list_all (flush_step dev) g \<Longrightarrow> list_all (flush_step dev) (fence dev g)"
  "list_all (flush_step (c_device (ws_config st))) (bar st)" "list_all (flush_step (c_device (ws_config st))) (l2_group st k)"
  "list_all (flush_step (c_device (ws_config st))) (l1_group st)" "list_all (flush_step (c_device (ws_config st))) (rb_group st sr k)"
  by (auto simp: list_all_iff flush_step_def fence_def bar_def l2_group_def l1_group_def rb_group_def stages_def step_builders
      l1_writeback_step_def refblock_writeback_step_def)

lemma flush_rest_kinds: "\<forall>s\<in>set (flush_rest c). flush_step (c_device (ws_config (fl_state c))) s"
  unfolding list_all_iff[symmetric]
  by (cases "f_stage (fl_prog c)") (simp_all add: flush_rest_def flush_skeleton_def Let_def flush_step_groups)

lemma execute_idle_regions:
  "(\<And>s. s \<in> set ss \<Longrightarrow> \<not> stages s) \<Longrightarrow> fst (fold apply_step ss (rg, m)) = rg"
  by (induction ss arbitrary: m) (auto simp: apply_step_def Let_def stages_def split: step_kind.splits)

lemma plain_eqI:
  assumes "same_shape rg rg'" "\<And>q. region_buf rg' q = region_buf rg q"
  shows "plain rg' = plain rg" "staged_view rg' = staged_view rg"
  using assms(2)[of RL1] assms(2)[of "RL2Slot 0"] assms(2)[of RRefcountTable] assms(2)[of RRefblocks] assms(2)[of RBounce] assms(2)[of RCallerData]
    same_shapeD(6)[OF assms(1)] by (simp_all add: plain_def staged_view_def)

lemma staged_plain: "plain rg' = plain rg \<Longrightarrow> staged_view rg' = staged_view rg"
proof -
  have "staged_view x = staged_view (plain x)" for x by (simp add: staged_view_def plain_def)
  then show "plain rg' = plain rg \<Longrightarrow> ?thesis" by metis
qed

context frame_io
begin

lemma exec_flush_window:
  assumes "exec_window io b rg d = (ok, b2, rg2, d2)" "\<forall>s\<in>set (sb_steps b). flush_step dev s"
  shows "b2 = sb_reset b" "same_shape rg rg2" "plain rg2 = plain rg" "\<forall>q. q \<noteq> dev \<longrightarrow> content d2 q = content d q"
proof -
  obtain r where E: "execute io (sb_steps b) rg d = (r, rg2, d2)" "b2 = sb_reset b"
    using assms(1) by (auto simp: exec_window_def split: prod.splits sum.splits)
  note F = execute_frame[OF E(1)]
  have fs: "\<And>s. s \<in> set (sb_steps b) \<Longrightarrow> \<not> stages s \<and> s_device s = dev" using assms(2) by (auto simp: flush_step_def)
  show "b2 = sb_reset b" by (rule E(2))
  show sh: "same_shape rg rg2" using F by simp
  show "plain rg2 = plain rg" by (rule plain_eqI(1)[OF sh]) (use F fs in blast)
  show "\<forall>q. q \<noteq> dev \<longrightarrow> content d2 q = content d q"
  proof (intro allI impI)
    fix q assume "q \<noteq> dev"
    then have "\<forall>s\<in>set (sb_steps b). s_device s \<noteq> q" using fs by auto
    then show "content d2 q = content d q" using F by simp
  qed
qed

text \<open>The flush loop ends on every device: it succeeds with everything clean, or reports an error; it changes neither
  the staged bytes nor the other device.\<close>

lemma plan_flush_loop_frame:
  assumes "flush_inv (flush_start st (staged_view rg) (sb_new []))" "\<forall>p. ws_pending st \<noteq> PWrite p"
    and "sb_ok b" "sb_steps b = []" "0 < sb_capacity b"
  shows "\<exists>e st' rg' b' d'. plan_flush_loop io st rg b d = Some (e, st', rg', b', d') \<and> e \<noteq> RunPanic \<and>
    (e = RunOk \<longrightarrow> all_clean st' \<and> flush_frame (pending_zero_clear_all (st\<lparr>ws_pending := Idle\<rparr>)) st') \<and>
    plain rg' = plain rg \<and> (\<forall>q. q \<noteq> c_device (ws_config st) \<longrightarrow> content d' q = content d q)"
  using assms
proof (induction "length (flush_rest (flush_start st (staged_view rg) (sb_new [])))" arbitrary: st rg b d rule: less_induct)
  case less
  let ?sr = "staged_view rg" let ?rest = "\<lambda>st. flush_rest (flush_start st ?sr (sb_new []))"
  have fs: "\<forall>s\<in>set (?rest st). flush_step (c_device (ws_config st)) s"
    using flush_rest_kinds[of "flush_start st ?sr (sb_new [])"] by (simp add: flush_start_def pending_zero_clear_all_def)
  have np: "\<And>p. ws_pending st \<noteq> PWrite p" using less.prems(2) by simp
  have id: "rg\<lparr>rg_refblocks := sr_refblocks ?sr\<rparr> = rg" by simp
  show ?case
  proof (rule plan_flush_call[OF less.prems(1,3-5) np])
    fix n st' b' assume C: "plan_flush st ?sr b = Some (Inr n, st', ?sr, b')" "sb_steps b' = ?rest st" "all_clean st'"
      "flush_frame (pending_zero_clear_all (st\<lparr>ws_pending := Idle\<rparr>)) st'"
    obtain ok b2 rg2 d2 where E: "exec_window io b' rg d = (ok, b2, rg2, d2)" by (metis prod_cases4)
    show ?case using exec_flush_window[OF E fs[folded C(2)]] C E by (subst plan_flush_loop.simps) simp
  next
    fix st' b' rest assume R: "plan_flush st ?sr b = Some (Inl StagedRegionsMismatch, st', ?sr, b')" "?rest st = sb_steps b' @ rest"
    obtain ok b2 rg2 d2 where E: "exec_window io b' rg d = (ok, b2, rg2, d2)" by (metis prod_cases4)
    have "\<forall>s\<in>set (sb_steps b'). flush_step (c_device (ws_config st)) s" using fs R(2) by simp
    from exec_flush_window[OF E this] show ?case using R E by (subst plan_flush_loop.simps) simp
  next
    fix st' b' assume W: "plan_flush st ?sr b = Some (Inl BufFull, st', ?sr, b')" "sb_ok b'" "sb_capacity b' = sb_capacity b"
      "length (sb_steps b') = sb_capacity b" "?rest st = sb_steps b' @ ?rest st'" "flush_inv (flush_start st' ?sr (sb_new []))"
      "\<And>p. ws_pending st' \<noteq> PWrite p"
      "flush_frame (pending_zero_clear_all (st\<lparr>ws_pending := Idle\<rparr>)) (pending_zero_clear_all (st'\<lparr>ws_pending := Idle\<rparr>))"
    obtain ok b2 rg2 d2 where E: "exec_window io b' rg d = (ok, b2, rg2, d2)" by (metis prod_cases4)
    have "\<forall>s\<in>set (sb_steps b'). flush_step (c_device (ws_config st)) s" using fs W(5) by simp
    note F = exec_flush_window[OF E this]
    have sv: "staged_view rg2 = ?sr" by (rule staged_plain[OF F(3)])
    have cf: "ws_config st' = ws_config st" using flush_frame_simps(2)[OF W(8)] by (simp add: pending_zero_clear_all_def)
    show ?case
    proof (cases ok)
      case False
      then show ?thesis using W(1) E F by (subst plan_flush_loop.simps) simp
    next
      case True
      have lt: "length (flush_rest (flush_start st' (staged_view rg2) (sb_new []))) < length (?rest st)" using W(4,5) less.prems(5) sv by simp
      have "flush_inv (flush_start st' (staged_view rg2) (sb_new []))" using W(6) sv by simp
      from less.hyps[OF lt this, of b2 d2] obtain e st2 rg3 b3 d3 where L: "plan_flush_loop io st' rg2 b2 d2 = Some (e, st2, rg3, b3, d3)" "e \<noteq> RunPanic"
        "e = RunOk \<longrightarrow> all_clean st2 \<and> flush_frame (pending_zero_clear_all (st'\<lparr>ws_pending := Idle\<rparr>)) st2" "plain rg3 = plain rg2"
        "\<forall>q. q \<noteq> c_device (ws_config st') \<longrightarrow> content d3 q = content d2 q" using W(3,7) F(1) less.prems(5) by auto
      have "plan_flush_loop io st rg b d = plan_flush_loop io st' rg2 b2 d2" using W(1) E True by (subst plan_flush_loop.simps) simp
      then show ?thesis using L F cf flush_frame_trans[OF W(8)] by auto
    qed
  qed
qed

end

text \<open>On healthy devices that hold the staged tables the flush loop succeeds, and the disks are what the steps of the
  flush say, whatever the capacity of the step buffer.\<close>

context healthy_disk
begin

lemma exec_window_ok:
  assumes "ready d" "ample ssz rg" "\<forall>s\<in>set (sb_steps b). step_fits (cap d) rg s"
  obtains rg2 d2 where "exec_window io b rg d = (True, sb_reset b, rg2, d2)" "ready d2" "cap d2 = cap d" "same_shape rg rg2"
    "fold apply_step (sb_steps b) (plain rg, content d) = (plain rg2, content d2)"
proof -
  obtain st' rg2 d2 where E: "execute_from io 0 (sb_steps b) rg d \<lparr>es_steps_executed = 0, es_fsyncs = 0\<rparr> = (Inr st', rg2, d2)"
    "ready d2" "cap d2 = cap d" "same_shape rg rg2" using execute_from_ok[OF assms] by blast
  show ?thesis by (rule that[OF _ E(2-4) execute_from_refines[OF E(1)]]) (simp add: exec_window_def execute_def E(1))
qed

lemma plan_flush_loop_ok:
  assumes "flush_inv (flush_start st (staged_view rg) (sb_new []))" "\<forall>p. ws_pending st \<noteq> PWrite p" "dirty_mapped st (staged_view rg)"
    and "sb_ok b" "sb_steps b = []" "0 < sb_capacity b" and "ready d" "ample ssz rg"
    and "\<forall>s\<in>set (flush_rest (flush_start st (staged_view rg) (sb_new []))). step_fits (cap d) rg s"
  shows "\<exists>st' rg' b' d'. plan_flush_loop io st rg b d = Some (RunOk, st', rg', b', d') \<and> all_clean st' \<and>
    flush_frame (pending_zero_clear_all (st\<lparr>ws_pending := Idle\<rparr>)) st' \<and> ready d' \<and> cap d' = cap d \<and>
    fold apply_step (flush_rest (flush_start st (staged_view rg) (sb_new []))) (plain rg, content d) = (plain rg', content d')"
  using assms
proof (induction "length (flush_rest (flush_start st (staged_view rg) (sb_new [])))" arbitrary: st rg b d rule: less_induct)
  case less
  let ?sr = "staged_view rg" let ?rest = "\<lambda>st. flush_rest (flush_start st ?sr (sb_new []))"
  have fs: "\<forall>s\<in>set (?rest st). flush_step (c_device (ws_config st)) s"
    using flush_rest_kinds[of "flush_start st ?sr (sb_new [])"] by (simp add: flush_start_def pending_zero_clear_all_def)
  have np: "\<And>p. ws_pending st \<noteq> PWrite p" using less.prems(2) by simp
  show ?case
  proof (rule plan_flush_call[OF less.prems(1,4-6) np])
    fix n st' b' assume C: "plan_flush st ?sr b = Some (Inr n, st', ?sr, b')" "sb_steps b' = ?rest st" "all_clean st'"
      "flush_frame (pending_zero_clear_all (st\<lparr>ws_pending := Idle\<rparr>)) st'"
    obtain rg2 d2 where E: "exec_window io b' rg d = (True, sb_reset b', rg2, d2)" "ready d2" "cap d2 = cap d"
      "fold apply_step (sb_steps b') (plain rg, content d) = (plain rg2, content d2)"
      using exec_window_ok[OF less.prems(7,8), of b'] less.prems(9) C(2) by metis
    show ?case using C E by (subst plan_flush_loop.simps) simp
  next
    fix st' b' assume W: "plan_flush st ?sr b = Some (Inl BufFull, st', ?sr, b')" "sb_ok b'" "sb_capacity b' = sb_capacity b"
      "length (sb_steps b') = sb_capacity b" "?rest st = sb_steps b' @ ?rest st'" "flush_inv (flush_start st' ?sr (sb_new []))"
      "\<And>p. ws_pending st' \<noteq> PWrite p" "dirty_mapped st ?sr \<Longrightarrow> dirty_mapped st' ?sr"
      "flush_frame (pending_zero_clear_all (st\<lparr>ws_pending := Idle\<rparr>)) (pending_zero_clear_all (st'\<lparr>ws_pending := Idle\<rparr>))"
    have fit: "\<forall>s\<in>set (sb_steps b'). step_fits (cap d) rg s" "\<forall>s\<in>set (?rest st'). step_fits (cap d) rg s" using less.prems(9) W(5) by auto
    obtain rg2 d2 where E: "exec_window io b' rg d = (True, sb_reset b', rg2, d2)" "ready d2" "cap d2 = cap d" "same_shape rg rg2"
      "fold apply_step (sb_steps b') (plain rg, content d) = (plain rg2, content d2)" by (rule exec_window_ok[OF less.prems(7,8) fit(1)])
    have "plain rg2 = plain rg" using E(5) execute_idle_regions[of "sb_steps b'" "plain rg" "content d"] fs W(5) by (auto simp: flush_step_def)
    note sv = staged_plain[OF this]
    have lt: "length (flush_rest (flush_start st' (staged_view rg2) (sb_new []))) < length (?rest st)" using W(4,5) less.prems(6) sv by simp
    have am: "ample ssz rg2" using less.prems(8) E(4) by (simp add: ample_def same_shape_def)
    have "\<exists>st2 rg3 b3 d3. plan_flush_loop io st' rg2 (sb_reset b') d2 = Some (RunOk, st2, rg3, b3, d3) \<and> all_clean st2 \<and>
      flush_frame (pending_zero_clear_all (st'\<lparr>ws_pending := Idle\<rparr>)) st2 \<and> ready d3 \<and> cap d3 = cap d2 \<and>
      fold apply_step (?rest st') (plain rg2, content d2) = (plain rg3, content d3)"
      unfolding sv[symmetric]
      by (rule less.hyps[OF lt]) (use W sv less.prems(3,6) E(2,3) am fit(2) step_fits_shape[OF E(4)] in simp_all)
    moreover have "plan_flush_loop io st rg b d = plan_flush_loop io st' rg2 (sb_reset b') d2"
      using W(1) E(1) by (subst plan_flush_loop.simps) simp
    ultimately show ?case using E(3,5) W(5) flush_frame_trans[OF W(9)] by auto
  qed (use less.prems(3) in simp)
qed

end

section \<open>The steps of a flush fit the staged buffers\<close>

lemma resolve_plain:
  assumes "\<And>v. region \<noteq> RL2Slot v" "unat off + unat len \<le> length (region_buf rg region)" "unat off + unat len < 2 ^ 64"
  shows "resolve rg region off len = Inr (unat off)"
  using assms by (cases region) (auto simp: resolve_def checked_add_def unat_add_small no_olen_add_nat Let_def bind_res_def)

lemma resolve_slot:
  assumes "0 < rg_cluster_size rg" "rg_cluster_size rg dvd length (rg_l2_window rg)" "unat v * rg_cluster_size rg + rg_cluster_size rg \<le> length (rg_l2_window rg)"
    "unat len = rg_cluster_size rg"
  shows "resolve rg (RL2Slot v) 0 len = Inr (unat v * rg_cluster_size rg)"
proof -
  have "unat v < length (rg_l2_window rg) div rg_cluster_size rg"
    using assms(1,3) by (simp add: less_eq_div_iff_mult_less_eq Suc_le_eq[symmetric])
  then show ?thesis using assms unat_u64_less[of len] by (simp add: resolve_def Let_def bind_res_def checked_add_def)
qed

text \<open>The carve of a planner state: the cluster size of the image and a window of whole slots.\<close>

definition carved :: "write_state \<Rightarrow> regions \<Rightarrow> bool" where
  "carved st rg \<longleftrightarrow> rg_cluster_size rg = unat (g_cluster_size (ws_geometry st)) \<and> rg_cluster_size rg dvd length (rg_l2_window rg) \<and>
     length (rg_refblocks rg) < 2 ^ 64"

definition on_disk :: "(target_device \<Rightarrow> nat) \<Rightarrow> step \<Rightarrow> bool" where
  "on_disk cap s \<longleftrightarrow> unat (s_disk_offset s) + unat (s_len s) \<le> cap (s_device s)"

lemma l2_step_fits:
  assumes ok: "staging_ok st (staged_view rg)" and c: "carved st rg" and i: "i < c_l2_slots (ws_config st)"
    and d: "on_disk cap (writeback_step (of_nat i) h (g_cluster_size (ws_geometry st)) dev)"
  shows "step_fits cap rg (writeback_step (of_nat i) h (g_cluster_size (ws_geometry st)) dev)"
proof -
  let ?cs = "g_cluster_size (ws_geometry st)"
  note B = staging_bounds[OF ok]
  have cs: "rg_cluster_size rg = unat ?cs" "0 < unat ?cs" using c B(1) by (auto simp: carved_def unat_gt_0)
  have "i < 65536" using i B(2) by linarith
  then have u: "unat (of_nat i :: u16) = i" by (simp add: unat_of_nat)
  have "Suc i * unat ?cs \<le> c_l2_slots (ws_config st) * unat ?cs" using i by (intro mult_le_mono1) simp
  then have "i * unat ?cs + unat ?cs \<le> length (rg_l2_window rg)" using ok by (simp add: staging_ok_def)
  then have "resolve rg (RL2Slot (of_nat i)) 0 ?cs = Inr (i * unat ?cs)"
    using resolve_slot[of rg "of_nat i" ?cs] c cs unfolding carved_def u by metis
  then show ?thesis using d cs by (simp add: step_fits_def writeback_step_def cluster_contract_def on_disk_def)
qed

lemma l1_bytes: "unat (ucast (n :: u32) * 8 :: u64) = unat n * 8"
proof -
  have "unat n < 2 ^ 32" using unsigned_less[of n, where 'a = nat] by simp
  then have "unat (ucast n :: u64) = unat n" by (simp add: unsigned_ucast_eq take_bit_nat_eq_self)
  then show ?thesis using \<open>unat n < 2 ^ 32\<close> by (simp add: unat_word_ariths)
qed

lemma l1_step_fits:
  assumes ok: "staging_ok st (staged_view rg)" and d: "on_disk cap (l1_writeback_step (ws_geometry st) dev)"
  shows "step_fits cap rg (l1_writeback_step (ws_geometry st) dev)"
proof -
  let ?l = "ucast (g_l1_size (ws_geometry st)) * 8 :: u64"
  have "unat ?l \<le> length (rg_l1 rg)" using ok by (simp add: staging_ok_def l1_bytes)
  then have "resolve rg RL1 0 ?l = Inr 0" using resolve_plain[of RL1 0 ?l rg] unat_u64_less[of ?l] by simp
  then show ?thesis using d by (simp add: step_fits_def l1_writeback_step_def on_disk_def)
qed

lemma rb_offset: "i * unat cs < 2 ^ 64 \<Longrightarrow> 0 < unat cs \<Longrightarrow> unat (of_nat i * (cs :: u64)) = i * unat cs"
proof -
  assume a: "i * unat cs < 2 ^ 64" "0 < unat cs"
  have "i \<le> i * unat cs" using a(2) by simp
  then have "i < 2 ^ 64" using a(1) by linarith
  then show ?thesis using a(1) by (simp add: unat_word_ariths unat_of_nat)
qed

lemma rb_step_fits:
  assumes ok: "staging_ok st (staged_view rg)" and c: "carved st rg" and i: "i < rb_count st (staged_view rg)"
    and d: "on_disk cap (refblock_writeback_step i h (g_cluster_size (ws_geometry st)) dev)"
  shows "step_fits cap rg (refblock_writeback_step i h (g_cluster_size (ws_geometry st)) dev)"
proof -
  let ?cs = "g_cluster_size (ws_geometry st)"
  have cs: "0 < unat ?cs" using staging_bounds(1)[OF ok] by (simp add: unat_gt_0)
  have "Suc i * unat ?cs \<le> rb_count st (staged_view rg) * unat ?cs" using i by (intro mult_le_mono1) simp
  also have "\<dots> \<le> length (rg_refblocks rg)" by (simp add: rb_count_def)
  finally have le: "i * unat ?cs + unat ?cs \<le> length (rg_refblocks rg)" by simp
  then have lt: "i * unat ?cs < 2 ^ 64" "i * unat ?cs + unat ?cs < 2 ^ 64" using c by (auto simp: carved_def)
  have "resolve rg RRefblocks (of_nat i * ?cs) ?cs = Inr (i * unat ?cs)"
    using resolve_plain[of RRefblocks "of_nat i * ?cs" ?cs rg] le lt(2) by (simp add: rb_offset[OF lt(1) cs])
  then show ?thesis using d by (simp add: step_fits_def refblock_writeback_step_def on_disk_def)
qed

lemma flush_skeleton_fits:
  assumes ok: "staging_ok st (staged_view rg)" and dm: "dirty_mapped st (staged_view rg)" and c: "carved st rg"
    and d: "\<forall>s\<in>set (flush_skeleton st (staged_view rg)). on_disk cap s"
  shows "\<forall>s\<in>set (flush_skeleton st (staged_view rg)). step_fits cap rg s"
proof
  let ?sr = "staged_view rg"
  fix s assume s: "s \<in> set (flush_skeleton st ?sr)"
  then have on: "on_disk cap s" using d by blast
  have rb: "i < rb_count st ?sr" if "refblock_dirty st i" for i using dm that by (auto simp: dirty_mapped_def rb_mapped_def)
  consider "s = barrier_step (c_device (ws_config st))" | "s \<in> set (l2_group st 0)" | "s \<in> set (l1_group st)" | "s \<in> set (rb_group st ?sr 0)"
    using s by (auto simp: flush_skeleton_def fence_def bar_def Let_def split: if_splits)
  then show "step_fits cap rg s"
  proof cases
    case 1
    then show ?thesis by (simp add: step_fits_def barrier_step_def)
  next
    case 2
    then show ?thesis using on l2_step_fits[OF ok c] by (auto simp: l2_group_def)
  next
    case 3
    then show ?thesis using on l1_step_fits[OF ok] by (auto simp: l1_group_def split: if_splits)
  next
    case 4
    then show ?thesis using on rb rb_step_fits[OF ok c] by (auto simp: rb_group_def)
  qed
qed

section \<open>A concrete carve\<close>

definition ex_carve :: regions where
  "ex_carve = \<lparr>rg_l1 = sr_l1 ex_sr, rg_l2_window = sr_l2_window ex_sr, rg_refcount_table = sr_refcount_table ex_sr,
     rg_refblocks = sr_refblocks ex_sr, rg_bounce = replicate 512 0, rg_caller_data = replicate 512 0,
     rg_rmw_sector = replicate 512 0, rg_fill_sector = replicate 512 0, rg_cluster_size = 512\<rparr>"

definition ex_disks :: vec_world where
  "ex_disks = (\<lambda>dev. replicate 4096 0)"

lemma ex_carve_view: "staged_view ex_carve = ex_sr"
  by (simp add: ex_carve_def staged_view_def)

lemma ex_carved: "carved ex_dirty ex_carve" "ample (ct_size (vec_table 512)) ex_carve" "vec_ready 512 ex_disks"
  "table_healthy (vec_table 512) (vec_ready 512) vec_cap"
  by (simp_all add: carved_def ex_carve_def ex_dirty_def ex_st_def ex_geo_def ex_sr_def ex_rb_length ample_def vec_access vec_ready_def ex_disks_def
      vec_table_healthy)

lemma ex_skeleton_on_disk: "\<forall>s\<in>set (flush_skeleton ex_dirty (staged_view ex_carve)). on_disk (vec_cap ex_disks) s"
  by (simp add: ex_carve_view ex_dirty_skeleton on_disk_def vec_cap_def ex_disks_def barrier_step_def writeback_step_def l1_writeback_step_def
      refblock_writeback_step_def ex_geo_def)

lemma ex_no_cow: "cow_pending ex_st" "sb_capacity ex_buf = 8"
  by (simp_all add: cow_pending_def ex_st_def ex_buf_def)

section \<open>Properties\<close>

text \<open>(C7) The write loop of the commit operation always ends: from an idle planner over consistent staging and any
  non-empty step buffer, whatever the devices do (any read or write may fail), planning and executing window after
  window reaches an exit and never a panic.  The planner invariant holds again for the staged bytes at the exit, the
  caller's data and the refcount table are untouched, the buffer is drained, success leaves no pending request, and
  the device that is not the target keeps every byte.\<close>

theorem plan_write_loop_returns:
  assumes "table_frame ct content" "plan_inv st (staged_view rg) H" "ws_pending st = Idle" "sb_ok b" "sb_steps b = []" "0 < sb_capacity b"
  shows "\<exists>e st' rg' b' w'. plan_write_loop (call_table_device (call_table_io_new ct f)) voff len data st rg b w = Some (e, st', rg', b', w') \<and>
    e \<noteq> RunPanic \<and> (\<exists>H'. plan_inv st' (staged_view rg') H') \<and> (e = RunOk \<longrightarrow> ws_pending st' = Idle) \<and>
    sb_ok b' \<and> sb_steps b' = [] \<and> same_carve rg rg' \<and> (\<forall>dev. dev \<noteq> c_device (ws_config st) \<longrightarrow> content w' dev = content w dev)"
proof -
  have "cow_pending st" using assms(3) by (simp add: cow_pending_def)
  from frame_io.plan_write_loop_frame[OF table_frame_io[OF assms(1), of f] assms(2) this assms(4-6), of voff len data w]
  show ?thesis by blast
qed

theorem plan_write_loop_returns_witness:
  "\<exists>e st' rg' b' w'. plan_write_loop (call_table_device (call_table_io_new (vec_table 512) True)) 0 512 (Fill 7) ex_st ex_carve ex_buf ex_disks =
     Some (e, st', rg', b', w') \<and> e \<noteq> RunPanic"
proof -
  have "plan_inv ex_st (staged_view ex_carve) []" "ws_pending ex_st = Idle" "0 < sb_capacity ex_buf"
    using ex_plan_inv(1) ex_no_cow by (simp_all add: ex_carve_view ex_st_def)
  then show ?thesis
    using plan_write_loop_returns[OF vec_table_frame, of ex_st ex_carve "[]" ex_buf 512 True 0 512 "Fill 7" ex_disks] ex_plan_inv(2,3) by blast
qed

text \<open>(C8) The flush loop of the commit operation completes and writes what the planner promised: over healthy devices
  that hold the image, with a step buffer of any non-zero capacity, it succeeds; afterwards nothing is dirty, the staged
  bytes are those before, and the bytes of both disks are the result of the flush skeleton (dirty L2 tables, then the L1
  table, then the dirty refblocks, from the staged buffers) applied to the disks as they were.\<close>

theorem plan_flush_loop_completes:
  assumes "table_disk ct content" "table_healthy ct ready cap" "ready w" "ample (ct_size ct) rg"
    and "plan_inv st (staged_view rg) H" "ws_pending st = Idle" "dirty_mapped st (staged_view rg)" "carved st rg"
    and "sb_ok b" "sb_steps b = []" "0 < sb_capacity b"
    and "\<forall>s\<in>set (flush_skeleton st (staged_view rg)). on_disk (cap w) s"
  shows "\<exists>st' rg' b' w'. plan_flush_loop (call_table_device (call_table_io_new ct f)) st rg b w = Some (RunOk, st', rg', b', w') \<and>
    all_clean st' \<and> plan_inv st' (staged_view rg') [] \<and> plain rg' = plain rg \<and>
    content w' = snd (fold apply_step (flush_skeleton st (staged_view rg)) (plain rg, content w))"
proof -
  let ?sr = "staged_view rg"
  note E = epoch_start[OF assms(5,6)] and Hd = table_healthy_disk[OF assms(1,2), of f]
  have ok: "staging_ok st ?sr" using assms(5) by (simp add: plan_inv_def)
  have fit: "\<forall>s\<in>set (flush_rest (flush_start st ?sr (sb_new []))). step_fits (cap w) rg s"
    using flush_skeleton_fits[OF ok assms(7,8,12)] by (simp only: E(2))
  have np: "\<forall>p. ws_pending st \<noteq> PWrite p" using assms(6) by simp
  obtain st' rg' b' w' where L: "plan_flush_loop (call_table_device (call_table_io_new ct f)) st rg b w = Some (RunOk, st', rg', b', w')"
    "all_clean st'" "flush_frame (pending_zero_clear_all (st\<lparr>ws_pending := Idle\<rparr>)) st'"
    "fold apply_step (flush_skeleton st ?sr) (plain rg, content w) = (plain rg', content w')"
    using healthy_disk.plan_flush_loop_ok[OF Hd E(1) np assms(7) assms(9-11) assms(3,4) fit] unfolding E(2) by blast
  have "\<forall>s\<in>set (flush_skeleton st ?sr). \<not> stages s"
    using flush_rest_kinds[of "flush_start st ?sr (sb_new [])"] unfolding E(2) by (simp add: flush_step_def)
  then have p: "plain rg' = plain rg" using execute_idle_regions[of "flush_skeleton st ?sr" "plain rg" "content w"] L(4) by simp
  show ?thesis using L p epoch_end(1)[OF assms(5) L(3)] staged_plain[OF p] by auto
qed

theorem plan_flush_loop_completes_witness:
  "\<exists>st' rg' b' w'. plan_flush_loop (call_table_device (call_table_io_new (vec_table 512) True)) ex_dirty ex_carve ex_buf ex_disks =
     Some (RunOk, st', rg', b', w') \<and> all_clean st'"
proof -
  have "plan_inv ex_dirty (staged_view ex_carve) []" "dirty_mapped ex_dirty (staged_view ex_carve)" "0 < sb_capacity ex_buf"
    using ex_dirty_inv(1) ex_dirty_mapped ex_no_cow(2) by (simp_all add: ex_carve_view)
  then show ?thesis
    using plan_flush_loop_completes[OF vec_table_disk ex_carved(4), OF ex_carved(3,2) _ ex_dirty_inv(2) _ ex_carved(1) ex_plan_inv(3,2) _ ex_skeleton_on_disk, of "[]" True]
    by blast
qed

end
