(* ===== verification/Snapshot_Walk.thy ===== *)
theory Snapshot_Walk
  imports Example_Image "HOL-Library.Multiset"
begin

text \<open>
  The snapshot cluster visitor and refcount passes of \<^verbatim>\<open>src/src/crates/snapshot/src/qcow2.rs\<close>, with the
  cluster-to-refblock mapping \<open>rb_lookup\<close> of
  \<^verbatim>\<open>src/src/operations/snapshot/src/main.rs\<close>.  A callback of the Rust code is a function argument; a slice that
  is mutated in place is returned.  The lemmas relate the walks to the list of cluster references they visit:
  a refcount pass adds its addend once per reference.
\<close>

section \<open>Machine-size arithmetic\<close>

definition usize_add :: "nat \<Rightarrow> nat \<Rightarrow> nat option" where
  "usize_add a b = (if a + b < 2 ^ 64 then Some (a + b) else None)"

definition usize_mul :: "nat \<Rightarrow> nat \<Rightarrow> nat option" where
  "usize_mul a b = (if a * b < 2 ^ 64 then Some (a * b) else None)"

section \<open>The cluster visitor\<close>

datatype l2_classification = Standard | Compressed


text \<open>What a walk makes of one L2 entry: \<open>None\<close> when it references no cluster.\<close>

definition l2_entry_ref :: "u32 \<Rightarrow> u64 \<Rightarrow> (l2_classification \<times> u64) option" where
  "l2_entry_ref cluster_bits l2_entry =
     (if l2_entry AND NOT OFLAG_COPIED = 0 then None
      else if l2_entry AND OFLAG_COMPRESSED \<noteq> 0 then
        (let raw_off = l2_entry AND NOT (OFLAG_COMPRESSED OR OFLAG_COPIED);
             cluster_mask = NOT (shl 1 (unat cluster_bits) - 1) in
         Some (Compressed, raw_off AND cluster_mask))
      else
        (let host_offset = l2_entry AND L2_OFFSET_MASK in
         if host_offset = 0 then None else Some (Standard, host_offset)))"

definition l2_entry_stride :: "bool \<Rightarrow> nat" where
  "l2_entry_stride extended_l2 = (if extended_l2 then 16 else 8)"




section \<open>The refcount passes\<close>

type_synonym rb_map = "u64 \<Rightarrow> (nat \<times> u64) option"

datatype snapshot_refcount_op =
    IncrementForCreate bytes
  | DecrementForDelete bytes
  | SwapForApply bytes bytes

text \<open>The check that both loops of the dry run make of one referenced cluster; \<^verbatim>\<open>1usize << cluster_bits\<close> masks its
  shift amount.\<close>

definition bytes_per_refblock :: "u32 \<Rightarrow> nat" where
  "bytes_per_refblock cluster_bits = 2 ^ (unat cluster_bits mod 64)"

definition dry_run_cluster :: "int \<Rightarrow> bytes \<Rightarrow> u32 \<Rightarrow> u32 \<Rightarrow> rb_map \<Rightarrow> u64 \<Rightarrow> snapshot_error + unit" where
  "dry_run_cluster addend refblocks cluster_bits refcount_bits rb_off_for host_offset =
     bind_res (ok_or (rb_off_for host_offset) MisalignedAccess) (\<lambda>(rb_off, local_idx).
       bind_res (ok_or (usize_add rb_off (bytes_per_refblock cluster_bits)) MisalignedAccess) (\<lambda>e.
         if length refblocks < e then Inl MisalignedAccess
         else let refblock = slice_at rb_off (bytes_per_refblock cluster_bits) refblocks in
           bind_res (read_refcount_in_block refblock local_idx refcount_bits) (\<lambda>current.
             case check_refcount_after_addend current addend refcount_bits of
               Inr _ \<Rightarrow> Inr ()
             | Inl (RefcountOverflow _) \<Rightarrow> Inl (RefcountOverflow host_offset)
             | Inl e \<Rightarrow> Inl e)))"

text \<open>What both loops of the apply pass do for one referenced cluster: the new refblock bytes, unchanged on error.\<close>

definition apply_cluster :: "int \<Rightarrow> u32 \<Rightarrow> u32 \<Rightarrow> rb_map \<Rightarrow> u64 \<Rightarrow> bytes \<Rightarrow> (snapshot_error + unit) \<times> bytes" where
  "apply_cluster addend cluster_bits refcount_bits rb_off_for host_offset refblocks =
     (case bind_res (ok_or (rb_off_for host_offset) MisalignedAccess) (\<lambda>(rb_off, local_idx).
        bind_res (ok_or (usize_add rb_off (bytes_per_refblock cluster_bits)) MisalignedAccess) (\<lambda>e.
          if length refblocks < e then Inl MisalignedAccess
          else let refblock = slice_at rb_off (bytes_per_refblock cluster_bits) refblocks in
            bind_res (read_refcount_in_block refblock local_idx refcount_bits) (\<lambda>current.
              bind_res (check_refcount_after_addend current addend refcount_bits) (\<lambda>new_val.
                bind_res (set_refcount_in_block refblock local_idx refcount_bits new_val) (\<lambda>refblock'.
                  Inr (splice_at rb_off refblock' refblocks)))))) of
        Inl e \<Rightarrow> (Inl e, refblocks)
      | Inr refblocks' \<Rightarrow> (Inr (), refblocks'))"

text \<open>The nested loops that the two passes share: per non-zero L1 entry the clusters of its L2 table in order, then the
  cluster of the L2 table itself; the first error ends the walk.\<close>

fun walk_l2 :: "(u64 \<Rightarrow> 's \<Rightarrow> (snapshot_error + unit) \<times> 's) \<Rightarrow> u32 \<Rightarrow> nat \<Rightarrow> bytes \<Rightarrow> nat list \<Rightarrow> 's \<Rightarrow>
    (snapshot_error + unit) \<times> 's" where
  "walk_l2 f cb stride l2_bytes [] s = (Inr (), s)"
| "walk_l2 f cb stride l2_bytes (l2_idx # rest) s =
     (let eoff = l2_idx * stride in
      if length l2_bytes < eoff + 8 then (Inr (), s)
      else case l2_entry_ref cb (u64_from_be (slice_at eoff 8 l2_bytes)) of
          None \<Rightarrow> walk_l2 f cb stride l2_bytes rest s
        | Some (_, host) \<Rightarrow>
            (case f host s of
               (Inl e, s') \<Rightarrow> (Inl e, s')
             | (Inr _, s') \<Rightarrow> walk_l2 f cb stride l2_bytes rest s'))"

fun walk_l1 :: "(u64 \<Rightarrow> 's \<Rightarrow> (snapshot_error + unit) \<times> 's) \<Rightarrow> u32 \<Rightarrow> nat \<Rightarrow> (u32 \<Rightarrow> bytes option) \<Rightarrow> bytes \<Rightarrow> nat list \<Rightarrow> 's \<Rightarrow>
    (snapshot_error + unit) \<times> 's" where
  "walk_l1 f cb stride l2_for_index l1_bytes [] s = (Inr (), s)"
| "walk_l1 f cb stride l2_for_index l1_bytes (l1_idx # rest) s =
     (let raw = u64_from_be (slice_at (l1_idx * 8) 8 l1_bytes) in
      if raw AND L1_OFFSET_MASK = 0 then walk_l1 f cb stride l2_for_index l1_bytes rest s
      else case l2_for_index (of_nat l1_idx) of
          None \<Rightarrow> (Inl MisalignedAccess, s)
        | Some l2_bytes \<Rightarrow>
            (case walk_l2 f cb stride l2_bytes [0..<length l2_bytes div stride] s of
               (Inl e, s') \<Rightarrow> (Inl e, s')
             | (Inr _, s') \<Rightarrow>
                 (case f (raw AND L1_OFFSET_MASK) s' of
                    (Inl e, s'') \<Rightarrow> (Inl e, s'')
                  | (Inr _, s'') \<Rightarrow> walk_l1 f cb stride l2_for_index l1_bytes rest s'')))"

definition dry_run_refcount_pass ::
    "bytes \<Rightarrow> int \<Rightarrow> bytes \<Rightarrow> u32 \<Rightarrow> u32 \<Rightarrow> bool \<Rightarrow> (u32 \<Rightarrow> bytes option) \<Rightarrow> rb_map \<Rightarrow> snapshot_error + unit" where
  "dry_run_refcount_pass l1_bytes addend refblocks cluster_bits refcount_bits extended_l2 l2_for_index rb_off_for =
     (if cluster_bits = 0 then Inl InvalidConfig
      else fst (walk_l1 (\<lambda>host s. (dry_run_cluster addend refblocks cluster_bits refcount_bits rb_off_for host, s))
             cluster_bits (l2_entry_stride extended_l2) l2_for_index l1_bytes [0..<length l1_bytes div 8] ()))"

definition apply_refcount_pass ::
    "bytes \<Rightarrow> int \<Rightarrow> bytes \<Rightarrow> u32 \<Rightarrow> u32 \<Rightarrow> bool \<Rightarrow> (u32 \<Rightarrow> bytes option) \<Rightarrow> rb_map \<Rightarrow> (snapshot_error + unit) \<times> bytes" where
  "apply_refcount_pass l1_bytes addend refblocks cluster_bits refcount_bits extended_l2 l2_for_index rb_off_for =
     (if cluster_bits = 0 then (Inl InvalidConfig, refblocks)
      else walk_l1 (apply_cluster addend cluster_bits refcount_bits rb_off_for)
             cluster_bits (l2_entry_stride extended_l2) l2_for_index l1_bytes [0..<length l1_bytes div 8] refblocks)"

definition precheck_snapshot_refcount ::
    "snapshot_refcount_op \<Rightarrow> bytes \<Rightarrow> u32 \<Rightarrow> u32 \<Rightarrow> bool \<Rightarrow> (u32 \<Rightarrow> bytes option) \<Rightarrow> rb_map \<Rightarrow> snapshot_error + unit" where
  "precheck_snapshot_refcount op refblocks cluster_bits refcount_bits extended_l2 l2_for_index rb_off_for =
     (case op of
        IncrementForCreate snapshot_l1 \<Rightarrow>
          dry_run_refcount_pass snapshot_l1 1 refblocks cluster_bits refcount_bits extended_l2 l2_for_index rb_off_for
      | DecrementForDelete snapshot_l1 \<Rightarrow>
          dry_run_refcount_pass snapshot_l1 (- 1) refblocks cluster_bits refcount_bits extended_l2 l2_for_index rb_off_for
      | SwapForApply from_l1 to_l1 \<Rightarrow>
          bind_res (dry_run_refcount_pass from_l1 (- 1) refblocks cluster_bits refcount_bits extended_l2 l2_for_index rb_off_for)
            (\<lambda>_. dry_run_refcount_pass to_l1 1 refblocks cluster_bits refcount_bits extended_l2 l2_for_index rb_off_for))"

definition update_snapshot_refcount ::
    "snapshot_refcount_op \<Rightarrow> bytes \<Rightarrow> u32 \<Rightarrow> u32 \<Rightarrow> bool \<Rightarrow> (u32 \<Rightarrow> bytes option) \<Rightarrow> rb_map \<Rightarrow> (snapshot_error + unit) \<times> bytes" where
  "update_snapshot_refcount op refblocks cluster_bits refcount_bits extended_l2 l2_for_index rb_off_for =
     (case (case op of
        IncrementForCreate snapshot_l1 \<Rightarrow>
          dry_run_refcount_pass snapshot_l1 1 refblocks cluster_bits refcount_bits extended_l2 l2_for_index rb_off_for
      | DecrementForDelete snapshot_l1 \<Rightarrow>
          dry_run_refcount_pass snapshot_l1 (- 1) refblocks cluster_bits refcount_bits extended_l2 l2_for_index rb_off_for
      | SwapForApply from_l1 to_l1 \<Rightarrow>
          bind_res (dry_run_refcount_pass from_l1 (- 1) refblocks cluster_bits refcount_bits extended_l2 l2_for_index rb_off_for)
            (\<lambda>_. dry_run_refcount_pass to_l1 1 refblocks cluster_bits refcount_bits extended_l2 l2_for_index rb_off_for)) of
        Inl e \<Rightarrow> (Inl e, refblocks)
      | Inr _ \<Rightarrow>
          (case op of
             IncrementForCreate snapshot_l1 \<Rightarrow>
               apply_refcount_pass snapshot_l1 1 refblocks cluster_bits refcount_bits extended_l2 l2_for_index rb_off_for
           | DecrementForDelete snapshot_l1 \<Rightarrow>
               apply_refcount_pass snapshot_l1 (- 1) refblocks cluster_bits refcount_bits extended_l2 l2_for_index rb_off_for
           | SwapForApply from_l1 to_l1 \<Rightarrow>
               (case apply_refcount_pass from_l1 (- 1) refblocks cluster_bits refcount_bits extended_l2 l2_for_index rb_off_for of
                  (Inl e, refblocks') \<Rightarrow> (Inl e, refblocks')
                | (Inr _, refblocks') \<Rightarrow>
                    apply_refcount_pass to_l1 1 refblocks' cluster_bits refcount_bits extended_l2 l2_for_index rb_off_for)))"

text \<open>The mapping closure of the snapshot operation.  The cluster size and the entries per refblock of a parsed header
  are not zero.\<close>

definition rb_lookup :: "u64 \<Rightarrow> u64 \<Rightarrow> nat \<Rightarrow> nat \<Rightarrow> rb_map" where
  "rb_lookup cluster_size entries_per_refblock refblock_count cluster_size_usize host_offset =
     (let cluster_index = host_offset div cluster_size;
          rb_slot = unat (cluster_index div entries_per_refblock);
          entry_local = cluster_index mod entries_per_refblock in
      if refblock_count \<le> rb_slot then None
      else Some ((rb_slot * cluster_size_usize) mod 2 ^ 64, entry_local))"

section \<open>The references a walk visits\<close>

definition l2_hosts :: "u32 \<Rightarrow> nat \<Rightarrow> bytes \<Rightarrow> nat list \<Rightarrow> u64 list" where
  "l2_hosts cb stride l2 idxs =
     List.map_filter (\<lambda>i. map_option snd (l2_entry_ref cb (u64_from_be (slice_at (i * stride) 8 l2)))) idxs"

text \<open>The host clusters a refcount pass touches, in order; \<open>None\<close> stands for an L2 table that is not staged.\<close>

definition l1_refs :: "u32 \<Rightarrow> nat \<Rightarrow> (u32 \<Rightarrow> bytes option) \<Rightarrow> bytes \<Rightarrow> nat list \<Rightarrow> u64 option list" where
  "l1_refs cb stride l2f l1 idxs = concat (map (\<lambda>i.
     let off = u64_from_be (slice_at (i * 8) 8 l1) AND L1_OFFSET_MASK in
     if off = 0 then []
     else case l2f (of_nat i) of
         None \<Rightarrow> [None]
       | Some l2 \<Rightarrow> map Some (l2_hosts cb stride l2 [0..<length l2 div stride] @ [off])) idxs)"

fun run_refs :: "(u64 \<Rightarrow> 's \<Rightarrow> (snapshot_error + unit) \<times> 's) \<Rightarrow> u64 option list \<Rightarrow> 's \<Rightarrow> (snapshot_error + unit) \<times> 's" where
  "run_refs f [] s = (Inr (), s)"
| "run_refs f (None # rs) s = (Inl MisalignedAccess, s)"
| "run_refs f (Some h # rs) s = (case f h s of (Inl e, s') \<Rightarrow> (Inl e, s') | (Inr _, s') \<Rightarrow> run_refs f rs s')"

lemma run_refs_append:
  "run_refs f (xs @ ys) s = (case run_refs f xs s of (Inl e, s') \<Rightarrow> (Inl e, s') | (Inr _, s') \<Rightarrow> run_refs f ys s')"
  by (induction f xs s rule: run_refs.induct) (auto split: prod.splits sum.splits)

lemma stride_fits: "i < length l2 div l2_entry_stride ext \<Longrightarrow> i * l2_entry_stride ext + 8 \<le> length l2"
  by (auto simp: l2_entry_stride_def less_eq_div_iff_mult_less_eq Suc_le_eq[symmetric] split: if_splits)

lemma walk_l2_run:
  assumes "\<forall>i\<in>set idxs. i * stride + 8 \<le> length l2"
  shows "walk_l2 f cb stride l2 idxs s = run_refs f (map Some (l2_hosts cb stride l2 idxs)) s"
  using assms
proof (induction idxs arbitrary: s)
  case Nil
  then show ?case by (simp add: l2_hosts_def)
next
  case (Cons i idxs)
  then show ?case
    by (cases "l2_entry_ref cb (u64_from_be (slice_at (i * stride) 8 l2))")
      (auto simp: l2_hosts_def Let_def split: prod.splits sum.splits)
qed

lemma walk_l1_run:
  "walk_l1 f cb (l2_entry_stride ext) l2f l1 idxs s = run_refs f (l1_refs cb (l2_entry_stride ext) l2f l1 idxs) s"
proof (induction idxs arbitrary: s)
  case Nil
  then show ?case by (simp add: l1_refs_def)
next
  case (Cons i idxs)
  have w: "walk_l2 f cb (l2_entry_stride ext) l2 [0..<length l2 div l2_entry_stride ext] s =
      run_refs f (map Some (l2_hosts cb (l2_entry_stride ext) l2 [0..<length l2 div l2_entry_stride ext])) s" for l2 s
    by (rule walk_l2_run) (auto intro: stride_fits)
  have step: "l1_refs cb (l2_entry_stride ext) l2f l1 (i # idxs) =
    (let off = u64_from_be (slice_at (i * 8) 8 l1) AND L1_OFFSET_MASK in
     if off = 0 then []
     else case l2f (of_nat i) of
         None \<Rightarrow> [None]
       | Some l2 \<Rightarrow> map Some (l2_hosts cb (l2_entry_stride ext) l2 [0..<length l2 div l2_entry_stride ext]) @ [Some off])
     @ l1_refs cb (l2_entry_stride ext) l2f l1 idxs"
    by (simp add: l1_refs_def Let_def split: option.splits)
  show ?case unfolding step walk_l1.simps Let_def w
    by (auto simp: run_refs_append Cons.IH split: option.splits prod.splits sum.splits)
qed

section \<open>Counting references\<close>

text \<open>The contract a refcount pass relies on: a store of bounded counters, one per key, and an operation that adds
  \<open>a\<close> to the counter of its argument, fails when there is no such counter or the result is out of bounds, and then
  changes nothing.\<close>

locale counted_store =
  fixes ok :: "'s \<Rightarrow> bool" and cnt :: "'s \<Rightarrow> nat \<Rightarrow> int" and key :: "u64 \<Rightarrow> nat" and tot :: nat and lim :: int
    and a :: int and bump :: "u64 \<Rightarrow> 's \<Rightarrow> (snapshot_error + unit) \<times> 's"
  assumes unit_addend: "a = 1 \<or> a = - 1"
    and cnt_bounds: "ok s \<Longrightarrow> c < tot \<Longrightarrow> 0 \<le> cnt s c \<and> cnt s c \<le> lim"
    and bump_Inr: "ok s \<Longrightarrow> bump h s = (Inr u, s') \<Longrightarrow>
      key h < tot \<and> ok s' \<and> (\<forall>c<tot. cnt s' c = cnt s c + (if c = key h then a else 0))"
    and bump_defined: "ok s \<Longrightarrow> key h < tot \<Longrightarrow> 0 \<le> cnt s (key h) + a \<Longrightarrow> cnt s (key h) + a \<le> lim \<Longrightarrow>
      \<exists>s'. bump h s = (Inr (), s')"
    and bump_Inl: "bump h s = (Inl e, s') \<Longrightarrow> s' = s"
begin

lemma run_refs_counts:
  assumes "ok s" "run_refs bump rs s = (Inr u, s')"
  shows "\<exists>hs. rs = map Some hs \<and> (\<forall>h\<in>set hs. key h < tot) \<and> ok s' \<and>
    (\<forall>c<tot. cnt s' c = cnt s c + a * int (count_list (map key hs) c))"
  using assms
proof (induction rs arbitrary: s)
  case Nil
  then show ?case by (intro exI[of _ "[]"]) simp
next
  case (Cons r rs)
  then obtain h s1 where r: "r = Some h" and s1: "bump h s = (Inr (), s1)" "run_refs bump rs s1 = (Inr u, s')"
    by (cases r) (auto split: prod.splits sum.splits)
  note b = bump_Inr[OF Cons.prems(1) s1(1)]
  then obtain hs where "rs = map Some hs" "\<forall>h\<in>set hs. key h < tot" "ok s'"
    "\<forall>c<tot. cnt s' c = cnt s1 c + a * int (count_list (map key hs) c)"
    using Cons.IH[OF _ s1(2)] by blast
  then show ?case using b r by (intro exI[of _ "h # hs"]) (auto simp: algebra_simps)
qed

text \<open>The pass succeeds exactly when every counter can absorb all references to it.\<close>

lemma run_refs_defined:
  assumes "ok s" "\<forall>h\<in>set hs. key h < tot"
    "\<forall>h\<in>set hs. 0 \<le> cnt s (key h) + a * int (count_list (map key hs) (key h)) \<and>
       cnt s (key h) + a * int (count_list (map key hs) (key h)) \<le> lim"
  shows "\<exists>s'. run_refs bump (map Some hs) s = (Inr (), s')"
  using assms
proof (induction hs arbitrary: s)
  case Nil
  then show ?case by simp
next
  case (Cons h hs)
  let ?n = "\<lambda>c. int (count_list (map key hs) c)"
  have b: "0 \<le> cnt s (key h)" "cnt s (key h) \<le> lim" using cnt_bounds Cons.prems by auto
  have r: "0 \<le> cnt s (key h) + a * (?n (key h) + 1)" "cnt s (key h) + a * (?n (key h) + 1) \<le> lim"
    using Cons.prems(3) by (auto simp: add.commute)
  have "0 \<le> cnt s (key h) + a" "cnt s (key h) + a \<le> lim" using unit_addend b r by (auto simp: algebra_simps)
  then obtain s1 where s1: "bump h s = (Inr (), s1)" using bump_defined[OF Cons.prems(1)] Cons.prems(2) by auto
  note k = bump_Inr[OF Cons.prems(1) s1]
  have "\<exists>s'. run_refs bump (map Some hs) s1 = (Inr (), s')"
  proof (rule Cons.IH)
    show "ok s1" "\<forall>h\<in>set hs. key h < tot" using k Cons.prems(2) by auto
    show "\<forall>g\<in>set hs. 0 \<le> cnt s1 (key g) + a * ?n (key g) \<and> cnt s1 (key g) + a * ?n (key g) \<le> lim"
      using k Cons.prems(2,3) by (auto simp: algebra_simps)
  qed
  then show ?case using s1 by simp
qed

lemma run_refs_iff:
  assumes "ok s"
  shows "(\<exists>s'. run_refs bump rs s = (Inr (), s')) \<longleftrightarrow>
    (\<exists>hs. rs = map Some hs \<and> (\<forall>h\<in>set hs. key h < tot \<and>
       0 \<le> cnt s (key h) + a * int (count_list (map key hs) (key h)) \<and>
       cnt s (key h) + a * int (count_list (map key hs) (key h)) \<le> lim))"
proof
  assume "\<exists>s'. run_refs bump rs s = (Inr (), s')"
  then obtain s' where "run_refs bump rs s = (Inr (), s')" by blast
  from run_refs_counts[OF assms this] obtain hs where h: "rs = map Some hs" "\<forall>h\<in>set hs. key h < tot" "ok s'"
    "\<forall>c<tot. cnt s' c = cnt s c + a * int (count_list (map key hs) c)" by blast
  then show "\<exists>hs. rs = map Some hs \<and> (\<forall>h\<in>set hs. key h < tot \<and>
       0 \<le> cnt s (key h) + a * int (count_list (map key hs) (key h)) \<and>
       cnt s (key h) + a * int (count_list (map key hs) (key h)) \<le> lim)"
    using cnt_bounds[OF h(3)] by (intro exI[of _ hs]) auto
next
  assume "\<exists>hs. rs = map Some hs \<and> (\<forall>h\<in>set hs. key h < tot \<and>
       0 \<le> cnt s (key h) + a * int (count_list (map key hs) (key h)) \<and>
       cnt s (key h) + a * int (count_list (map key hs) (key h)) \<le> lim)"
  then show "\<exists>s'. run_refs bump rs s = (Inr (), s')" using run_refs_defined[OF assms] by blast
qed

text \<open>Without repeated references a failing pass stops before its first change, or after changes that all fit.\<close>

end

section \<open>The passes on staged refblocks\<close>

definition snap_staging :: "u32 \<Rightarrow> u64 \<Rightarrow> nat \<Rightarrow> bytes \<Rightarrow> bool" where
  "snap_staging cb cs n rb \<longleftrightarrow> unat cs = 2 ^ unat cb \<and> staged_blocks cs n rb"

abbreviation snap_rb :: "u64 \<Rightarrow> nat \<Rightarrow> rb_map" where
  "snap_rb cs n \<equiv> rb_lookup cs (cs * 8 div 16) n (unat cs)"

abbreviation ckey :: "u64 \<Rightarrow> u64 \<Rightarrow> nat" where
  "ckey cs h \<equiv> unat h div unat cs"

lemma snap_block:
  assumes ok: "snap_staging cb cs n rb"
  defines "e \<equiv> unat cs div 2"
  shows "bytes_per_refblock cb = unat cs"
    "snap_rb cs n h = (if ckey cs h < n * e then Some (ckey cs h div e * unat cs, h div cs mod (cs * 8 div 16)) else None)"
    "ckey cs h < n * e \<Longrightarrow> ckey cs h div e * unat cs + unat cs \<le> length rb \<and> length rb < 2 ^ 63"
    "ckey cs h < n * e \<Longrightarrow> read_refcount_in_block (slice_at (ckey cs h div e * unat cs) (unat cs) rb) (h div cs mod (cs * 8 div 16)) 16 =
       Inr (of_nat (rc_flat rb (ckey cs h)))"
    "ckey cs h < n * e \<Longrightarrow> set_refcount_in_block (slice_at (ckey cs h div e * unat cs) (unat cs) rb) (h div cs mod (cs * 8 div 16)) 16 v =
       Inr b' \<Longrightarrow> splice_at (ckey cs h div e * unat cs) b' rb = splice_at (2 * ckey cs h) (be_enc 2 (unat v)) rb"
    "ckey cs h < n * e \<Longrightarrow> \<exists>b'. set_refcount_in_block (slice_at (ckey cs h div e * unat cs) (unat cs) rb) (h div cs mod (cs * 8 div 16)) 16 v =
       Inr b'"
proof -
  have st: "staged_blocks cs n rb" and cs: "unat cs = 2 ^ unat cb" using ok by (auto simp: snap_staging_def)
  have "2 ^ unat cb < (2::nat) ^ 32" using st cs by (simp add: staged_blocks_def)
  then have "unat cb < 32" by (rule power_less_imp_less_exp[rotated]) simp
  then show bp: "bytes_per_refblock cb = unat cs" by (simp add: bytes_per_refblock_def cs)
  note ep = epr_unat[OF st, folded e_def]
  have idx: "unat (h div cs) = ckey cs h" "unat (h div cs div (cs * 8 div 16)) = ckey cs h div e"
    "unat (h div cs mod (cs * 8 div 16)) = ckey cs h mod e" by (simp_all only: unat_div[of h cs] unat_div[of "h div cs" "cs * 8 div 16"] unat_mod[of "h div cs" "cs * 8 div 16"] ep(1))
  have lt: "n \<le> ckey cs h div e \<longleftrightarrow> \<not> ckey cs h < n * e" using div_less_iff_less_mult[OF ep(2), of "ckey cs h" n] by linarith
  note bb = block_bounds[OF st, of e "ckey cs h", OF meta_eq_to_obj_eq[OF e_def]]
  show "ckey cs h < n * e \<Longrightarrow> ckey cs h div e * unat cs + unat cs \<le> length rb \<and> length rb < 2 ^ 63" using bb by simp
  then show "snap_rb cs n h = (if ckey cs h < n * e then Some (ckey cs h div e * unat cs, h div cs mod (cs * 8 div 16)) else None)"
    using lt by (auto simp: rb_lookup_def Let_def idx)
  assume lt: "ckey cs h < n * e"
  note b = bb[OF lt]
  have fo: "ckey cs h div e * unat cs + ckey cs h mod e * 2 = 2 * ckey cs h" by (rule flat_offset[OF b(5) ep(2)])
  have l: "length (slice_at (ckey cs h div e * unat cs) (unat cs) rb) = unat cs" using b(2) by simp
  show "read_refcount_in_block (slice_at (ckey cs h div e * unat cs) (unat cs) rb) (h div cs mod (cs * 8 div 16)) 16 =
       Inr (of_nat (rc_flat rb (ckey cs h)))"
    using read_wide [of 16 2] b(4) l b(2) by (simp add: idx slice_slice rc_flat_def fo)
  have s: "set_refcount_in_block (slice_at (ckey cs h div e * unat cs) (unat cs) rb) (h div cs mod (cs * 8 div 16)) 16 v =
      Inr (splice_at (ckey cs h mod e * 2) (be_enc 2 (unat v)) (slice_at (ckey cs h div e * unat cs) (unat cs) rb))"
    using set_wide [of 16 2] b(4) l b(2) by (simp add: idx)
  then show "\<exists>b'. set_refcount_in_block (slice_at (ckey cs h div e * unat cs) (unat cs) rb) (h div cs mod (cs * 8 div 16)) 16 v =
       Inr b'" by blast
  assume "set_refcount_in_block (slice_at (ckey cs h div e * unat cs) (unat cs) rb) (h div cs mod (cs * 8 div 16)) 16 v = Inr b'"
  then show "splice_at (ckey cs h div e * unat cs) b' rb = splice_at (2 * ckey cs h) (be_enc 2 (unat v)) rb"
    using s b(2,4) by (auto simp: splice_slice fo)
qed


lemma apply_cluster_flat:
  assumes ok: "snap_staging cb cs n rb"
  shows "apply_cluster a cb 16 (snap_rb cs n) h rb =
    (if ckey cs h < n * (unat cs div 2) then
       (case check_refcount_after_addend (of_nat (rc_flat rb (ckey cs h))) a 16 of
          Inl e \<Rightarrow> (Inl e, rb)
        | Inr v \<Rightarrow> (Inr (), splice_at (2 * ckey cs h) (be_enc 2 (unat v)) rb))
     else (Inl MisalignedAccess, rb))"
proof (cases "ckey cs h < n * (unat cs div 2)")
  case False
  then show ?thesis by (simp add: apply_cluster_def snap_block(2)[OF ok] ok_or_def)
next
  case True
  note b = snap_block(1)[OF ok] snap_block(2-4)[OF ok, of h]
  have u: "usize_add (ckey cs h div (unat cs div 2) * unat cs) (unat cs) = Some (ckey cs h div (unat cs div 2) * unat cs + unat cs)"
    using b(3)[OF True] by (simp add: usize_add_def)
  show ?thesis
  proof (cases "check_refcount_after_addend (of_nat (rc_flat rb (ckey cs h))) a 16")
    case (Inl e)
    then show ?thesis using True b(3)[OF True] by (simp add: apply_cluster_def b(4)[OF True] b(1,2) u ok_or_def Let_def)
  next
    case (Inr v)
    obtain b' where b': "set_refcount_in_block (slice_at (ckey cs h div (unat cs div 2) * unat cs) (unat cs) rb)
        (h div cs mod (cs * 8 div 16)) 16 v = Inr b'" using snap_block(6)[OF ok True] by blast
    then show ?thesis using True b(3)[OF True] Inr snap_block(5)[OF ok True b']
      by (simp add: apply_cluster_def b(4)[OF True] b(1,2) u ok_or_def Let_def)
  qed
qed

lemma dry_run_cluster_flat:
  assumes ok: "snap_staging cb cs n rb"
  shows "dry_run_cluster a rb cb 16 (snap_rb cs n) h =
    (if ckey cs h < n * (unat cs div 2) then
       (case check_refcount_after_addend (of_nat (rc_flat rb (ckey cs h))) a 16 of
          Inr v \<Rightarrow> Inr ()
        | Inl (RefcountOverflow _) \<Rightarrow> Inl (RefcountOverflow h)
        | Inl e \<Rightarrow> Inl e)
     else Inl MisalignedAccess)"
proof (cases "ckey cs h < n * (unat cs div 2)")
  case False
  then show ?thesis by (simp add: dry_run_cluster_def snap_block(2)[OF ok] ok_or_def)
next
  case True
  note b = snap_block(1)[OF ok] snap_block(2-4)[OF ok, of h]
  have u: "usize_add (ckey cs h div (unat cs div 2) * unat cs) (unat cs) = Some (ckey cs h div (unat cs div 2) * unat cs + unat cs)"
    using b(3)[OF True] by (simp add: usize_add_def)
  show ?thesis
    using True b(3)[OF True]
    by (auto simp: dry_run_cluster_def b(4)[OF True] b(1,2) u ok_or_def Let_def)
qed

lemma addend_16:
  assumes "a = 1 \<or> a = - 1"
  shows "(\<exists>v. check_refcount_after_addend (of_nat (rc_flat rb j)) a 16 = Inr v) \<longleftrightarrow>
      0 \<le> int (rc_flat rb j) + a \<and> int (rc_flat rb j) + a \<le> 65535"
    "check_refcount_after_addend (of_nat (rc_flat rb j)) a 16 = Inr v \<Longrightarrow> int (unat v) = int (rc_flat rb j) + a"
proof -
  let ?c = "of_nat (rc_flat rb j) :: u64"
  have u: "unat ?c < 2 ^ 16" "unat ?c = rc_flat rb j" using rc_flat_less[of rb j] by simp_all
  have inc: "check_refcount_after_addend ?c 1 16 = (if rc_flat rb j + 1 < 2 ^ 16 then Inr (?c + 1) else Inl (RefcountOverflow 0))"
    using check_addend_inc[of 16 ?c] u by (simp add: valid_width_def)
  have dec: "check_refcount_after_addend ?c (- 1) 16 = (if rc_flat rb j = 0 then Inl ParseFailed else Inr (?c - 1))"
  proof -
    have "?c = 0 \<longleftrightarrow> rc_flat rb j = 0" using unat_eq_0[of ?c] unfolding u(2) by (rule sym)
    moreover have "(16 :: u32) \<noteq> 0" by simp
    note check_addend_dec[OF this, of ?c]
    ultimately show ?thesis by (simp only:)
  qed
  have v: "unat (?c + 1) = rc_flat rb j + 1" using unat_add_small[of ?c 1] u by simp
  have w: "rc_flat rb j \<noteq> 0 \<Longrightarrow> unat (?c - 1) = rc_flat rb j - 1" using u(2) by (metis unat_0 unat_minus_one)
  show "(\<exists>v. check_refcount_after_addend ?c a 16 = Inr v) \<longleftrightarrow> 0 \<le> int (rc_flat rb j) + a \<and> int (rc_flat rb j) + a \<le> 65535"
    using assms rc_flat_less[of rb j] by (auto simp: inc dec simp del: of_nat_unat split: if_splits)
  assume "check_refcount_after_addend ?c a 16 = Inr v"
  then show "int (unat v) = int (rc_flat rb j) + a"
    using assms by (auto simp: inc dec v w simp del: of_nat_unat split: if_splits)
qed

lemma apply_counted_store:
  assumes a: "a = 1 \<or> a = - 1"
  shows "counted_store (snap_staging cb cs n) (\<lambda>rb c. int (rc_flat rb c)) (ckey cs) (n * (unat cs div 2)) 65535 a
    (apply_cluster a cb 16 (snap_rb cs n))"
proof
  show "a = 1 \<or> a = - 1" by (rule a)
  show "0 \<le> int (rc_flat s c) \<and> int (rc_flat s c) \<le> 65535" for s c using rc_flat_less[of s c] by simp
  show "s' = s" if "apply_cluster a cb 16 (snap_rb cs n) h s = (Inl e, s')" for h s e s'
    using that by (auto simp: apply_cluster_def split: sum.splits)
  fix s h assume ok: "snap_staging cb cs n s"
  note fl = apply_cluster_flat[OF ok, of a h]
  { assume "ckey cs h < n * (unat cs div 2)" "0 \<le> int (rc_flat s (ckey cs h)) + a" "int (rc_flat s (ckey cs h)) + a \<le> 65535"
    then show "\<exists>s'. apply_cluster a cb 16 (snap_rb cs n) h s = (Inr (), s')"
      using fl addend_16(1)[OF a, of s "ckey cs h"] by (auto split: sum.splits) }
  fix u s' assume r: "apply_cluster a cb 16 (snap_rb cs n) h s = (Inr u, s')"
  then obtain v where v: "check_refcount_after_addend (of_nat (rc_flat s (ckey cs h))) a 16 = Inr v"
    and lt: "ckey cs h < n * (unat cs div 2)" and s': "s' = splice_at (2 * ckey cs h) (be_enc 2 (unat v)) s"
    unfolding fl by (auto split: if_splits sum.splits)
  have st: "staged_blocks cs n s" using ok by (simp add: snap_staging_def)
  have cap: "2 * (n * (unat cs div 2)) = length s" using st by (auto simp: staged_blocks_def)
  then have len: "length s' = length s" using lt s' by simp
  note av = addend_16(2)[OF a v]
  have "int (rc_flat s (ckey cs h)) + a \<le> 65535" using addend_16(1)[OF a] v by blast
  then have "int (unat v) < int (2 ^ 16)" unfolding av by simp
  then have v16: "unat v < 2 ^ 16" by (simp only: of_nat_less_iff)
  have fr: "rc_flat s' c = (if c = ckey cs h then unat v else rc_flat s c)" if "c < n * (unat cs div 2)" for c
    unfolding s' using that lt cap v16 by (intro rc_flat_splice) auto
  show "ckey cs h < n * (unat cs div 2) \<and> snap_staging cb cs n s' \<and>
      (\<forall>c<n * (unat cs div 2). int (rc_flat s' c) = int (rc_flat s c) + (if c = ckey cs h then a else 0))"
    using lt ok fr av staged_blocks_cong[OF len] by (simp add: snap_staging_def)
qed

interpretation snap_inc: counted_store "snap_staging cb cs n" "\<lambda>rb c. int (rc_flat rb c)" "ckey cs" "n * (unat cs div 2)" 65535 1
  "apply_cluster 1 cb 16 (snap_rb cs n)" for cb cs n
  by (rule apply_counted_store) simp

interpretation snap_dec: counted_store "snap_staging cb cs n" "\<lambda>rb c. int (rc_flat rb c)" "ckey cs" "n * (unat cs div 2)" 65535 "- 1"
  "apply_cluster (- 1) cb 16 (snap_rb cs n)" for cb cs n
  by (rule apply_counted_store) simp

section \<open>The passes as runs over the references\<close>

abbreviation snap_refs :: "u32 \<Rightarrow> bool \<Rightarrow> (u32 \<Rightarrow> bytes option) \<Rightarrow> bytes \<Rightarrow> u64 option list" where
  "snap_refs cb ext l2f l1 \<equiv> l1_refs cb (l2_entry_stride ext) l2f l1 [0..<length l1 div 8]"

text \<open>Every reference is staged and covered, and every counter can absorb all references to it.\<close>

definition fits :: "int \<Rightarrow> u64 \<Rightarrow> nat \<Rightarrow> bytes \<Rightarrow> u64 option list \<Rightarrow> bool" where
  "fits a cs n rb rs \<longleftrightarrow> (\<exists>hs. rs = map Some hs \<and> (\<forall>h\<in>set hs. ckey cs h < n * (unat cs div 2) \<and>
     0 \<le> int (rc_flat rb (ckey cs h)) + a * int (count_list (map (ckey cs) hs) (ckey cs h)) \<and>
     int (rc_flat rb (ckey cs h)) + a * int (count_list (map (ckey cs) hs) (ckey cs h)) \<le> 65535))"

lemma snap_cb: "snap_staging cb cs n rb \<Longrightarrow> cb \<noteq> 0"
  by (auto simp: snap_staging_def staged_blocks_def)

lemma apply_pass_run:
  assumes "snap_staging cb cs n rb"
  shows "apply_refcount_pass l1 a rb cb 16 ext l2f rbm = run_refs (apply_cluster a cb 16 rbm) (snap_refs cb ext l2f l1) rb"
  using snap_cb[OF assms] by (simp add: apply_refcount_pass_def walk_l1_run)

lemma dry_run_refs:
  assumes ok: "snap_staging cb cs n rb" and a: "a = 1 \<or> a = - 1"
  shows "fst (run_refs (\<lambda>h s. (dry_run_cluster a rb cb 16 (snap_rb cs n) h, s)) rs ()) = Inr () \<longleftrightarrow>
    (\<exists>hs. rs = map Some hs \<and> (\<forall>h\<in>set hs. ckey cs h < n * (unat cs div 2) \<and>
       0 \<le> int (rc_flat rb (ckey cs h)) + a \<and> int (rc_flat rb (ckey cs h)) + a \<le> 65535))"
proof (induction rs)
  case Nil
  then show ?case by simp
next
  case (Cons r rs)
  show ?case
  proof (cases r)
    case None
    then show ?thesis by (auto simp: Cons_eq_map_conv)
  next
    case (Some h)
    have "dry_run_cluster a rb cb 16 (snap_rb cs n) h = Inr () \<longleftrightarrow> ckey cs h < n * (unat cs div 2) \<and>
        0 \<le> int (rc_flat rb (ckey cs h)) + a \<and> int (rc_flat rb (ckey cs h)) + a \<le> 65535"
      unfolding dry_run_cluster_flat[OF ok] addend_16(1)[OF a, symmetric]
      by (auto split: sum.splits snapshot_error.splits)
    moreover have "fst (run_refs (\<lambda>h s. (dry_run_cluster a rb cb 16 (snap_rb cs n) h, s)) (r # rs) ()) = Inr () \<longleftrightarrow>
        dry_run_cluster a rb cb 16 (snap_rb cs n) h = Inr () \<and>
        fst (run_refs (\<lambda>h s. (dry_run_cluster a rb cb 16 (snap_rb cs n) h, s)) rs ()) = Inr ()"
      by (auto simp: Some split: sum.splits)
    ultimately show ?thesis unfolding Cons.IH Some by (auto simp: Cons_eq_map_conv)
  qed
qed

lemma dry_run_ok_iff:
  assumes ok: "snap_staging cb cs n rb" and a: "a = 1 \<or> a = - 1"
  shows "dry_run_refcount_pass l1 a rb cb 16 ext l2f (snap_rb cs n) = Inr () \<longleftrightarrow>
    (\<exists>hs. snap_refs cb ext l2f l1 = map Some hs \<and> (\<forall>h\<in>set hs. ckey cs h < n * (unat cs div 2) \<and>
       0 \<le> int (rc_flat rb (ckey cs h)) + a \<and> int (rc_flat rb (ckey cs h)) + a \<le> 65535))"
  using dry_run_refs[OF assms] snap_cb[OF ok] by (simp add: dry_run_refcount_pass_def walk_l1_run)

lemma fits_dry_run:
  assumes ok: "snap_staging cb cs n rb" and a: "a = 1 \<or> a = - 1" and f: "fits a cs n rb (snap_refs cb ext l2f l1)"
  shows "dry_run_refcount_pass l1 a rb cb 16 ext l2f (snap_rb cs n) = Inr ()"
proof -
  obtain hs where hs: "snap_refs cb ext l2f l1 = map Some hs" and h: "\<And>h. h \<in> set hs \<Longrightarrow> ckey cs h < n * (unat cs div 2) \<and>
     0 \<le> int (rc_flat rb (ckey cs h)) + a * int (count_list (map (ckey cs) hs) (ckey cs h)) \<and>
     int (rc_flat rb (ckey cs h)) + a * int (count_list (map (ckey cs) hs) (ckey cs h)) \<le> 65535"
    using f unfolding fits_def by blast
  have "0 \<le> int (rc_flat rb (ckey cs h)) + a \<and> int (rc_flat rb (ckey cs h)) + a \<le> 65535" if "h \<in> set hs" for h
  proof -
    have "count_list (map (ckey cs) hs) (ckey cs h) \<noteq> 0" using that by (auto simp: count_list_0_iff)
    moreover have "rc_flat rb (ckey cs h) < 65536" using rc_flat_less[of rb "ckey cs h"] by simp
    ultimately show ?thesis using h[OF that] a by auto
  qed
  then show ?thesis using dry_run_ok_iff[OF ok a] hs h by blast
qed

lemma apply_pass_ok_iff:
  assumes ok: "snap_staging cb cs n rb" and a: "a = 1 \<or> a = - 1"
  shows "(\<exists>rb'. apply_refcount_pass l1 a rb cb 16 ext l2f (snap_rb cs n) = (Inr (), rb')) \<longleftrightarrow> fits a cs n rb (snap_refs cb ext l2f l1)"
  unfolding apply_pass_run[OF ok] fits_def using counted_store.run_refs_iff[OF apply_counted_store[OF a] ok] by blast

lemma apply_pass_counts:
  assumes ok: "snap_staging cb cs n rb" and a: "a = 1 \<or> a = - 1"
    and r: "apply_refcount_pass l1 a rb cb 16 ext l2f (snap_rb cs n) = (Inr (), rb')"
  shows "\<exists>hs. snap_refs cb ext l2f l1 = map Some hs \<and> snap_staging cb cs n rb' \<and> (\<forall>c<n * (unat cs div 2).
      int (rc_flat rb' c) = int (rc_flat rb c) + a * int (count_list (map (ckey cs) hs) c))"
  using counted_store.run_refs_counts[OF apply_counted_store[OF a] ok r[unfolded apply_pass_run[OF ok]]] by blast

text \<open>One-sided operations: the dry run and the apply pass compose into an exact success condition.\<close>

definition one_sided :: "int \<Rightarrow> bytes \<Rightarrow> snapshot_refcount_op" where
  "one_sided a l1 = (if a = 1 then IncrementForCreate l1 else DecrementForDelete l1)"

lemma one_sided_simps [simp]: "one_sided 1 l1 = IncrementForCreate l1" "one_sided (- 1) l1 = DecrementForDelete l1"
  by (simp_all add: one_sided_def)

lemma update_one_sided:
  assumes ok: "snap_staging cb cs n rb" and a: "a = 1 \<or> a = - 1"
  shows "update_snapshot_refcount (one_sided a l1) rb cb 16 ext l2f (snap_rb cs n) =
    (case dry_run_refcount_pass l1 a rb cb 16 ext l2f (snap_rb cs n) of
       Inl e \<Rightarrow> (Inl e, rb) | Inr _ \<Rightarrow> apply_refcount_pass l1 a rb cb 16 ext l2f (snap_rb cs n))"
  using a by (auto simp: update_snapshot_refcount_def one_sided_def split: sum.split)

lemma update_one_sided_iff:
  assumes ok: "snap_staging cb cs n rb" and a: "a = 1 \<or> a = - 1"
  shows "(\<exists>rb'. update_snapshot_refcount (one_sided a l1) rb cb 16 ext l2f (snap_rb cs n) = (Inr (), rb')) \<longleftrightarrow>
    fits a cs n rb (snap_refs cb ext l2f l1)"
  using apply_pass_ok_iff[OF assms, of l1 ext l2f] fits_dry_run[OF assms, of ext l2f l1] unfolding update_one_sided[OF assms]
  by (cases "dry_run_refcount_pass l1 a rb cb 16 ext l2f (snap_rb cs n)") auto

lemma update_one_sided_counts:
  assumes ok: "snap_staging cb cs n rb" and a: "a = 1 \<or> a = - 1"
    and r: "update_snapshot_refcount (one_sided a l1) rb cb 16 ext l2f (snap_rb cs n) = (Inr (), rb')"
  shows "\<exists>hs. snap_refs cb ext l2f l1 = map Some hs \<and> snap_staging cb cs n rb' \<and> (\<forall>c<n * (unat cs div 2).
      int (rc_flat rb' c) = int (rc_flat rb c) + a * int (count_list (map (ckey cs) hs) c))"
  using apply_pass_counts[OF ok a] r unfolding update_one_sided[OF ok a] by (auto split: sum.splits)

lemma distinct_count: "distinct xs \<Longrightarrow> x \<in> set xs \<Longrightarrow> count_list xs x = 1"
  by (induction xs) (auto simp: count_list_0_iff)

lemma update_one_sided_atomic:
  assumes ok: "snap_staging cb cs n rb" and a: "a = 1 \<or> a = - 1"
    and d: "snap_refs cb ext l2f l1 = map Some hs" "distinct (map (ckey cs) hs)"
    and r: "update_snapshot_refcount (one_sided a l1) rb cb 16 ext l2f (snap_rb cs n) = (Inl e, rb')"
  shows "rb' = rb"
proof (cases "dry_run_refcount_pass l1 a rb cb 16 ext l2f (snap_rb cs n)")
  case (Inl e')
  then show ?thesis using r unfolding update_one_sided[OF ok a] by simp
next
  case (Inr u)
  then have "dry_run_refcount_pass l1 a rb cb 16 ext l2f (snap_rb cs n) = Inr ()" by simp
  then have "\<forall>h\<in>set hs. ckey cs h < n * (unat cs div 2) \<and>
       0 \<le> int (rc_flat rb (ckey cs h)) + a \<and> int (rc_flat rb (ckey cs h)) + a \<le> 65535"
    unfolding dry_run_ok_iff[OF ok a] d(1) by auto
  moreover have "count_list (map (ckey cs) hs) (ckey cs h) = 1" if "h \<in> set hs" for h
    using that by (intro distinct_count[OF d(2)]) auto
  ultimately have "fits a cs n rb (snap_refs cb ext l2f l1)" unfolding d(1) fits_def by (intro exI[of _ hs]) auto
  then obtain rb2 where "update_snapshot_refcount (one_sided a l1) rb cb 16 ext l2f (snap_rb cs n) = (Inr (), rb2)"
    using update_one_sided_iff[OF ok a] by blast
  then show ?thesis using r by simp
qed

lemma rc_flat_inj:
  assumes "length b = 2 * k" "length b' = 2 * k" "\<forall>j<k. rc_flat b j = rc_flat b' j"
  shows "b = b'"
proof (rule nth_equalityI)
  show "length b = length b'" using assms by simp
  fix i assume i: "i < length b"
  define j where "j = i div 2"
  have "j < k" using i assms(1) by (simp add: j_def less_mult_imp_div_less mult.commute)
  then have j: "j < k" "2 * j + 2 \<le> length b" "2 * j + 2 \<le> length b'" using assms by auto
  have "be_enc 2 (rc_flat b j) = slice_at (2 * j) 2 b" unfolding rc_flat_def by (rule be_enc_val) (use j in simp)
  moreover have "be_enc 2 (rc_flat b' j) = slice_at (2 * j) 2 b'" unfolding rc_flat_def by (rule be_enc_val) (use j in simp)
  ultimately have "slice_at (2 * j) 2 b = slice_at (2 * j) 2 b'" using assms(3) j(1) by metis
  then have "slice_at (2 * j) 2 b ! (i - 2 * j) = slice_at (2 * j) 2 b' ! (i - 2 * j)" by simp
  moreover have ij: "i - 2 * j < 2" "2 * j + (i - 2 * j) = i" unfolding j_def by presburger+
  ultimately show "b ! i = b' ! i" using nth_slice[OF ij(1) j(2)] nth_slice[OF ij(1) j(3)] unfolding ij(2) by simp
qed

lemma update_create_delete:
  assumes ok: "snap_staging cb cs n rb"
    and r: "update_snapshot_refcount (IncrementForCreate l1) rb cb 16 ext l2f (snap_rb cs n) = (Inr (), rb')"
  shows "update_snapshot_refcount (DecrementForDelete l1) rb' cb 16 ext l2f (snap_rb cs n) = (Inr (), rb)"
proof -
  let ?k = "n * (unat cs div 2)"
  obtain hs where hs: "snap_refs cb ext l2f l1 = map Some hs" "snap_staging cb cs n rb'"
    and c: "\<forall>c<?k. int (rc_flat rb' c) = int (rc_flat rb c) + int (count_list (map (ckey cs) hs) c)"
    using update_one_sided_counts[OF ok, of 1 l1 ext l2f rb'] r by auto
  have "fits 1 cs n rb (map Some hs)" using update_one_sided_iff[OF ok, of 1 l1 ext l2f] r hs(1) by auto
  then have "\<forall>h\<in>set hs. ckey cs h < ?k" unfolding fits_def by (auto simp: inj_map_eq_map)
  moreover have le: "rc_flat rb j \<le> 65535" for j using rc_flat_less[of rb j] by simp
  ultimately have "fits (- 1) cs n rb' (snap_refs cb ext l2f l1)"
    unfolding hs(1) fits_def using c le by (intro exI[of _ hs]) auto
  then obtain rb2 where rb2: "update_snapshot_refcount (DecrementForDelete l1) rb' cb 16 ext l2f (snap_rb cs n) = (Inr (), rb2)"
    using update_one_sided_iff[OF hs(2), of "- 1" l1 ext l2f] by auto
  then obtain hs2 where "snap_refs cb ext l2f l1 = map Some hs2" "snap_staging cb cs n rb2"
    "\<forall>c<?k. int (rc_flat rb2 c) = int (rc_flat rb' c) - int (count_list (map (ckey cs) hs2) c)"
    using update_one_sided_counts[OF hs(2), of "- 1" l1 ext l2f rb2] by auto
  moreover from this(1) have "hs2 = hs" using hs(1) by (simp add: inj_map_eq_map)
  ultimately have s2: "snap_staging cb cs n rb2" and "\<forall>c<?k. rc_flat rb2 c = rc_flat rb c" using c by auto
  moreover have "length rb = 2 * ?k" "length rb2 = 2 * ?k"
    using ok s2 by (auto simp: snap_staging_def staged_blocks_def)
  ultimately have "rb2 = rb" by (intro rc_flat_inj) auto
  then show ?thesis using rb2 by simp
qed

lemma update_swap_counts:
  assumes ok: "snap_staging cb cs n rb"
    and r: "update_snapshot_refcount (SwapForApply l1 l1') rb cb 16 ext l2f (snap_rb cs n) = (Inr (), rb')"
  shows "\<exists>hs hs'. snap_refs cb ext l2f l1 = map Some hs \<and> snap_refs cb ext l2f l1' = map Some hs' \<and> snap_staging cb cs n rb' \<and>
    (\<forall>c<n * (unat cs div 2). int (rc_flat rb' c) =
       int (rc_flat rb c) - int (count_list (map (ckey cs) hs) c) + int (count_list (map (ckey cs) hs') c))"
proof -
  obtain rb1 where r1: "apply_refcount_pass l1 (- 1) rb cb 16 ext l2f (snap_rb cs n) = (Inr (), rb1)"
    and r2: "apply_refcount_pass l1' 1 rb1 cb 16 ext l2f (snap_rb cs n) = (Inr (), rb')"
    using r by (auto simp: update_snapshot_refcount_def split: sum.splits prod.splits)
  obtain hs where a: "snap_refs cb ext l2f l1 = map Some hs" "snap_staging cb cs n rb1"
    "\<forall>c<n * (unat cs div 2). int (rc_flat rb1 c) = int (rc_flat rb c) + - 1 * int (count_list (map (ckey cs) hs) c)"
    using apply_pass_counts[OF ok _ r1] by auto
  obtain hs' where "snap_refs cb ext l2f l1' = map Some hs'" "snap_staging cb cs n rb'"
    "\<forall>c<n * (unat cs div 2). int (rc_flat rb' c) = int (rc_flat rb1 c) + 1 * int (count_list (map (ckey cs) hs') c)"
    using apply_pass_counts[OF a(2) _ r2] by auto
  with a show ?thesis by auto
qed

section \<open>The visitor visits the same clusters\<close>










section \<open>Properties\<close>

text \<open>A staged L1 table with one entry (L2 table at cluster 3) and its L2 table with one entry (data at cluster 4).\<close>

definition ex_l1 :: bytes where
  "ex_l1 = [0x80, 0, 0, 0, 0, 0, 6, 0]"

definition ex_l2 :: bytes where
  "ex_l2 = [0x80, 0, 0, 0, 0, 0, 8, 0]"

lemmas walk_eval = update_snapshot_refcount_def precheck_snapshot_refcount_def dry_run_refcount_pass_def
  apply_refcount_pass_def Let_def l2_entry_stride_def ex_l1_def ex_l2_def u64_from_be_def be_val_def slice_at_def
  splice_at_def L1_OFFSET_MASK_def L2_OFFSET_MASK_def OFLAG_COPIED_def OFLAG_COMPRESSED_def l2_entry_ref_def
  dry_run_cluster_def apply_cluster_def rb_lookup_def ok_or_def usize_add_def bytes_per_refblock_def
  read_refcount_in_block_def set_refcount_in_block_def check_refcount_after_addend_def checked_add_def

lemma ex_snap_staging: "k \<le> 256 \<Longrightarrow> snap_staging 9 512 1 (ex_rb k)"
  by (simp add: snap_staging_def staged_blocks_def ex_rb_length)

lemma ex_refs: "snap_refs 9 False (\<lambda>_. Some ex_l2) ex_l1 = map Some [2048, 1536]"
  by (simp add: l1_refs_def l2_hosts_def List.map_filter_simps walk_eval)

text \<open>After a create on clusters 0 to 4, the L2 table and the data cluster are referenced twice.\<close>

definition ex_rb_shared :: bytes where
  "ex_rb_shared = [0, 1, 0, 1, 0, 1, 0, 2, 0, 2] @ replicate 502 0"

lemma ex_create: "update_snapshot_refcount (IncrementForCreate ex_l1) (ex_rb 5) 9 16 False (\<lambda>_. Some ex_l2) (snap_rb 512 1) =
    (Inr (), ex_rb_shared)"
  by (simp add: walk_eval ex_rb_eq ex_rb_shared_def)

text \<open>(C22) Snapshot refcounts are exact: a create (delete) succeeds exactly when every L2 table it walks is staged, every
  referenced cluster is covered by the staged refblocks, and every counter can absorb all references to it; it then
  adds (subtracts) one for each reference of the walked L1 table, L2 tables included, and changes no other counter.\<close>

theorem snapshot_refcounts_exact:
  assumes "snap_staging cb cs n rb" and "op = IncrementForCreate l1 \<and> a = 1 \<or> op = DecrementForDelete l1 \<and> a = - 1"
  shows "((\<exists>rb'. update_snapshot_refcount op rb cb 16 ext l2f (snap_rb cs n) = (Inr (), rb')) \<longleftrightarrow>
      fits a cs n rb (snap_refs cb ext l2f l1)) \<and>
    (\<forall>rb'. update_snapshot_refcount op rb cb 16 ext l2f (snap_rb cs n) = (Inr (), rb') \<longrightarrow>
      (\<exists>hs. snap_refs cb ext l2f l1 = map Some hs \<and> length rb' = length rb \<and> (\<forall>c<n * (unat cs div 2).
         int (rc_flat rb' c) = int (rc_flat rb c) + a * int (count_list (map (ckey cs) hs) c))))"
proof -
  have o: "op = one_sided a l1" and a: "a = 1 \<or> a = - 1" using assms(2) by auto
  have len: "snap_staging cb cs n rb' \<Longrightarrow> length rb' = length rb" for rb'
    using assms(1) by (simp add: snap_staging_def staged_blocks_def)
  show ?thesis
    using update_one_sided_iff[OF assms(1) a, of l1 ext l2f] update_one_sided_counts[OF assms(1) a, of l1 ext l2f] len
    unfolding o by fast
qed

theorem snapshot_refcounts_exact_witness:
  "update_snapshot_refcount (IncrementForCreate ex_l1) (ex_rb 5) 9 16 False (\<lambda>_. Some ex_l2) (snap_rb 512 1) = (Inr (), ex_rb_shared) \<and>
   int (rc_flat ex_rb_shared 4) = int (rc_flat (ex_rb 5) 4) + 1"
proof -
  have "snap_staging 9 512 1 (ex_rb 5)" by (rule ex_snap_staging) simp
  from snapshot_refcounts_exact[OF this, of "IncrementForCreate ex_l1" ex_l1 1 False "\<lambda>_. Some ex_l2"] ex_create
  have "\<exists>hs. snap_refs 9 False (\<lambda>_. Some ex_l2) ex_l1 = map Some hs \<and> (\<forall>c<256.
      int (rc_flat ex_rb_shared c) = int (rc_flat (ex_rb 5) c) + int (count_list (map (ckey 512) hs) c))" by auto
  then have "\<forall>c<256. int (rc_flat ex_rb_shared c) = int (rc_flat (ex_rb 5) c) + int (count_list (map (ckey 512) [2048, 1536]) c)"
    unfolding ex_refs by (auto simp: Cons_eq_map_conv)
  from this[rule_format, of 4] show ?thesis using ex_create by simp
qed

text \<open>(C27) Apply: a swap subtracts one per reference of the outgoing L1 table and adds one per reference of the incoming
  one.\<close>

theorem snapshot_swap_exact:
  assumes "snap_staging cb cs n rb"
    and "update_snapshot_refcount (SwapForApply from_l1 to_l1) rb cb 16 ext l2f (snap_rb cs n) = (Inr (), rb')"
  shows "\<exists>hs hs'. snap_refs cb ext l2f from_l1 = map Some hs \<and> snap_refs cb ext l2f to_l1 = map Some hs' \<and>
    (\<forall>c<n * (unat cs div 2). int (rc_flat rb' c) =
       int (rc_flat rb c) - int (count_list (map (ckey cs) hs) c) + int (count_list (map (ckey cs) hs') c))"
  using update_swap_counts[OF assms] by blast

theorem snapshot_swap_exact_witness:
  "update_snapshot_refcount (SwapForApply ex_l1 ex_l1) (ex_rb 5) 9 16 False (\<lambda>_. Some ex_l2) (snap_rb 512 1) = (Inr (), ex_rb 5) \<and>
   (\<exists>hs. snap_refs 9 False (\<lambda>_. Some ex_l2) ex_l1 = map Some hs)"
proof -
  have s: "snap_staging 9 512 1 (ex_rb 5)" by (rule ex_snap_staging) simp
  have r: "update_snapshot_refcount (SwapForApply ex_l1 ex_l1) (ex_rb 5) 9 16 False (\<lambda>_. Some ex_l2) (snap_rb 512 1) = (Inr (), ex_rb 5)"
    by (simp add: walk_eval ex_rb_eq)
  show ?thesis using snapshot_swap_exact[OF s r] r by blast
qed

text \<open>(C23) Create and delete round trip: deleting a snapshot right after creating it succeeds and restores every refblock
  byte.\<close>

theorem snapshot_create_delete_roundtrip:
  assumes "snap_staging cb cs n rb"
    and "update_snapshot_refcount (IncrementForCreate l1) rb cb 16 ext l2f (snap_rb cs n) = (Inr (), rb')"
  shows "update_snapshot_refcount (DecrementForDelete l1) rb' cb 16 ext l2f (snap_rb cs n) = (Inr (), rb)"
  using assms by (rule update_create_delete)

theorem snapshot_create_delete_roundtrip_witness:
  "update_snapshot_refcount (DecrementForDelete ex_l1) ex_rb_shared 9 16 False (\<lambda>_. Some ex_l2) (snap_rb 512 1) = (Inr (), ex_rb 5)"
  by (rule snapshot_create_delete_roundtrip[OF ex_snap_staging ex_create]) simp

text \<open>(C24) A refused create or delete leaves the refblocks alone, provided that the walked table references no cluster
  twice.\<close>

theorem snapshot_refusal_atomic:
  assumes "snap_staging cb cs n rb" and "op = IncrementForCreate l1 \<or> op = DecrementForDelete l1"
    and "snap_refs cb ext l2f l1 = map Some hs" "distinct (map (ckey cs) hs)"
    and "update_snapshot_refcount op rb cb 16 ext l2f (snap_rb cs n) = (Inl e, rb')"
  shows "rb' = rb"
proof -
  obtain a where "a = 1 \<or> a = - 1" "op = one_sided a l1" using assms(2) by (metis one_sided_simps)
  then show ?thesis using update_one_sided_atomic[OF assms(1) _ assms(3,4)] assms(5) by blast
qed

theorem snapshot_refusal_atomic_witness:
  "\<exists>rb. update_snapshot_refcount (DecrementForDelete ex_l1) (ex_rb 4) 9 16 False (\<lambda>_. Some ex_l2) (snap_rb 512 1) = (Inl ParseFailed, rb) \<and>
     rb = ex_rb 4"
proof -
  have s: "snap_staging 9 512 1 (ex_rb 4)" by (rule ex_snap_staging) simp
  have r: "update_snapshot_refcount (DecrementForDelete ex_l1) (ex_rb 4) 9 16 False (\<lambda>_. Some ex_l2) (snap_rb 512 1) = (Inl ParseFailed, ex_rb 4)"
    by (simp add: walk_eval ex_rb_eq replicate_eval)
  have "distinct (map (ckey 512) [2048, 1536])" by simp
  from snapshot_refusal_atomic[OF s _ ex_refs this r] r show ?thesis by blast
qed





end
