(* ===== verification/Snapshot_Copied.thy ===== *)
theory Snapshot_Copied
  imports Snapshot_Walk
begin

text \<open>
  The COPIED-flag walk of \<^verbatim>\<open>src/src/crates/snapshot/src/qcow2.rs\<close>: the two entry rewrites and
  \<open>update_copied_flags_for_l1\<close>.  The lemmas describe the staged chain after the walk entry by entry and show that
  the walk is idempotent.
\<close>

section \<open>COPIED flag rewrites\<close>

definition rewrite_l1_entry_copied_flag :: "bytes \<Rightarrow> u32 \<Rightarrow> bool \<Rightarrow> snapshot_error + bytes" where
  "rewrite_l1_entry_copied_flag l1_bytes entry_idx set_flag =
     bind_res (ok_or (usize_mul (unat entry_idx) 8) MisalignedAccess) (\<lambda>off.
       if (case usize_add off 8 of Some e \<Rightarrow> length l1_bytes < e | None \<Rightarrow> True) then Inl MisalignedAccess
       else let entry = u64_from_be (slice_at off 8 l1_bytes);
                entry' = (if set_flag then entry OR OFLAG_COPIED else entry AND NOT OFLAG_COPIED) in
         Inr (splice_at off (u64_to_be entry') l1_bytes))"

definition rewrite_l2_entry_copied_flag :: "bytes \<Rightarrow> u32 \<Rightarrow> bool \<Rightarrow> bool \<Rightarrow> snapshot_error + bytes" where
  "rewrite_l2_entry_copied_flag l2_bytes entry_idx set_flag extended_l2 =
     (let stride = (if extended_l2 then 16 else 8) in
      bind_res (ok_or (usize_mul (unat entry_idx) stride) MisalignedAccess) (\<lambda>off.
        if (case usize_add off stride of Some e \<Rightarrow> length l2_bytes < e | None \<Rightarrow> True) then Inl MisalignedAccess
        else let entry = u64_from_be (slice_at off 8 l2_bytes);
                 entry' = (if set_flag then entry OR OFLAG_COPIED else entry AND NOT OFLAG_COPIED) in
          Inr (splice_at off (u64_to_be entry') l2_bytes)))"

section \<open>The COPIED-flag walk\<close>

fun copied_l2 :: "(u64 \<Rightarrow> u64 option) \<Rightarrow> u32 \<Rightarrow> bool \<Rightarrow> nat list \<Rightarrow> u32 \<Rightarrow> bytes \<Rightarrow> (snapshot_error + u32) \<times> bytes" where
  "copied_l2 rc_for cb ext [] rewrites l2_bytes = (Inr rewrites, l2_bytes)"
| "copied_l2 rc_for cb ext (l2_idx # rest) rewrites l2_bytes =
     (let eoff = l2_idx * l2_entry_stride ext in
      if length l2_bytes < eoff + 8 then (Inr rewrites, l2_bytes)
      else let l2_entry = u64_from_be (slice_at eoff 8 l2_bytes);
               has = (l2_entry AND OFLAG_COPIED \<noteq> 0);
               rewrite = (\<lambda>want. case rewrite_l2_entry_copied_flag l2_bytes (of_nat l2_idx) want ext of
                   Inl e \<Rightarrow> (Inl e, l2_bytes)
                 | Inr l2' \<Rightarrow> copied_l2 rc_for cb ext rest (saturating_add rewrites 1) l2');
               by_refcount = (\<lambda>host. case rc_for host of
                   None \<Rightarrow> (Inl MisalignedAccess, l2_bytes)
                 | Some rc \<Rightarrow> if (rc = 1) \<noteq> has then rewrite (rc = 1)
                              else copied_l2 rc_for cb ext rest rewrites l2_bytes) in
        if l2_entry AND OFLAG_COMPRESSED \<noteq> 0 then
          by_refcount (l2_entry AND NOT (OFLAG_COMPRESSED OR OFLAG_COPIED) AND NOT (shl 1 (unat cb) - 1))
        else if l2_entry AND L2_OFFSET_MASK = 0 then
          (if has then rewrite False else copied_l2 rc_for cb ext rest rewrites l2_bytes)
        else by_refcount (l2_entry AND L2_OFFSET_MASK))"

text \<open>The staged L2 tables are a store indexed by L1 index: each index has a slice of its own.\<close>

fun copied_l1 :: "(u64 \<Rightarrow> u64 option) \<Rightarrow> u32 \<Rightarrow> bool \<Rightarrow> nat list \<Rightarrow> u32 \<Rightarrow> bytes \<Rightarrow> (u32 \<Rightarrow> bytes option) \<Rightarrow>
    (snapshot_error + u32) \<times> bytes \<times> (u32 \<Rightarrow> bytes option)" where
  "copied_l1 rc_for cb ext [] rewrites l1_bytes l2s = (Inr rewrites, l1_bytes, l2s)"
| "copied_l1 rc_for cb ext (l1_idx # rest) rewrites l1_bytes l2s =
     (let raw = u64_from_be (slice_at (l1_idx * 8) 8 l1_bytes); l2_table_offset = raw AND L1_OFFSET_MASK in
      if l2_table_offset = 0 then copied_l1 rc_for cb ext rest rewrites l1_bytes l2s
      else case rc_for l2_table_offset of
          None \<Rightarrow> (Inl MisalignedAccess, l1_bytes, l2s)
        | Some l1_rc \<Rightarrow>
            (let want = (l1_rc = 1); has = (raw AND OFLAG_COPIED \<noteq> 0) in
             case (if want \<noteq> has
                   then bind_res (rewrite_l1_entry_copied_flag l1_bytes (of_nat l1_idx) want)
                          (\<lambda>l1'. Inr (l1', saturating_add rewrites 1))
                   else Inr (l1_bytes, rewrites)) of
               Inl e \<Rightarrow> (Inl e, l1_bytes, l2s)
             | Inr (l1', rewrites') \<Rightarrow>
                 (case l2s (of_nat l1_idx) of
                    None \<Rightarrow> (Inl MisalignedAccess, l1', l2s)
                  | Some l2_bytes \<Rightarrow>
                      (case copied_l2 rc_for cb ext [0..<length l2_bytes div l2_entry_stride ext] rewrites' l2_bytes of
                         (Inl e, l2') \<Rightarrow> (Inl e, l1', l2s(of_nat l1_idx \<mapsto> l2'))
                       | (Inr rewrites'', l2') \<Rightarrow>
                           copied_l1 rc_for cb ext rest rewrites'' l1' (l2s(of_nat l1_idx \<mapsto> l2'))))))"

definition update_copied_flags_for_l1 ::
    "bytes \<Rightarrow> u32 \<Rightarrow> (u32 \<Rightarrow> bytes option) \<Rightarrow> (u64 \<Rightarrow> u64 option) \<Rightarrow> bool \<Rightarrow>
     (snapshot_error + u32) \<times> bytes \<times> (u32 \<Rightarrow> bytes option)" where
  "update_copied_flags_for_l1 l1_bytes cluster_bits l2s refcount_for_cluster extended_l2 =
     (if cluster_bits = 0 then (Inl InvalidConfig, l1_bytes, l2s)
      else copied_l1 refcount_for_cluster cluster_bits extended_l2 [0..<length l1_bytes div 8] 0 l1_bytes l2s)"

section \<open>The COPIED flags after the walk\<close>

definition set_copied :: "bool \<Rightarrow> u64 \<Rightarrow> u64" where
  "set_copied b e = (if b then e OR OFLAG_COPIED else e AND NOT OFLAG_COPIED)"

definition entry_at :: "nat \<Rightarrow> bytes \<Rightarrow> nat \<Rightarrow> u64" where
  "entry_at stride b i = u64_from_be (slice_at (i * stride) 8 b)"

text \<open>The cluster an L2 entry references, and the two kinds of entries with the flag that their cluster's refcount calls
  for.\<close>

definition l2_host :: "u32 \<Rightarrow> u64 \<Rightarrow> u64 option" where
  "l2_host cb e =
     (if e AND OFLAG_COMPRESSED \<noteq> 0 then Some (e AND NOT (OFLAG_COMPRESSED OR OFLAG_COPIED) AND NOT (shl 1 (unat cb) - 1))
      else if e AND L2_OFFSET_MASK = 0 then None else Some (e AND L2_OFFSET_MASK))"

definition l1_flagged :: "(u64 \<Rightarrow> u64 option) \<Rightarrow> u64 \<Rightarrow> u64" where
  "l1_flagged rc e = (if e AND L1_OFFSET_MASK = 0 then e else set_copied (rc (e AND L1_OFFSET_MASK) = Some 1) e)"

definition l2_flagged :: "(u64 \<Rightarrow> u64 option) \<Rightarrow> u32 \<Rightarrow> u64 \<Rightarrow> u64" where
  "l2_flagged rc cb e = set_copied (case l2_host cb e of None \<Rightarrow> False | Some h \<Rightarrow> rc h = Some 1) e"

lemma copied_exp: "OFLAG_COPIED = 2 ^ 63"
  by (simp add: OFLAG_COPIED_def)

lemma copied_bit: "(e :: u64) AND OFLAG_COPIED \<noteq> 0 \<longleftrightarrow> bit e 63"
  by (simp only: copied_exp and_exp_eq_0_iff_not_bit not_not)

lemma bit_copied: "bit OFLAG_COPIED n \<longleftrightarrow> n = 63"
  unfolding copied_exp by (simp only: bit_exp_iff) auto

lemma set_copied_bit: "bit (set_copied b e) n \<longleftrightarrow> (if n = 63 then b else bit e n)"
  using bit_imp_le_length[of e n] by (auto simp: set_copied_def bit_simps bit_copied)

lemma set_copied_id: "set_copied b e = e \<longleftrightarrow> (bit e 63 \<longleftrightarrow> b)"
proof
  assume "set_copied b e = e"
  then show "bit e 63 \<longleftrightarrow> b" using set_copied_bit[of b e 63] by simp
next
  assume "bit e 63 \<longleftrightarrow> b"
  then show "set_copied b e = e" by (intro bit_eqI) (simp add: set_copied_bit)
qed

lemma set_copied_and: "\<not> bit m 63 \<Longrightarrow> set_copied b e AND m = e AND m"
  by (intro bit_eqI) (auto simp: bit_simps set_copied_bit)

lemma masks_63: "\<not> bit L1_OFFSET_MASK 63" "\<not> bit L2_OFFSET_MASK 63" "\<not> bit OFLAG_COMPRESSED 63"
  "\<not> bit (NOT (OFLAG_COMPRESSED OR OFLAG_COPIED)) 63"
  by (simp_all add: L1_OFFSET_MASK_def L2_OFFSET_MASK_def OFLAG_COMPRESSED_def OFLAG_COPIED_def bit_iff_and_push_bit_not_eq_0)

lemma l2_host_set_copied [simp]: "l2_host cb (set_copied b e) = l2_host cb e"
proof -
  have m: "\<not> bit (NOT (OFLAG_COMPRESSED OR OFLAG_COPIED) AND k) 63" for k using masks_63(4) by (simp only: bit_and_iff simp_thms)
  show ?thesis unfolding l2_host_def
    by (simp only: set_copied_and[OF masks_63(2)] set_copied_and[OF masks_63(3)] set_copied_and[OF m])
qed

lemma flagged_idem: "l1_flagged rc (l1_flagged rc e) = l1_flagged rc e" "l2_flagged rc cb (l2_flagged rc cb e) = l2_flagged rc cb e"
  by (simp_all add: l1_flagged_def l2_flagged_def set_copied_and masks_63 set_copied_id set_copied_bit split: option.splits)

lemma entry_splice:
  assumes "8 \<le> stride" "i * stride + 8 \<le> length b" "j * stride + 8 \<le> length b"
  shows "entry_at stride (splice_at (i * stride) (u64_to_be v) b) j = (if j = i then v else entry_at stride b j)"
proof (cases "j = i")
  case True
  then show ?thesis using assms by (simp add: entry_at_def)
next
  case False
  have "j * stride + stride \<le> i * stride \<or> i * stride + stride \<le> j * stride"
    using False by (metis add.commute mult_Suc mult_le_mono1 nat_neq_iff not_less_eq_eq not_le)
  then have "j * stride + 8 \<le> i * stride \<or> i * stride + length (u64_to_be v) \<le> j * stride" using assms(1) by auto
  then show ?thesis using assms False by (simp add: entry_at_def slice_splice_disjoint)
qed

lemma rewrite_l2_in_range:
  assumes "i < length l2 div l2_entry_stride ext" "length l2 < 2 ^ 32"
  shows "rewrite_l2_entry_copied_flag l2 (of_nat i) b ext =
    Inr (splice_at (i * l2_entry_stride ext) (u64_to_be (set_copied b (entry_at (l2_entry_stride ext) l2 i))) l2)"
proof -
  have "i < length l2" using assms(1) by (metis div_le_dividend less_le_trans)
  then have u: "unat (of_nat i :: u32) = i" using assms(2) by (simp add: unat_of_nat take_bit_nat_eq_self)
  have "i * l2_entry_stride ext + l2_entry_stride ext \<le> length l2"
    using assms(1) by (auto simp: l2_entry_stride_def split: if_splits)
  then show ?thesis using assms(2)
    by (auto simp: rewrite_l2_entry_copied_flag_def u ok_or_def usize_mul_def usize_add_def set_copied_def entry_at_def
        l2_entry_stride_def Let_def split: if_splits)
qed

lemma rewrite_l1_in_range:
  assumes "i < length l1 div 8" "length l1 < 2 ^ 32"
  shows "rewrite_l1_entry_copied_flag l1 (of_nat i) b = Inr (splice_at (i * 8) (u64_to_be (set_copied b (entry_at 8 l1 i))) l1)"
  using rewrite_l2_in_range[of i l1 False b] assms
  by (simp add: rewrite_l1_entry_copied_flag_def rewrite_l2_entry_copied_flag_def l2_entry_stride_def)

definition l2_walked :: "(u64 \<Rightarrow> u64 option) \<Rightarrow> u32 \<Rightarrow> bool \<Rightarrow> nat set \<Rightarrow> bytes \<Rightarrow> bytes \<Rightarrow> bool" where
  "l2_walked rc cb ext I l2 l2' \<longleftrightarrow> length l2' = length l2 \<and>
     (\<forall>j<length l2 div l2_entry_stride ext. entry_at (l2_entry_stride ext) l2' j =
        (if j \<in> I then l2_flagged rc cb (entry_at (l2_entry_stride ext) l2 j) else entry_at (l2_entry_stride ext) l2 j)) \<and>
     (\<forall>j<length l2 div l2_entry_stride ext. \<forall>h. j \<in> I \<longrightarrow> l2_host cb (entry_at (l2_entry_stride ext) l2 j) = Some h \<longrightarrow> rc h \<noteq> None) \<and>
     (\<forall>p<length l2. 8 \<le> p mod l2_entry_stride ext \<longrightarrow> l2' ! p = l2 ! p)"

lemma copied_l2_step:
  assumes "i * l2_entry_stride ext + 8 \<le> length l2"
  defines "e \<equiv> entry_at (l2_entry_stride ext) l2 i"
  shows "copied_l2 rc cb ext (i # rest) w l2 =
    (case l2_host cb e of
       None \<Rightarrow> if bit e 63 then (case rewrite_l2_entry_copied_flag l2 (of_nat i) False ext of
           Inl er \<Rightarrow> (Inl er, l2) | Inr l2' \<Rightarrow> copied_l2 rc cb ext rest (saturating_add w 1) l2')
         else copied_l2 rc cb ext rest w l2
     | Some h \<Rightarrow> (case rc h of None \<Rightarrow> (Inl MisalignedAccess, l2)
         | Some r \<Rightarrow> if (r = 1) \<noteq> bit e 63 then (case rewrite_l2_entry_copied_flag l2 (of_nat i) (r = 1) ext of
               Inl er \<Rightarrow> (Inl er, l2) | Inr l2' \<Rightarrow> copied_l2 rc cb ext rest (saturating_add w 1) l2')
             else copied_l2 rc cb ext rest w l2))"
proof -
  have lt: "\<not> length l2 < i * l2_entry_stride ext + 8" using assms(1) by simp
  show ?thesis
    unfolding copied_l2.simps Let_def if_not_P[OF lt] entry_at_def[symmetric] e_def[symmetric] copied_bit l2_host_def
    by (cases "e AND OFLAG_COMPRESSED \<noteq> 0"; cases "e AND L2_OFFSET_MASK = 0"; simp only: if_True if_False option.case simp_thms)
qed

lemma copied_l2_walked:
  assumes "copied_l2 rc cb ext idxs w l2 = (Inr w', l2')" "\<forall>i\<in>set idxs. i < length l2 div l2_entry_stride ext" "length l2 < 2 ^ 32"
    "distinct idxs"
  shows "l2_walked rc cb ext (set idxs) l2 l2'"
  using assms
proof (induction idxs arbitrary: w l2)
  case Nil
  then show ?case by (simp add: l2_walked_def)
next
  case (Cons i idxs)
  let ?s = "l2_entry_stride ext" and ?e = "entry_at (l2_entry_stride ext) l2 i"
  let ?b = "case l2_host cb ?e of None \<Rightarrow> False | Some h \<Rightarrow> rc h = Some 1"
  let ?l = "splice_at (i * ?s) (u64_to_be (set_copied ?b ?e)) l2"
  have i: "i < length l2 div ?s" using Cons.prems(2) by simp
  have fit: "i * ?s + 8 \<le> length l2" by (rule stride_fits[OF i])
  note rw = rewrite_l2_in_range[OF i Cons.prems(3)]
  have "\<exists>v l. copied_l2 rc cb ext idxs v l = (Inr w', l2') \<and> (l = l2 \<and> set_copied ?b ?e = ?e \<or> l = ?l) \<and>
      (\<forall>h. l2_host cb ?e = Some h \<longrightarrow> rc h \<noteq> None)"
    using Cons.prems(1) unfolding copied_l2_step[OF fit] rw
    by (auto simp: set_copied_id split: option.splits if_splits)
  then obtain v l where l: "copied_l2 rc cb ext idxs v l = (Inr w', l2')" "l = l2 \<and> set_copied ?b ?e = ?e \<or> l = ?l"
    and df: "\<And>h. l2_host cb ?e = Some h \<Longrightarrow> rc h \<noteq> None" by blast
  have s8: "8 \<le> ?s" by (simp add: l2_entry_stride_def)
  have len: "length l = length l2" using l(2) fit by auto
  have en: "entry_at ?s l j = (if j = i then l2_flagged rc cb ?e else entry_at ?s l2 j)" if "j < length l2 div ?s" for j
    using l(2) entry_splice[OF s8 fit stride_fits[OF that]] by (auto simp: l2_flagged_def)
  have oth: "l ! p = l2 ! p" if "p < length l2" "8 \<le> p mod ?s" for p
  proof -
    have "\<not> (i * ?s \<le> p \<and> p < i * ?s + 8)"
    proof
      assume a: "i * ?s \<le> p \<and> p < i * ?s + 8"
      then have "p mod ?s = p - i * ?s" using s8 by (metis add.commute le_add_diff_inverse less_diff_conv2 mod_less mod_mult_self2 order_less_le_trans mult.commute)
      then show False using a that by auto
    qed
    then show ?thesis using l(2) fit that by (auto simp: nth_splice_at)
  qed
  have w: "l2_walked rc cb ext (set idxs) l l2'" using Cons.IH[OF l(1)] Cons.prems len by simp
  show ?case unfolding l2_walked_def
  proof (intro conjI allI impI)
    fix j assume j: "j < length l2 div ?s"
    show "entry_at ?s l2' j = (if j \<in> set (i # idxs) then l2_flagged rc cb (entry_at ?s l2 j) else entry_at ?s l2 j)"
      using w en[OF j] len j Cons.prems(4) by (auto simp: l2_walked_def)
    fix h assume "j \<in> set (i # idxs)" "l2_host cb (entry_at ?s l2 j) = Some h"
    then show "rc h \<noteq> None" using w en[OF j] len j df by (cases "j = i") (auto simp: l2_walked_def)
  qed (use w oth len in \<open>auto simp: l2_walked_def\<close>)
qed

text \<open>The staged chain after a successful walk: every flag as the refcounts call for, every other bit unchanged.\<close>

definition chain_flagged ::
    "(u64 \<Rightarrow> u64 option) \<Rightarrow> u32 \<Rightarrow> bool \<Rightarrow> nat set \<Rightarrow> bytes \<Rightarrow> (u32 \<Rightarrow> bytes option) \<Rightarrow> bytes \<Rightarrow> (u32 \<Rightarrow> bytes option) \<Rightarrow> bool" where
  "chain_flagged rc cb ext I l1 l2s l1' l2s' \<longleftrightarrow> length l1' = length l1 \<and>
     (\<forall>i<length l1 div 8. entry_at 8 l1' i = (if i \<in> I then l1_flagged rc (entry_at 8 l1 i) else entry_at 8 l1 i)) \<and>
     (\<forall>i<length l1 div 8. if i \<in> I \<and> entry_at 8 l1 i AND L1_OFFSET_MASK \<noteq> 0
        then rc (entry_at 8 l1 i AND L1_OFFSET_MASK) \<noteq> None \<and> (\<exists>l2 l2'. l2s (of_nat i) = Some l2 \<and> l2s' (of_nat i) = Some l2' \<and>
          l2_walked rc cb ext {0..<length l2 div l2_entry_stride ext} l2 l2')
        else l2s' (of_nat i) = l2s (of_nat i))"

lemma of_nat_u32_inj: "i < 2 ^ 32 \<Longrightarrow> j < 2 ^ 32 \<Longrightarrow> (of_nat i :: u32) = of_nat j \<longleftrightarrow> i = j"
  by (simp add: word_of_nat_eq_iff take_bit_nat_eq_self)

lemma copied_l1_step:
  assumes i: "i < length l1 div 8" "length l1 < 2 ^ 32" and ne: "entry_at 8 l1 i AND L1_OFFSET_MASK \<noteq> 0"
    and r: "copied_l1 rc cb ext (i # idxs) w l1 l2s = (Inr w', l1', l2s')"
  obtains l2 l2' v v' where "rc (entry_at 8 l1 i AND L1_OFFSET_MASK) \<noteq> None" "l2s (of_nat i) = Some l2"
    "copied_l2 rc cb ext [0..<length l2 div l2_entry_stride ext] v l2 = (Inr v', l2')"
    "copied_l1 rc cb ext idxs v' (splice_at (i * 8) (u64_to_be (l1_flagged rc (entry_at 8 l1 i))) l1) (l2s(of_nat i \<mapsto> l2')) = (Inr w', l1', l2s')"
proof -
  let ?e = "entry_at 8 l1 i"
  have e: "u64_from_be (slice_at (i * 8) 8 l1) = ?e" by (simp add: entry_at_def)
  obtain c where c: "rc (?e AND L1_OFFSET_MASK) = Some c" using r ne by (cases "rc (?e AND L1_OFFSET_MASK)") (simp_all add: Let_def e)
  have id: "splice_at (i * 8) (u64_to_be ?e) l1 = l1"
    using i by (simp add: entry_at_def u64_to_from_be splice_slice_id)
  have fl: "l1_flagged rc ?e = set_copied (c = 1) ?e" using ne c by (simp add: l1_flagged_def)
  have same: "(c = 1) = bit ?e 63 \<Longrightarrow> splice_at (i * 8) (u64_to_be (l1_flagged rc ?e)) l1 = l1"
    unfolding fl using id set_copied_id[of "c = 1" ?e] by simp
  note rw = rewrite_l1_in_range[OF i, of "c = 1", folded fl]
  have "copied_l1 rc cb ext (i # idxs) w l1 l2s =
    (case l2s (of_nat i) of
       None \<Rightarrow> (Inl MisalignedAccess, splice_at (i * 8) (u64_to_be (l1_flagged rc ?e)) l1, l2s)
     | Some l2 \<Rightarrow>
         (case copied_l2 rc cb ext [0..<length l2 div l2_entry_stride ext] (if (c = 1) \<noteq> bit ?e 63 then saturating_add w 1 else w) l2 of
            (Inl er, l2') \<Rightarrow> (Inl er, splice_at (i * 8) (u64_to_be (l1_flagged rc ?e)) l1, l2s(of_nat i \<mapsto> l2'))
          | (Inr v', l2') \<Rightarrow> copied_l1 rc cb ext idxs v' (splice_at (i * 8) (u64_to_be (l1_flagged rc ?e)) l1) (l2s(of_nat i \<mapsto> l2'))))"
    unfolding copied_l1.simps Let_def e copied_bit if_not_P[OF ne] c option.case rw bind_res_simps
    by (cases "(c = 1) = bit ?e 63"; simp only: same if_True if_False simp_thms sum.case prod.case)
  then show thesis using r that c by (auto split: option.splits prod.splits sum.splits)
qed

lemma copied_l1_flagged:
  assumes "copied_l1 rc cb ext idxs w l1 l2s = (Inr w', l1', l2s')" "\<forall>i\<in>set idxs. i < length l1 div 8" "distinct idxs"
    "length l1 < 2 ^ 32" "\<And>k l2. l2s k = Some l2 \<Longrightarrow> length l2 < 2 ^ 32"
  shows "chain_flagged rc cb ext (set idxs) l1 l2s l1' l2s'"
  using assms
proof (induction idxs arbitrary: w l1 l2s)
  case Nil
  then show ?case by (simp add: chain_flagged_def)
next
  case (Cons i idxs)
  have i: "i < length l1 div 8" "i \<notin> set idxs" using Cons.prems by auto
  show ?case
  proof (cases "entry_at 8 l1 i AND L1_OFFSET_MASK = 0")
    case True
    then have "copied_l1 rc cb ext idxs w l1 l2s = (Inr w', l1', l2s')"
      using Cons.prems(1) by (simp add: Let_def entry_at_def)
    then have "chain_flagged rc cb ext (set idxs) l1 l2s l1' l2s'"
      by (rule Cons.IH) (use Cons.prems(2,3) in simp, use Cons.prems(3) in simp, rule Cons.prems(4), erule Cons.prems(5))
    then show ?thesis using True i by (auto simp: chain_flagged_def l1_flagged_def)
  next
    case False
    obtain l2 l2' v v' where rcd: "rc (entry_at 8 l1 i AND L1_OFFSET_MASK) \<noteq> None" and
      l2: "l2s (of_nat i) = Some l2" "copied_l2 rc cb ext [0..<length l2 div l2_entry_stride ext] v l2 = (Inr v', l2')"
      and rec: "copied_l1 rc cb ext idxs v' (splice_at (i * 8) (u64_to_be (l1_flagged rc (entry_at 8 l1 i))) l1) (l2s(of_nat i \<mapsto> l2')) = (Inr w', l1', l2s')"
      by (rule copied_l1_step[OF i(1) Cons.prems(4) False Cons.prems(1)])
    let ?l = "splice_at (i * 8) (u64_to_be (l1_flagged rc (entry_at 8 l1 i))) l1"
    have w2: "l2_walked rc cb ext {0..<length l2 div l2_entry_stride ext} l2 l2'"
      using copied_l2_walked[OF l2(2)] Cons.prems(5)[OF l2(1)] by simp
    have fit: "j < length l1 div 8 \<Longrightarrow> j * 8 + 8 \<le> length l1" for j by auto
    have len: "length ?l = length l1" using fit[OF i(1)] by simp
    have en: "entry_at 8 ?l j = (if j = i then l1_flagged rc (entry_at 8 l1 i) else entry_at 8 l1 j)" if "j < length l1 div 8" for j
      by (rule entry_splice) (use fit[OF i(1)] fit[OF that] in auto)
    have big: "length x < 2 ^ 32" if "(l2s(of_nat i \<mapsto> l2')) k = Some x" for k x
    proof (cases "k = of_nat i")
      case True
      then show ?thesis using that Cons.prems(5)[OF l2(1)] w2 by (simp add: l2_walked_def)
    next
      case False
      then show ?thesis using that Cons.prems(5)[of k x] by simp
    qed
    have ih: "chain_flagged rc cb ext (set idxs) ?l (l2s(of_nat i \<mapsto> l2')) l1' l2s'"
      using rec by (rule Cons.IH) (use Cons.prems(2) len in simp, use Cons.prems(3) in simp, use Cons.prems(4) len in simp, erule big)
    have inj: "(of_nat j :: u32) = of_nat i \<longleftrightarrow> j = i" if "j < length l1 div 8" for j
      using that i(1) Cons.prems(4) by (intro of_nat_u32_inj) auto
    note ih' = ih[unfolded chain_flagged_def len]
    note a = conjunct1[OF ih'] and b = conjunct1[OF conjunct2[OF ih'], rule_format]
      and c = conjunct2[OF conjunct2[OF ih'], THEN spec, THEN mp]
    show ?thesis unfolding chain_flagged_def
    proof (intro conjI allI impI)
      fix j assume j: "j < length l1 div 8"
      show "entry_at 8 l1' j = (if j \<in> set (i # idxs) then l1_flagged rc (entry_at 8 l1 j) else entry_at 8 l1 j)"
        using b[OF j] en[OF j] i(2) by auto
      show "if j \<in> set (i # idxs) \<and> entry_at 8 l1 j AND L1_OFFSET_MASK \<noteq> 0
        then rc (entry_at 8 l1 j AND L1_OFFSET_MASK) \<noteq> None \<and> (\<exists>x x'. l2s (of_nat j) = Some x \<and> l2s' (of_nat j) = Some x' \<and>
          l2_walked rc cb ext {0..<length x div l2_entry_stride ext} x x')
        else l2s' (of_nat j) = l2s (of_nat j)"
      proof (cases "j = i")
        case True
        then show ?thesis using c[OF j] i(2) False l2(1) w2 rcd by simp
      next
        case False
        have up: "(l2s(of_nat i \<mapsto> l2')) (of_nat j) = l2s (of_nat j)" using False inj[OF j] by simp
        have m: "j \<in> set (i # idxs) \<longleftrightarrow> j \<in> set idxs" using False by simp
        show ?thesis using c[OF j] unfolding up m en[OF j, unfolded if_not_P[OF False]] .
      qed
    qed (rule a)
  qed
qed

text \<open>A chain whose flags are right is a fixed point of the walk.\<close>

lemma copied_l2_fixed:
  assumes "\<forall>i\<in>set idxs. i * l2_entry_stride ext + 8 \<le> length l2 \<and>
      l2_flagged rc cb (entry_at (l2_entry_stride ext) l2 i) = entry_at (l2_entry_stride ext) l2 i \<and>
      (\<forall>h. l2_host cb (entry_at (l2_entry_stride ext) l2 i) = Some h \<longrightarrow> rc h \<noteq> None)"
  shows "copied_l2 rc cb ext idxs w l2 = (Inr w, l2)"
  using assms
proof (induction idxs)
  case (Cons i idxs)
  then have i: "i * l2_entry_stride ext + 8 \<le> length l2" by simp
  show ?case unfolding copied_l2_step[OF i] using Cons
    by (auto simp: l2_flagged_def set_copied_id split: option.splits)
qed simp

lemma copied_l1_fixed:
  assumes "\<forall>i\<in>set idxs. l1_flagged rc (entry_at 8 l1 i) = entry_at 8 l1 i \<and>
      (entry_at 8 l1 i AND L1_OFFSET_MASK \<noteq> 0 \<longrightarrow> rc (entry_at 8 l1 i AND L1_OFFSET_MASK) \<noteq> None \<and>
        (\<exists>l2. l2s (of_nat i) = Some l2 \<and> (\<forall>v. copied_l2 rc cb ext [0..<length l2 div l2_entry_stride ext] v l2 = (Inr v, l2))))"
  shows "copied_l1 rc cb ext idxs w l1 l2s = (Inr w, l1, l2s)"
  using assms
proof (induction idxs)
  case (Cons i idxs)
  let ?e = "entry_at 8 l1 i"
  have e: "u64_from_be (slice_at (i * 8) 8 l1) = ?e" by (simp add: entry_at_def)
  show ?case
  proof (cases "?e AND L1_OFFSET_MASK = 0")
    case True
    then show ?thesis using Cons by (simp add: Let_def e)
  next
    case False
    then obtain c l2 where c: "rc (?e AND L1_OFFSET_MASK) = Some c" and l2: "l2s (of_nat i) = Some l2"
      "\<And>v. copied_l2 rc cb ext [0..<length l2 div l2_entry_stride ext] v l2 = (Inr v, l2)" using Cons.prems by auto
    have "l1_flagged rc ?e = ?e" using Cons.prems by simp
    then have b: "(c = 1) = bit ?e 63" using False c by (simp add: l1_flagged_def set_copied_id)
    have "l2s(of_nat i \<mapsto> l2) = l2s" using l2(1) by (simp add: fun_upd_idem)
    then show ?thesis using Cons False c l2 b unfolding copied_l1.simps Let_def e copied_bit by simp
  qed
qed simp

text \<open>The whole walk: the flags it leaves, and that a second walk finds nothing to rewrite.\<close>

lemma update_copied_flagged:
  assumes "update_copied_flags_for_l1 l1 cb l2s rc ext = (Inr w, l1', l2s')" "length l1 < 2 ^ 32"
    "\<forall>k l2. l2s k = Some l2 \<longrightarrow> length l2 < 2 ^ 32"
  shows "chain_flagged rc cb ext {0..<length l1 div 8} l1 l2s l1' l2s' \<and> cb \<noteq> 0"
  using copied_l1_flagged[of rc cb ext "[0..<length l1 div 8]" 0 l1 l2s w l1' l2s'] assms
  by (simp add: update_copied_flags_for_l1_def split: if_splits)

lemma update_copied_idem:
  assumes "update_copied_flags_for_l1 l1 cb l2s rc ext = (Inr w, l1', l2s')" "length l1 < 2 ^ 32"
    "\<forall>k l2. l2s k = Some l2 \<longrightarrow> length l2 < 2 ^ 32"
  shows "update_copied_flags_for_l1 l1' cb l2s' rc ext = (Inr 0, l1', l2s')"
proof -
  have ch: "chain_flagged rc cb ext {0..<length l1 div 8} l1 l2s l1' l2s'" and cb: "cb \<noteq> 0"
    using update_copied_flagged[OF assms] by blast+
  have len: "length l1' = length l1" using ch by (simp add: chain_flagged_def)
  have "copied_l1 rc cb ext [0..<length l1' div 8] 0 l1' l2s' = (Inr 0, l1', l2s')"
  proof (intro copied_l1_fixed ballI)
    fix i assume "i \<in> set [0..<length l1' div 8]"
    then have i: "i < length l1 div 8" by (simp add: len)
    let ?e = "entry_at 8 l1 i"
    have e: "entry_at 8 l1' i = l1_flagged rc ?e" using ch i by (simp add: chain_flagged_def)
    have off: "entry_at 8 l1' i AND L1_OFFSET_MASK = ?e AND L1_OFFSET_MASK" unfolding e l1_flagged_def by (simp add: set_copied_and masks_63)
    have "rc (?e AND L1_OFFSET_MASK) \<noteq> None \<and>
      (\<exists>l2. l2s' (of_nat i) = Some l2 \<and> (\<forall>v. copied_l2 rc cb ext [0..<length l2 div l2_entry_stride ext] v l2 = (Inr v, l2)))"
      if ne: "?e AND L1_OFFSET_MASK \<noteq> 0"
    proof -
      obtain l2 l2' where l2: "rc (?e AND L1_OFFSET_MASK) \<noteq> None" "l2s' (of_nat i) = Some l2'"
        and w: "l2_walked rc cb ext {0..<length l2 div l2_entry_stride ext} l2 l2'"
        using conjunct2[OF conjunct2[OF ch[unfolded chain_flagged_def]], THEN spec, THEN mp, OF i] ne i by auto
      have "copied_l2 rc cb ext [0..<length l2' div l2_entry_stride ext] v l2' = (Inr v, l2')" for v
      proof (intro copied_l2_fixed ballI conjI allI impI)
        fix j assume "j \<in> set [0..<length l2' div l2_entry_stride ext]"
        then have j: "j < length l2 div l2_entry_stride ext" "j < length l2' div l2_entry_stride ext" using w by (auto simp: l2_walked_def)
        have f: "entry_at (l2_entry_stride ext) l2' j = l2_flagged rc cb (entry_at (l2_entry_stride ext) l2 j)" using w j by (simp add: l2_walked_def)
        show "j * l2_entry_stride ext + 8 \<le> length l2'" by (rule stride_fits[OF j(2)])
        show "l2_flagged rc cb (entry_at (l2_entry_stride ext) l2' j) = entry_at (l2_entry_stride ext) l2' j" by (simp add: f flagged_idem)
        fix h assume "l2_host cb (entry_at (l2_entry_stride ext) l2' j) = Some h"
        then have "l2_host cb (entry_at (l2_entry_stride ext) l2 j) = Some h" by (simp add: f l2_flagged_def)
        then show "rc h \<noteq> None" using w j(1) by (auto simp: l2_walked_def)
      qed
      then show ?thesis using l2 by blast
    qed
    then show "l1_flagged rc (entry_at 8 l1' i) = entry_at 8 l1' i \<and>
      (entry_at 8 l1' i AND L1_OFFSET_MASK \<noteq> 0 \<longrightarrow> rc (entry_at 8 l1' i AND L1_OFFSET_MASK) \<noteq> None \<and>
        (\<exists>l2. l2s' (of_nat i) = Some l2 \<and> (\<forall>v. copied_l2 rc cb ext [0..<length l2 div l2_entry_stride ext] v l2 = (Inr v, l2))))"
      unfolding off by (simp add: e flagged_idem)
  qed
  then show ?thesis using cb by (simp add: update_copied_flags_for_l1_def)
qed

section \<open>Properties\<close>

text \<open>(C29) COPIED flags after the walk: every L1 and L2 entry that references a cluster has the flag exactly when the
  cluster's refcount is one, an L2 entry that references none has it clear, and no other bit of the chain changes
  (the subcluster bitmaps of extended L2 entries included).\<close>

theorem copied_flags_match_refcounts:
  assumes "update_copied_flags_for_l1 l1 cb l2s rc ext = (Inr w, l1', l2s')" and "length l1 < 2 ^ 32"
    and "\<forall>k l2. l2s k = Some l2 \<longrightarrow> length l2 < 2 ^ 32"
  shows "chain_flagged rc cb ext {0..<length l1 div 8} l1 l2s l1' l2s'"
  using update_copied_flagged[OF assms] by blast

lemmas copied_eval = update_copied_flags_for_l1_def walk_eval rewrite_l1_entry_copied_flag_def
  rewrite_l2_entry_copied_flag_def usize_mul_def u64_to_be_def saturating_add_def

lemma ex_copied: "update_copied_flags_for_l1 ex_l1 9 (\<lambda>_. Some ex_l2) (\<lambda>_. Some 2) False =
    (Inr 2, [0, 0, 0, 0, 0, 0, 6, 0], (\<lambda>_. Some ex_l2)(0 \<mapsto> [0, 0, 0, 0, 0, 0, 8, 0]))"
  by (simp add: copied_eval be_enc_map upt_rec fun_eq_iff del: be_enc.simps)

theorem copied_flags_match_refcounts_witness:
  "chain_flagged (\<lambda>_. Some 2) 9 False {0..<1} ex_l1 (\<lambda>_. Some ex_l2) [0, 0, 0, 0, 0, 0, 6, 0]
     ((\<lambda>_. Some ex_l2)(0 \<mapsto> [0, 0, 0, 0, 0, 0, 8, 0]))"
  using copied_flags_match_refcounts[OF ex_copied] by (simp add: ex_l1_def ex_l2_def)

text \<open>(C30) The COPIED walk is idempotent: a second walk over the result rewrites nothing.\<close>

theorem copied_flags_idempotent:
  assumes "update_copied_flags_for_l1 l1 cb l2s rc ext = (Inr w, l1', l2s')" and "length l1 < 2 ^ 32"
    and "\<forall>k l2. l2s k = Some l2 \<longrightarrow> length l2 < 2 ^ 32"
  shows "update_copied_flags_for_l1 l1' cb l2s' rc ext = (Inr 0, l1', l2s')"
  using assms by (rule update_copied_idem)

theorem copied_flags_idempotent_witness:
  "update_copied_flags_for_l1 [0, 0, 0, 0, 0, 0, 6, 0] 9 ((\<lambda>_. Some ex_l2)(0 \<mapsto> [0, 0, 0, 0, 0, 0, 8, 0])) (\<lambda>_. Some 2) False =
     (Inr 0, [0, 0, 0, 0, 0, 0, 6, 0], (\<lambda>_. Some ex_l2)(0 \<mapsto> [0, 0, 0, 0, 0, 0, 8, 0]))"
  using copied_flags_idempotent[OF ex_copied] by (simp add: ex_l1_def ex_l2_def)

end
