(* ===== verification/Snapshot_Table.thy ===== *)
theory Snapshot_Table
  imports Snapshot_Walk
begin

text \<open>
  The snapshot table codec (\<^verbatim>\<open>snapshot/src/table.rs\<close>): serialisation of a new entry, the walk over raw
  entries at 8-aligned offsets, appending and removing an entry, lookup by id or name, and the decimal ids.
  The abstract view of a table is the list of its raw entries (\<open>table_entries\<close>); appending and removing are
  shown to implement the list operations, and lookup the search in that list.
\<close>

section \<open>Entries\<close>

definition SNAPSHOT_HEADER_SIZE :: nat where "SNAPSHOT_HEADER_SIZE = 40"


record new_snapshot_entry =
  ne_l1_table_offset :: u64
  ne_l1_size :: u32
  ne_id :: bytes
  ne_name :: bytes
  ne_date_sec :: u32
  ne_date_nsec :: u32
  ne_vm_clock_nsec :: u64
  ne_vm_state_size :: u32
  ne_vm_state_size_large :: u64
  ne_disk_size :: u64
  ne_icount :: u64


section \<open>Walking the raw table\<close>

definition round_up_8 :: "nat \<Rightarrow> nat option" where
  "round_up_8 v = map_option (\<lambda>x. x - x mod 8) (usize_add v 7)"

text \<open>The size fields of the entry at \<open>start\<close>.\<close>

definition extra_at :: "bytes \<Rightarrow> nat \<Rightarrow> nat" where
  "extra_at table start = unat (u32_from_be (slice_at (start + 36) 4 table))"

definition id_size_at :: "bytes \<Rightarrow> nat \<Rightarrow> nat" where
  "id_size_at table start = unat (u16_from_be (slice_at (start + 12) 2 table))"

definition name_size_at :: "bytes \<Rightarrow> nat \<Rightarrow> nat" where
  "name_size_at table start = unat (u16_from_be (slice_at (start + 14) 2 table))"

definition entry_bounds_at :: "bytes \<Rightarrow> nat \<Rightarrow> snapshot_error + nat \<times> nat" where
  "entry_bounds_at table offset =
     bind_res (ok_or (round_up_8 offset) ParseFailed) (\<lambda>start.
     bind_res (ok_or (usize_add start SNAPSHOT_HEADER_SIZE) ParseFailed) (\<lambda>header_end.
     if length table < header_end then Inl ParseFailed
     else
       bind_res (ok_or (Option.bind (Option.bind (usize_add SNAPSHOT_HEADER_SIZE (extra_at table start))
           (\<lambda>v. usize_add v (id_size_at table start))) (\<lambda>v. usize_add v (name_size_at table start))) ParseFailed) (\<lambda>entry_len.
       bind_res (ok_or (usize_add start entry_len) ParseFailed) (\<lambda>entry_end.
       if length table < entry_end then Inl ParseFailed else Inr (start, entry_len)))))"

fun byte_len_from :: "bytes \<Rightarrow> nat \<Rightarrow> nat \<Rightarrow> snapshot_error + nat" where
  "byte_len_from table 0 offset = Inr offset"
| "byte_len_from table (Suc n) offset =
     bind_res (entry_bounds_at table offset) (\<lambda>(start, len). byte_len_from table n (start + len))"

definition snapshot_table_byte_len :: "bytes \<Rightarrow> u32 \<Rightarrow> snapshot_error + nat" where
  "snapshot_table_byte_len table nb_snapshots = byte_len_from table (unat nb_snapshots) 0"

fun entry_bounds_from :: "bytes \<Rightarrow> nat \<Rightarrow> nat \<Rightarrow> snapshot_error + nat \<times> nat" where
  "entry_bounds_from table 0 offset = entry_bounds_at table offset"
| "entry_bounds_from table (Suc n) offset =
     bind_res (entry_bounds_at table offset) (\<lambda>(start, len). entry_bounds_from table n (start + len))"

definition snapshot_table_entry_bounds :: "bytes \<Rightarrow> u32 \<Rightarrow> u32 \<Rightarrow> snapshot_error + nat \<times> nat" where
  "snapshot_table_entry_bounds table nb_snapshots index =
     (if nb_snapshots \<le> index then Inl InvalidConfig else entry_bounds_from table (unat index) 0)"

section \<open>Appending and removing\<close>

text \<open>\<open>zero_gap a b\<close> zeroes the bytes \<open>a\<close> up to \<open>b\<close>.\<close>

definition zero_gap :: "nat \<Rightarrow> nat \<Rightarrow> bytes \<Rightarrow> bytes" where
  "zero_gap a b out = splice_at a (replicate (b - a) 0) out"

definition build_snapshot_table :: "bytes \<Rightarrow> nat \<Rightarrow> bytes \<Rightarrow> bytes \<Rightarrow> (snapshot_error + nat) \<times> bytes" where
  "build_snapshot_table old_table old_len new_entry out =
     (if length old_table < old_len then (Inl MisalignedAccess, out)
      else case round_up_8 old_len of
        None \<Rightarrow> (Inl ParseFailed, out)
      | Some aligned \<Rightarrow>
          (case usize_add aligned (length new_entry) of
             None \<Rightarrow> (Inl ParseFailed, out)
           | Some total_len \<Rightarrow>
               if length out < total_len then (Inl MisalignedAccess, out)
               else (Inr total_len, splice_at aligned new_entry (zero_gap old_len aligned (splice_at 0 (take old_len old_table) out)))))"

fun without_from :: "bytes \<Rightarrow> nat \<Rightarrow> nat \<Rightarrow> nat \<Rightarrow> nat \<Rightarrow> nat \<Rightarrow> bytes \<Rightarrow> (snapshot_error + nat) \<times> bytes" where
  "without_from table 0 i remove_index in_offset out_offset out = (Inr out_offset, out)"
| "without_from table (Suc n) i remove_index in_offset out_offset out =
     (case entry_bounds_at table in_offset of
        Inl e \<Rightarrow> (Inl e, out)
      | Inr (start, len) \<Rightarrow>
          if i = remove_index then without_from table n (Suc i) remove_index (start + len) out_offset out
          else
            (case round_up_8 out_offset of
               None \<Rightarrow> (Inl ParseFailed, out)
             | Some aligned \<Rightarrow>
                 (case usize_add aligned len of
                    None \<Rightarrow> (Inl ParseFailed, out)
                  | Some end_off \<Rightarrow>
                      if length out < end_off then (Inl MisalignedAccess, out)
                      else without_from table n (Suc i) remove_index (start + len) end_off
                             (splice_at aligned (slice_at start len table) (zero_gap out_offset aligned out)))))"

definition build_snapshot_table_without :: "bytes \<Rightarrow> nat \<Rightarrow> u32 \<Rightarrow> u32 \<Rightarrow> bytes \<Rightarrow> (snapshot_error + nat) \<times> bytes" where
  "build_snapshot_table_without old_table old_len nb_snapshots remove_index out =
     (if nb_snapshots \<le> remove_index then (Inl InvalidConfig, out)
      else if length old_table < old_len then (Inl MisalignedAccess, out)
      else without_from (take old_len old_table) (unat nb_snapshots) 0 (unat remove_index) 0 0 out)"

section \<open>Lookup\<close>

datatype match_mode = IdThenName | NameOnly

record found_snapshot =
  fs_index :: u32
  fs_l1_table_offset :: u64
  fs_l1_size :: u32
  fs_disk_size_or_zero :: u64

definition found_snapshot_at :: "bytes \<Rightarrow> u32 \<Rightarrow> nat \<Rightarrow> nat \<Rightarrow> found_snapshot" where
  "found_snapshot_at table index start extra =
     \<lparr>fs_index = index, fs_l1_table_offset = u64_from_be (slice_at start 8 table),
      fs_l1_size = u32_from_be (slice_at (start + 8) 4 table),
      fs_disk_size_or_zero = (if 16 \<le> extra then u64_from_be (slice_at (start + SNAPSHOT_HEADER_SIZE + 8) 8 table) else 0)\<rparr>"

fun find_from :: "bytes \<Rightarrow> nat \<Rightarrow> nat \<Rightarrow> bytes \<Rightarrow> bool \<Rightarrow> nat \<Rightarrow> snapshot_error + found_snapshot option" where
  "find_from table 0 i needle by_id offset = Inr None"
| "find_from table (Suc n) i needle by_id offset =
     bind_res (entry_bounds_at table offset) (\<lambda>(start, len).
       let extra = extra_at table start; id_size = id_size_at table start; name_size = name_size_at table start;
           id_start = start + SNAPSHOT_HEADER_SIZE + extra;
           (field_start, field_len) = (if by_id then (id_start, id_size) else (id_start + id_size, name_size)) in
       if field_len = length needle \<and> slice_at field_start field_len table = needle
       then Inr (Some (found_snapshot_at table (of_nat i) start extra))
       else find_from table n (Suc i) needle by_id (start + len))"

definition find_pass :: "bytes \<Rightarrow> u32 \<Rightarrow> bytes \<Rightarrow> bool \<Rightarrow> snapshot_error + found_snapshot option" where
  "find_pass table nb_snapshots needle by_id = find_from table (unat nb_snapshots) 0 needle by_id 0"

definition find_snapshot_in_table :: "bytes \<Rightarrow> nat \<Rightarrow> u32 \<Rightarrow> bytes \<Rightarrow> match_mode \<Rightarrow> snapshot_error + found_snapshot option" where
  "find_snapshot_in_table table table_len nb_snapshots needle mode =
     (if length table < table_len then Inl MisalignedAccess
      else let table = take table_len table in
        case mode of
          IdThenName \<Rightarrow>
            bind_res (find_pass table nb_snapshots needle True) (\<lambda>r.
              case r of Some found \<Rightarrow> Inr (Some found) | None \<Rightarrow> find_pass table nb_snapshots needle False)
        | NameOnly \<Rightarrow> find_pass table nb_snapshots needle False)"

section \<open>Decimal ids\<close>

fun parse_decimal_from :: "u64 \<Rightarrow> bytes \<Rightarrow> u64 option" where
  "parse_decimal_from v [] = Some v"
| "parse_decimal_from v (b # bs) =
     (if 48 \<le> b \<and> b \<le> 57 then
        Option.bind (checked_mul v 10) (\<lambda>w. Option.bind (checked_add w (ucast (b - 48))) (\<lambda>w. parse_decimal_from w bs))
      else Some v)"

definition parse_decimal_id :: "bytes \<Rightarrow> u64 option" where
  "parse_decimal_id s = parse_decimal_from 0 s"

text \<open>The digits, least significant first, as the loop stores them in its buffer of 20 bytes.\<close>

function decimal_digits :: "u64 \<Rightarrow> bytes" where
  "decimal_digits v = (if v = 0 then [] else (48 + ucast (v mod 10)) # decimal_digits (v div 10))"
  by pat_completeness auto
termination
proof (relation "measure unat")
  fix v :: u64 assume "v \<noteq> 0"
  then have "0 < unat v" by (simp add: unat_gt_0)
  then show "(v div 10, v) \<in> measure unat" by (simp add: unat_div)
qed simp

declare decimal_digits.simps [simp del]

definition format_decimal_u64 :: "u64 \<Rightarrow> bytes \<Rightarrow> nat \<times> bytes" where
  "format_decimal_u64 v out =
     (let tmp = (if v = 0 then [48] else decimal_digits v) in
      if length out < length tmp then (0, out) else (length tmp, splice_at 0 (rev tmp) out))"

section \<open>The table as a list of entries\<close>

fun entries_from :: "bytes \<Rightarrow> nat \<Rightarrow> nat \<Rightarrow> snapshot_error + bytes list" where
  "entries_from table 0 offset = Inr []"
| "entries_from table (Suc n) offset =
     bind_res (entry_bounds_at table offset) (\<lambda>(start, len).
       bind_res (entries_from table n (start + len)) (\<lambda>es. Inr (slice_at start len table # es)))"

definition table_entries :: "bytes \<Rightarrow> u32 \<Rightarrow> snapshot_error + bytes list" where
  "table_entries table nb = entries_from table (unat nb) 0"

text \<open>A raw entry whose size fields add up to its length.\<close>

definition valid_entry :: "bytes \<Rightarrow> bool" where
  "valid_entry b \<longleftrightarrow> 40 \<le> length b \<and> length b = 40 + extra_at b 0 + id_size_at b 0 + name_size_at b 0"

definition up8 :: "nat \<Rightarrow> nat" where
  "up8 n = n + 7 - (n + 7) mod 8"

fun laid :: "bytes \<Rightarrow> nat \<Rightarrow> bytes list \<Rightarrow> bool" where
  "laid table offset [] \<longleftrightarrow> True"
| "laid table offset (e # es) \<longleftrightarrow> valid_entry e \<and> up8 offset + length e \<le> length table \<and>
     slice_at (up8 offset) (length e) table = e \<and> laid table (up8 offset + length e) es"

fun laid_end :: "nat \<Rightarrow> bytes list \<Rightarrow> nat" where
  "laid_end offset [] = offset"
| "laid_end offset (e # es) = laid_end (up8 offset + length e) es"

lemma up8_bounds: "n \<le> up8 n" "up8 n < n + 8" "a \<le> b \<Longrightarrow> up8 a \<le> up8 b"
proof -
  have e: "up8 n = 8 * ((n + 7) div 8)" for n by (simp add: up8_def minus_mod_eq_mult_div)
  show "n \<le> up8 n" "up8 n < n + 8" unfolding e by presburger+
  show "a \<le> b \<Longrightarrow> up8 a \<le> up8 b" unfolding e by (simp add: div_le_mono)
qed

lemma round_up_8_eq: "round_up_8 n = (if n + 7 < 2 ^ 64 then Some (up8 n) else None)"
  by (simp add: round_up_8_def usize_add_def up8_def)

lemma fields_slice:
  assumes "40 \<le> l" "s + l \<le> length table"
  shows "extra_at (slice_at s l table) 0 = extra_at table s" "id_size_at (slice_at s l table) 0 = id_size_at table s"
    "name_size_at (slice_at s l table) 0 = name_size_at table s"
  using assms by (simp_all add: extra_at_def id_size_at_def name_size_at_def slice_slice)

lemma size_bounds: "extra_at t s < 2 ^ 32" "id_size_at t s < 2 ^ 16" "name_size_at t s < 2 ^ 16"
  using unsigned_less[of "u32_from_be (slice_at (s + 36) 4 t)", where 'a = nat]
    unsigned_less[of "u16_from_be (slice_at (s + 12) 2 t)", where 'a = nat]
    unsigned_less[of "u16_from_be (slice_at (s + 14) 2 t)", where 'a = nat]
  by (simp_all add: extra_at_def id_size_at_def name_size_at_def)

lemma entry_bounds_iff:
  assumes "length table < 2 ^ 63" "offset \<le> length table"
  shows "entry_bounds_at table offset = Inr (s, l) \<longleftrightarrow>
    s = up8 offset \<and> s + l \<le> length table \<and> 40 \<le> l \<and> valid_entry (slice_at s l table)"
proof -
  let ?n = "40 + extra_at table (up8 offset) + id_size_at table (up8 offset) + name_size_at table (up8 offset)"
  note B = size_bounds[of table "up8 offset"] and U = up8_bounds(2)[of offset]
  have "entry_bounds_at table offset = Inr (s, l) \<longleftrightarrow> s = up8 offset \<and> l = ?n \<and> up8 offset + ?n \<le> length table"
    using assms B U
    by (auto simp: entry_bounds_at_def round_up_8_eq usize_add_def SNAPSHOT_HEADER_SIZE_def ok_or_def split: if_splits)
  also have "\<dots> \<longleftrightarrow> s = up8 offset \<and> s + l \<le> length table \<and> 40 \<le> l \<and> valid_entry (slice_at s l table)"
    using fields_slice[of l s table] by (auto simp: valid_entry_def)
  finally show ?thesis .
qed

lemma laid_end_ge: "offset \<le> laid_end offset es"
  by (induction es arbitrary: offset) (auto intro: order_trans[OF up8_bounds(1)] dest: add_leD1)

lemma entries_from_iff:
  assumes "length table < 2 ^ 63" "offset \<le> length table"
  shows "entries_from table n offset = Inr es \<longleftrightarrow> length es = n \<and> laid table offset es"
  using assms(2)
proof (induction n arbitrary: offset es)
  case (Suc n)
  show ?case
  proof (cases "entry_bounds_at table offset")
    case (Inl e)
    have False if "laid table offset (x # xs)" for x xs
      using that Inl entry_bounds_iff[OF assms(1) Suc.prems, of "up8 offset" "length x"] by (auto simp: valid_entry_def)
    then show ?thesis using Inl by (cases es) auto
  next
    case (Inr sl)
    obtain st l where sl: "sl = (st, l)" by (cases sl)
    note b = entry_bounds_iff[OF assms(1) Suc.prems, of st l, THEN iffD1, OF Inr[unfolded sl]]
    have uniq: "length x = l" if "laid table offset (x # xs)" for x xs
      using that Inr sl entry_bounds_iff[OF assms(1) Suc.prems, of "up8 offset" "length x"] by (auto simp: valid_entry_def)
    show ?thesis
    proof (cases es)
      case Nil
      then show ?thesis using Inr sl by auto
    next
      case (Cons x xs)
      have "entries_from table (Suc n) offset = Inr es \<longleftrightarrow> x = slice_at st l table \<and> length xs = n \<and> laid table (st + l) xs"
        using Inr sl Cons Suc.IH[of "st + l" xs] b by auto
      also have "\<dots> \<longleftrightarrow> length es = Suc n \<and> laid table offset es"
        using Cons b uniq[of x xs] by auto
      finally show ?thesis .
    qed
  qed
qed auto

lemma byte_len_laid:
  assumes "length table < 2 ^ 63" "offset \<le> length table" "laid table offset es"
  shows "byte_len_from table (length es) offset = Inr (laid_end offset es) \<and> laid_end offset es \<le> length table"
  using assms(2,3)
proof (induction es arbitrary: offset)
  case (Cons e es)
  have "entry_bounds_at table offset = Inr (up8 offset, length e)"
    using Cons.prems entry_bounds_iff[OF assms(1) Cons.prems(1), of "up8 offset" "length e"] by (auto simp: valid_entry_def)
  then show ?case using Cons.IH[of "up8 offset + length e"] Cons.prems by auto
qed simp

lemma laid_append [simp]: "laid t offset (xs @ ys) \<longleftrightarrow> laid t offset xs \<and> laid t (laid_end offset xs) ys"
  by (induction xs arbitrary: offset) auto

lemma laid_end_append [simp]: "laid_end offset (xs @ ys) = laid_end (laid_end offset xs) ys"
  by (induction xs arbitrary: offset) auto

lemma slice_prefix: "take k t' = take k t \<Longrightarrow> a + n \<le> k \<Longrightarrow> slice_at a n t' = slice_at a n t"
proof -
  assume "take k t' = take k t" "a + n \<le> k"
  moreover have "slice_at a n x = slice_at a n (take k x)" for x using \<open>a + n \<le> k\<close> by (simp add: slice_at_def drop_take min_def)
  ultimately show ?thesis by metis
qed

lemma laid_prefix:
  assumes "laid t offset es" "take k t' = take k t" "laid_end offset es \<le> k" "k \<le> length t'"
  shows "laid t' offset es"
  using assms(1,3)
proof (induction es arbitrary: offset)
  case (Cons e es)
  have k: "up8 offset + length e \<le> k" using Cons.prems(2) laid_end_ge[of "up8 offset + length e" es] by simp
  then show ?case using Cons.IH[of "up8 offset + length e"] Cons.prems slice_prefix[OF assms(2) k] assms(4) by simp
qed simp

lemma laid_end_mono: "a \<le> b \<Longrightarrow> laid_end a es \<le> laid_end b es"
  by (induction es arbitrary: a b) (auto simp: up8_bounds(3))

fun remaining :: "nat \<Rightarrow> nat \<Rightarrow> 'a list \<Rightarrow> 'a list" where
  "remaining i r [] = []"
| "remaining i r (e # es) = (if i = r then remaining (Suc i) r es else e # remaining (Suc i) r es)"

lemma remaining_past: "r < i \<Longrightarrow> remaining i r es = es"
  by (induction es arbitrary: i) auto

lemma remaining_eq: "remaining i (i + k) es = take k es @ drop (Suc k) es"
proof (induction es arbitrary: i k)
  case (Cons e es)
  show ?case
  proof (cases k)
    case 0
    then show ?thesis by (simp add: remaining_past)
  next
    case (Suc m)
    then show ?thesis using Cons.IH[of "Suc i" m] by simp
  qed
qed simp

lemma remaining_end: "laid_end a (remaining i r es) \<le> laid_end a es"
proof (induction es arbitrary: i a)
  case (Cons e es)
  have "a \<le> up8 a + length e" using up8_bounds(1)[of a] by simp
  then show ?case using Cons.IH[of a "Suc i"] Cons.IH[of "up8 a + length e" "Suc i"] laid_end_mono[of a "up8 a + length e" es] by auto
qed simp

section \<open>Edits implement list edits\<close>

text \<open>Placing an entry after a laid out prefix.\<close>

lemma place_entry:
  assumes "laid out 0 kept" "laid_end 0 kept = oo" "valid_entry e" "up8 oo + length e \<le> length out"
  shows "laid (splice_at (up8 oo) e (zero_gap oo (up8 oo) out)) 0 (kept @ [e])"
    "length (splice_at (up8 oo) e (zero_gap oo (up8 oo) out)) = length out"
proof -
  let ?z = "zero_gap oo (up8 oo) out" let ?o = "splice_at (up8 oo) e ?z"
  have g: "oo \<le> up8 oo" by (rule up8_bounds(1))
  have z: "length ?z = length out" using g assms(4) by (simp add: zero_gap_def)
  show l: "length ?o = length out" using z assms(4) by simp
  have "take oo ?o = take oo ?z" using z assms(4) g by (simp add: splice_at_def min_def)
  also have "\<dots> = take oo out" using assms(4) g by (simp add: zero_gap_def splice_at_def min_def)
  finally have "laid ?o 0 kept" using laid_prefix[OF assms(1)] assms(2,4) g l by simp
  moreover have "slice_at (up8 oo) (length e) ?o = e" using z assms(4) by simp
  ultimately show "laid ?o 0 (kept @ [e])" using assms(2-4) l by simp
qed

lemma without_from_laid:
  assumes t: "length table < 2 ^ 63" and o: "length out < 2 ^ 63"
    and "laid table io es" "io \<le> length table" "laid out 0 kept" "laid_end 0 kept = oo"
    and "laid_end oo (remaining i r es) \<le> length out"
  shows "\<exists>out'. without_from table (length es) i r io oo out = (Inr (laid_end oo (remaining i r es)), out') \<and>
    laid out' 0 (kept @ remaining i r es) \<and> length out' = length out"
  using assms(2-)
proof (induction es arbitrary: io i oo out kept)
  case (Cons e es)
  have b: "entry_bounds_at table io = Inr (up8 io, length e)"
    using Cons.prems(2,3) entry_bounds_iff[OF t Cons.prems(3), of "up8 io" "length e"] by (auto simp: valid_entry_def)
  have e: "slice_at (up8 io) (length e) table = e" "laid table (up8 io + length e) es" "up8 io + length e \<le> length table" "valid_entry e"
    using Cons.prems(2) by simp_all
  show ?case
  proof (cases "i = r")
    case True
    then show ?thesis using Cons.IH[OF Cons.prems(1) e(2,3) Cons.prems(4,5), of "Suc i"] Cons.prems(6) b by simp
  next
    case False
    let ?fin = "up8 oo + length e" let ?o = "splice_at (up8 oo) e (zero_gap oo (up8 oo) out)"
    have le: "?fin \<le> length out" using Cons.prems(6) False laid_end_ge[of ?fin "remaining (Suc i) r es"] by simp
    have P: "laid ?o 0 (kept @ [e])" "length ?o = length out" by (rule place_entry[OF Cons.prems(4,5) e(4) le])+
    have "round_up_8 oo = Some (up8 oo)" "usize_add (up8 oo) (length e) = Some ?fin"
      using le Cons.prems(1) up8_bounds(1)[of oo] by (auto simp: round_up_8_eq usize_add_def)
    then have step: "without_from table (length (e # es)) i r io oo out = without_from table (length es) (Suc i) r (up8 io + length e) ?fin ?o"
      using b False le e(1) by simp
    have "length ?o < 2 ^ 63" "laid_end 0 (kept @ [e]) = ?fin" "laid_end ?fin (remaining (Suc i) r es) \<le> length ?o"
      using P(2) Cons.prems(1,5,6) False by simp_all
    from Cons.IH[OF this(1) e(2,3) P(1) this(2,3)] show ?thesis using step False P(2) by simp
  qed
qed simp

lemma walk_taken:
  assumes "laid out 0 es" "laid_end 0 es \<le> length out" "length out < 2 ^ 63"
  shows "entries_from (take (laid_end 0 es) out) (length es) 0 = Inr es"
    "byte_len_from (take (laid_end 0 es) out) (length es) 0 = Inr (laid_end 0 es)"
proof -
  let ?t = "take (laid_end 0 es) out"
  have l: "laid ?t 0 es" by (rule laid_prefix[OF assms(1), where k = "laid_end 0 es"]) (use assms(2) in simp_all)
  have "length ?t < 2 ^ 63" using assms(3) by simp
  then show "entries_from ?t (length es) 0 = Inr es" "byte_len_from ?t (length es) 0 = Inr (laid_end 0 es)"
    using l entries_from_iff[of ?t 0 "length es" es] byte_len_laid[of ?t 0 es] by simp_all
qed

lemma append_laid:
  assumes "laid table 0 es" "laid_end 0 es \<le> length table" "valid_entry new" "up8 (laid_end 0 es) + length new \<le> length out"
    "length out < 2 ^ 63"
  shows "\<exists>out'. build_snapshot_table table (laid_end 0 es) new out = (Inr (laid_end 0 (es @ [new])), out') \<and>
    laid out' 0 (es @ [new]) \<and> length out' = length out"
proof -
  let ?len = "laid_end 0 es" let ?o = "splice_at 0 (take ?len table) out"
  have g: "?len \<le> up8 ?len" by (rule up8_bounds(1))
  have o: "length ?o = length out" "take ?len ?o = take ?len table" using assms(2,4) g by (simp_all add: splice_at_def min_def)
  have "laid ?o 0 es" by (rule laid_prefix[OF assms(1), where k = ?len]) (use o assms(4) g in simp_all)
  note P = place_entry[OF this refl assms(3), unfolded o(1), OF assms(4)]
  have "round_up_8 ?len = Some (up8 ?len)" "usize_add (up8 ?len) (length new) = Some (up8 ?len + length new)"
    using assms(4,5) g by (auto simp: round_up_8_eq usize_add_def)
  then show ?thesis using P o(1) assms(2,4) by (simp add: build_snapshot_table_def)
qed

section \<open>Lookup searches the list\<close>

definition entry_id :: "bytes \<Rightarrow> bytes" where
  "entry_id e = slice_at (40 + extra_at e 0) (id_size_at e 0) e"

definition entry_name :: "bytes \<Rightarrow> bytes" where
  "entry_name e = slice_at (40 + extra_at e 0 + id_size_at e 0) (name_size_at e 0) e"

definition entry_found :: "bytes list \<Rightarrow> nat \<Rightarrow> found_snapshot" where
  "entry_found es i = found_snapshot_at (es ! i) (of_nat i) 0 (extra_at (es ! i) 0)"

definition entry_key :: "bool \<Rightarrow> bytes \<Rightarrow> bytes" where
  "entry_key by_id e = (if by_id then entry_id e else entry_name e)"

text \<open>The first entry whose id (or name) is the needle.\<close>

definition first_match :: "bool \<Rightarrow> bytes \<Rightarrow> bytes list \<Rightarrow> found_snapshot option" where
  "first_match by_id needle es = map_option (entry_found es) (List.find (\<lambda>i. entry_key by_id (es ! i) = needle) [0..<length es])"

lemma key_at:
  assumes "valid_entry e" "slice_at s (length e) table = e" "s + length e \<le> length table"
  shows "(if by_id then slice_at (s + 40 + extra_at table s) (id_size_at table s) table
      else slice_at (s + 40 + extra_at table s + id_size_at table s) (name_size_at table s) table) = entry_key by_id e"
    "length (entry_key by_id e) = (if by_id then id_size_at table s else name_size_at table s)"
    "found_snapshot_at table i s (extra_at table s) = found_snapshot_at e i 0 (extra_at e 0)"
proof -
  have l: "40 \<le> length e" using assms(1) by (simp add: valid_entry_def)
  note f = fields_slice[OF l assms(3), unfolded assms(2)]
  have len: "length e = 40 + extra_at e 0 + id_size_at e 0 + name_size_at e 0" using assms(1) by (simp add: valid_entry_def)
  have sub: "slice_at (s + a) n table = slice_at a n e" if "a + n \<le> length e" for a n
    using slice_slice[OF that assms(3)] assms(2) by simp
  show "(if by_id then slice_at (s + 40 + extra_at table s) (id_size_at table s) table
      else slice_at (s + 40 + extra_at table s + id_size_at table s) (name_size_at table s) table) = entry_key by_id e"
    using sub[of "40 + extra_at e 0" "id_size_at e 0"] sub[of "40 + extra_at e 0 + id_size_at e 0" "name_size_at e 0"] len
    by (simp add: entry_key_def entry_id_def entry_name_def f[symmetric] add.assoc)
  show "length (entry_key by_id e) = (if by_id then id_size_at table s else name_size_at table s)"
    using len by (simp add: entry_key_def entry_id_def entry_name_def f[symmetric])
  have "slice_at (s + 48) 8 table = slice_at 48 8 e" if "16 \<le> extra_at e 0" using sub[of 48 8] that len by simp
  then show "found_snapshot_at table i s (extra_at table s) = found_snapshot_at e i 0 (extra_at e 0)"
    using sub[of 0 8] sub[of 8 4] l by (simp add: found_snapshot_at_def SNAPSHOT_HEADER_SIZE_def f[symmetric] add.assoc)
qed

lemma find_map: "List.find P (map f xs) = map_option f (List.find (P \<circ> f) xs)"
  by (induction xs) auto

lemma find_from_laid:
  assumes t: "length table < 2 ^ 63" and "laid table offset es" "offset \<le> length table"
  shows "find_from table (length es) i needle by_id offset =
    Inr (map_option (\<lambda>j. found_snapshot_at (es ! j) (of_nat (i + j)) 0 (extra_at (es ! j) 0))
      (List.find (\<lambda>j. entry_key by_id (es ! j) = needle) [0..<length es]))"
  using assms(2,3)
proof (induction es arbitrary: offset i)
  case (Cons e es)
  let ?s = "up8 offset"
  have b: "entry_bounds_at table offset = Inr (?s, length e)"
    using Cons.prems entry_bounds_iff[OF t Cons.prems(2), of ?s "length e"] by (auto simp: valid_entry_def)
  have e: "valid_entry e" "slice_at ?s (length e) table = e" "?s + length e \<le> length table" "laid table (?s + length e) es" using Cons.prems(1) by simp_all
  note K = key_at(1,2)[OF e(1-3)] and F = key_at(3)[OF e(1-3)]
  let ?P = "\<lambda>j. entry_key by_id ((e # es) ! j) = needle"
  have upt: "[0..<length (e # es)] = 0 # map Suc [0..<length es]" by (simp add: map_Suc_upt upt_conv_Cons del: upt_Suc)
  have find: "List.find ?P [0..<length (e # es)] = (if entry_key by_id e = needle then Some 0
      else map_option Suc (List.find (\<lambda>j. entry_key by_id (es ! j) = needle) [0..<length es]))"
    unfolding upt by (simp add: find_map comp_def)
  have match: "(if by_id then id_size_at table ?s else name_size_at table ?s) = length needle \<and>
      (if by_id then slice_at (?s + 40 + extra_at table ?s) (id_size_at table ?s) table
       else slice_at (?s + 40 + extra_at table ?s + id_size_at table ?s) (name_size_at table ?s) table) = needle
      \<longleftrightarrow> entry_key by_id e = needle" using K(2)[of by_id] unfolding K(1) by auto
  have step: "find_from table (length (e # es)) i needle by_id offset =
      (if entry_key by_id e = needle then Inr (Some (found_snapshot_at e (of_nat i) 0 (extra_at e 0)))
       else find_from table (length es) (Suc i) needle by_id (?s + length e))"
    unfolding match[symmetric] using b F by (cases by_id) (auto simp: SNAPSHOT_HEADER_SIZE_def Let_def)
  show ?case
  proof (cases "entry_key by_id e = needle")
    case True
    then show ?thesis unfolding step find by simp
  next
    case False
    then show ?thesis unfolding step find by (simp add: Cons.IH[OF e(4,3), of "Suc i"] option.map_comp comp_def del: of_nat_add of_nat_Suc)
  qed
qed simp

text \<open>A fresh entry reads back.\<close>

definition entry_segments :: "new_snapshot_entry \<Rightarrow> bytes list" where
  "entry_segments e = [be_enc 8 (unat (ne_l1_table_offset e)), be_enc 4 (unat (ne_l1_size e)), be_enc 2 (length (ne_id e)),
     be_enc 2 (length (ne_name e)), be_enc 4 (unat (ne_date_sec e)), be_enc 4 (unat (ne_date_nsec e)), be_enc 8 (unat (ne_vm_clock_nsec e)),
     be_enc 4 (unat (ne_vm_state_size e)), be_enc 4 24, be_enc 8 (unat (ne_vm_state_size_large e)), be_enc 8 (unat (ne_disk_size e)),
     be_enc 8 (unat (ne_icount e)), ne_id e, ne_name e]"





lemma segment_at: "slice_at (length (concat xs)) (length y) (concat xs @ y @ zs) = y"
  by (simp add: slice_at_def)

lemma segment:
  assumes "k < length bs" "off = length (concat (take k bs))" "n = length (bs ! k)"
  shows "slice_at off n (concat bs) = bs ! k"
proof -
  have "concat bs = concat (take k bs) @ bs ! k @ concat (drop (Suc k) bs)"
    using id_take_nth_drop[OF assms(1)] by (metis concat.simps(2) concat_append)
  then show ?thesis using segment_at[of "take k bs" "bs ! k"] assms(2,3) by metis
qed

lemma from_be_enc:
  "u32_from_be (be_enc 4 (unat (v :: u32))) = v" "n < 2 ^ 16 \<Longrightarrow> unat (u16_from_be (be_enc 2 n)) = n"
  "u64_from_be (be_enc 8 (unat (w :: u64))) = w" "unat (u32_from_be (be_enc 4 24)) = 24"
proof -
  have "unat v < 2 ^ 32" using unsigned_less[of v, where 'a = nat] by simp
  then show "u32_from_be (be_enc 4 (unat v)) = v" by (simp add: u32_from_be_def be_val_enc del: be_enc.simps)
  show "n < 2 ^ 16 \<Longrightarrow> unat (u16_from_be (be_enc 2 n)) = n" by (simp add: u16_from_be_def be_val_enc unat_of_nat del: be_enc.simps)
  show "u64_from_be (be_enc 8 (unat w)) = w" using u64_from_to_be[of w] by (simp add: u64_to_be_def)
  show "unat (u32_from_be (be_enc 4 24)) = 24" by (simp add: u32_from_be_def be_val_enc del: be_enc.simps)
qed

lemma serialized_entry:
  assumes "length (ne_id e) < 2 ^ 16" "length (ne_name e) < 2 ^ 16"
  defines "b \<equiv> concat (entry_segments e)"
  shows "valid_entry b" "entry_id b = ne_id e" "entry_name b = ne_name e"
    "found_snapshot_at b i 0 (extra_at b 0) = \<lparr>fs_index = i, fs_l1_table_offset = ne_l1_table_offset e, fs_l1_size = ne_l1_size e,
       fs_disk_size_or_zero = ne_disk_size e\<rparr>"
proof -
  note seg = segment[of _ "entry_segments e", folded b_def]
  have l: "length b = 64 + length (ne_id e) + length (ne_name e)" by (simp add: b_def entry_segments_def del: be_enc.simps)
  have s1: "slice_at 0 8 b = be_enc 8 (unat (ne_l1_table_offset e))" using seg[OF _ refl refl, of 0] by (simp add: entry_segments_def del: be_enc.simps)
  have s2: "slice_at 8 4 b = be_enc 4 (unat (ne_l1_size e))" using seg[OF _ refl refl, of 1] by (simp add: entry_segments_def del: be_enc.simps)
  have s3: "slice_at 12 2 b = be_enc 2 (length (ne_id e))" using seg[OF _ refl refl, of 2] by (simp add: entry_segments_def del: be_enc.simps)
  have s4: "slice_at 14 2 b = be_enc 2 (length (ne_name e))" using seg[OF _ refl refl, of 3] by (simp add: entry_segments_def del: be_enc.simps)
  have s5: "slice_at 36 4 b = be_enc 4 24" using seg[OF _ refl refl, of 8] by (simp add: entry_segments_def del: be_enc.simps)
  have s6: "slice_at 48 8 b = be_enc 8 (unat (ne_disk_size e))" using seg[OF _ refl refl, of 10] by (simp add: entry_segments_def del: be_enc.simps)
  have s7: "slice_at 64 (length (ne_id e)) b = ne_id e" using seg[OF _ refl refl, of 12] by (simp add: entry_segments_def del: be_enc.simps)
  have s8: "slice_at (64 + length (ne_id e)) (length (ne_name e)) b = ne_name e" using seg[OF _ refl refl, of 13] by (simp add: entry_segments_def del: be_enc.simps)
  note s = s1 s2 s3 s4 s5 s6 s7 s8
  have f: "extra_at b 0 = 24" "id_size_at b 0 = length (ne_id e)" "name_size_at b 0 = length (ne_name e)"
    using from_be_enc(2,4) assms(1,2) by (simp_all add: extra_at_def id_size_at_def name_size_at_def s del: be_enc.simps)
  show "valid_entry b" using l f by (simp add: valid_entry_def)
  show "entry_id b = ne_id e" "entry_name b = ne_name e" using s(7,8) f by (simp_all add: entry_id_def entry_name_def)
  show "found_snapshot_at b i 0 (extra_at b 0) = \<lparr>fs_index = i, fs_l1_table_offset = ne_l1_table_offset e, fs_l1_size = ne_l1_size e,
       fs_disk_size_or_zero = ne_disk_size e\<rparr>"
    using from_be_enc s f by (simp add: found_snapshot_at_def SNAPSHOT_HEADER_SIZE_def del: be_enc.simps)
qed

section \<open>Decimal strings\<close>

definition dec_val :: "nat \<Rightarrow> bytes \<Rightarrow> nat" where
  "dec_val a ds = foldl (\<lambda>a d. a * 10 + (unat d - 48)) a ds"

definition is_digit :: "u8 \<Rightarrow> bool" where
  "is_digit d \<longleftrightarrow> 48 \<le> d \<and> d \<le> 57"

lemma dec_val_ge: "a \<le> dec_val a ds"
proof (induction ds arbitrary: a)
  case (Cons d ds)
  have "a \<le> a * 10 + (unat d - 48)" by simp
  also have "\<dots> \<le> dec_val (a * 10 + (unat d - 48)) ds" by (rule Cons.IH)
  finally show ?case by (simp add: dec_val_def)
qed (simp add: dec_val_def)

lemma digit_value:
  assumes "is_digit d"
  shows "unat (ucast (d - 48) :: u64) = unat d - 48" "unat d - 48 < 10"
proof -
  have b: "48 \<le> unat d" "unat d \<le> 57" using assms by (auto simp: is_digit_def word_le_nat_alt)
  have "unat (d - 48) = unat d - 48" using b(1) by (subst unat_sub) (simp_all add: word_le_nat_alt)
  then show "unat (ucast (d - 48) :: u64) = unat d - 48" "unat d - 48 < 10"
    using b by (simp_all add: unsigned_ucast_eq take_bit_nat_eq_self)
qed

lemma parse_decimal_digits:
  assumes "list_all is_digit ds" "dec_val (unat v) ds < 2 ^ 64"
  shows "parse_decimal_from v ds = Some (of_nat (dec_val (unat v) ds))"
  using assms
proof (induction ds arbitrary: v)
  case (Cons d ds)
  have d: "is_digit d" using Cons.prems by simp
  let ?a = "unat v * 10 + (unat d - 48)"
  have lt: "?a < 2 ^ 64" using Cons.prems(2) dec_val_ge[of ?a ds] by (simp add: dec_val_def)
  have m: "checked_mul v 10 = Some (v * 10)" "unat (v * 10) = unat v * 10"
    using lt by (simp_all add: checked_mul_def unat_mult_small)
  have a: "checked_add (v * 10) (ucast (d - 48)) = Some (v * 10 + ucast (d - 48))" "unat (v * 10 + ucast (d - 48)) = ?a"
    using lt m(2) digit_value(1)[OF d] by (simp_all add: checked_add_def unat_add_small)
  show ?case using Cons.IH[of "v * 10 + ucast (d - 48)"] Cons.prems a m d by (simp add: is_digit_def dec_val_def)
qed (simp add: dec_val_def)

lemma decimal_digits_val:
  "list_all is_digit (decimal_digits v) \<and> dec_val 0 (rev (decimal_digits v)) = unat v"
proof (induction v rule: decimal_digits.induct)
  case (1 v)
  show ?case
  proof (cases "v = 0")
    case False
    let ?d = "48 + ucast (v mod 10) :: u8"
    have m: "unat (v mod 10) = unat v mod 10" by (simp add: unat_mod)
    have "unat (ucast (v mod 10) :: u8) = unat v mod 10" by (simp add: unsigned_ucast_eq take_bit_nat_eq_self m)
    then have d: "unat ?d = 48 + unat v mod 10" by (simp add: unat_word_ariths)
    then have "is_digit ?d" by (simp add: is_digit_def word_le_nat_alt)
    moreover have "unat (v div 10) = unat v div 10" by (simp add: unat_div)
    ultimately show ?thesis using 1[OF False] d False
      by (subst (1 2) decimal_digits.simps) (simp add: dec_val_def)
  qed (simp add: decimal_digits.simps dec_val_def)
qed

lemma decimal_digits_length: "length (decimal_digits v) \<le> 20"
proof -
  have "unat v < 10 ^ k \<Longrightarrow> length (decimal_digits v) \<le> k" for k
  proof (induction k arbitrary: v)
    case 0
    then have "v = 0" by (simp add: unat_eq_0)
    then show ?case by (simp add: decimal_digits.simps)
  next
    case (Suc k)
    have "unat (v div 10) < 10 ^ k" using Suc.prems by (simp add: unat_div less_mult_imp_div_less mult.commute)
    then show ?case using Suc.IH[of "v div 10"] by (subst decimal_digits.simps) simp
  qed
  moreover have "unat v < 10 ^ 20" using unat_u64_less[of v] by simp
  ultimately show ?thesis by blast
qed

section \<open>A concrete table\<close>

definition ex_entry :: "u8 \<Rightarrow> u64 \<Rightarrow> new_snapshot_entry" where
  "ex_entry c l1 = \<lparr>ne_l1_table_offset = l1, ne_l1_size = 1, ne_id = [c], ne_name = [c, 120], ne_date_sec = 0, ne_date_nsec = 0,
     ne_vm_clock_nsec = 0, ne_vm_state_size = 0, ne_vm_state_size_large = 0, ne_disk_size = 4096, ne_icount = 0\<rparr>"

text \<open>Two entries, of 67 bytes each; the second one starts at byte 72.\<close>

definition ex_table :: bytes where
  "ex_table = concat (entry_segments (ex_entry 49 65536)) @ replicate 5 0 @ concat (entry_segments (ex_entry 50 131072))"

definition ex_entries :: "bytes list" where
  "ex_entries = [concat (entry_segments (ex_entry 49 65536)), concat (entry_segments (ex_entry 50 131072))]"

lemma ex_entry_length: "length (concat (entry_segments (ex_entry c l1))) = 67"
  by (simp add: entry_segments_def ex_entry_def del: be_enc.simps)

lemma ex_table_length: "length ex_table = 139"
  by (simp add: ex_table_def ex_entry_length)

lemma ex_entry_valid: "valid_entry (concat (entry_segments (ex_entry c l1)))" "entry_id (concat (entry_segments (ex_entry c l1))) = [c]"
  "entry_name (concat (entry_segments (ex_entry c l1))) = [c, 120]"
  using serialized_entry[of "ex_entry c l1"] by (simp_all add: ex_entry_def)

lemma ex_table_laid: "laid ex_table 0 ex_entries" "laid_end 0 ex_entries = 139"
  by (simp_all add: ex_entries_def ex_entry_valid up8_def ex_entry_length ex_table_length)
    (simp_all add: ex_table_def slice_at_def ex_entry_length)

lemma ex_table_entries: "table_entries ex_table 2 = Inr ex_entries"
  using ex_table_laid entries_from_iff[of ex_table 0 2 ex_entries] by (simp add: table_entries_def ex_table_length) (simp add: ex_entries_def)

lemma ex_table_len: "snapshot_table_byte_len ex_table 2 = Inr 139"
proof -
  have "length ex_entries = 2" by (simp add: ex_entries_def)
  then show ?thesis using byte_len_laid[OF _ _ ex_table_laid(1)] by (simp only: snapshot_table_byte_len_def ex_table_laid(2) ex_table_length) simp
qed

section \<open>Properties\<close>

text \<open>(C34) Editing the snapshot table is editing the list of its entries: for a table that walks, appending an entry
  whose size fields are right, into a buffer with room for it, gives a table that walks as the old entries followed by the
  new one, and removing entry \<open>i\<close> gives a table that walks as the old entries without it, every other entry kept byte for
  byte; the returned length is the byte length of the new table in both cases.\<close>

theorem snapshot_table_edits:
  assumes "table_entries table nb = Inr es" "length table < 2 ^ 63" "length out < 2 ^ 63"
  shows "\<exists>len. snapshot_table_byte_len table nb = Inr len \<and>
    (nb \<noteq> - 1 \<and> valid_entry new \<and> up8 len + length new \<le> length out \<longrightarrow>
       (\<exists>total out'. build_snapshot_table table len new out = (Inr total, out') \<and>
          table_entries (take total out') (nb + 1) = Inr (es @ [new]) \<and> snapshot_table_byte_len (take total out') (nb + 1) = Inr total)) \<and>
    (i < nb \<and> len \<le> length out \<longrightarrow>
       (\<exists>total out'. build_snapshot_table_without table len nb i out = (Inr total, out') \<and>
          table_entries (take total out') (nb - 1) = Inr (take (unat i) es @ drop (Suc (unat i)) es) \<and>
          snapshot_table_byte_len (take total out') (nb - 1) = Inr total))"
proof -
  let ?len = "laid_end 0 es"
  have L: "length es = unat nb" "laid table 0 es" using assms(1,2) entries_from_iff[of table 0 "unat nb" es] by (auto simp: table_entries_def)
  have B: "snapshot_table_byte_len table nb = Inr ?len" "?len \<le> length table"
    using byte_len_laid[OF assms(2) _ L(2)] L(1) by (auto simp: snapshot_table_byte_len_def)
  have app: "\<exists>total out'. build_snapshot_table table ?len new out = (Inr total, out') \<and>
      table_entries (take total out') (nb + 1) = Inr (es @ [new]) \<and> snapshot_table_byte_len (take total out') (nb + 1) = Inr total"
    if a: "nb \<noteq> - 1" "valid_entry new" "up8 ?len + length new \<le> length out"
  proof -
    obtain out' where O: "build_snapshot_table table ?len new out = (Inr (laid_end 0 (es @ [new])), out')" "laid out' 0 (es @ [new])"
      "length out' = length out" using append_laid[OF L(2) B(2) a(2,3) assms(3)] by blast
    have "laid_end 0 (es @ [new]) \<le> length out'" using a(3) O(3) by simp
    note W = walk_taken[OF O(2) this, unfolded O(3), OF assms(3)]
    have "1 + nb \<noteq> 0" using a(1) by (metis add.commute add_eq_0_iff)
    then have "unat (nb + 1) = length (es @ [new])" using unatSuc[of nb] L(1) by (simp add: add.commute)
    then show ?thesis using O(1) W by (auto simp: table_entries_def snapshot_table_byte_len_def)
  qed
  have rm: "\<exists>total out'. build_snapshot_table_without table ?len nb i out = (Inr total, out') \<and>
      table_entries (take total out') (nb - 1) = Inr (take (unat i) es @ drop (Suc (unat i)) es) \<and>
      snapshot_table_byte_len (take total out') (nb - 1) = Inr total" if a: "i < nb" "?len \<le> length out"
  proof -
    let ?t = "take ?len table" let ?r = "remaining 0 (unat i) es"
    have t: "length ?t < 2 ^ 63" "laid ?t 0 es" using assms(2) B(2) laid_prefix[OF L(2), where k = ?len and t' = ?t] by simp_all
    have fit: "laid_end 0 ?r \<le> length out" using remaining_end[of 0 0 "unat i" es] a(2) by linarith
    obtain out' where O: "without_from ?t (length es) 0 (unat i) 0 0 out = (Inr (laid_end 0 ?r), out')" "laid out' 0 ?r" "length out' = length out"
      using without_from_laid[OF t(1) assms(3) t(2), of "[]" 0 0 "unat i"] fit by auto
    note W = walk_taken[OF O(2), unfolded O(3), OF fit assms(3)]
    have eq: "?r = take (unat i) es @ drop (Suc (unat i)) es" using remaining_eq[of 0 "unat i" es] by simp
    have lt: "unat i < unat nb" using a(1) by (simp add: word_less_nat_alt)
    then have "unat (nb - 1) = unat nb - 1" by (intro unat_minus_one) auto
    then have "unat (nb - 1) = length ?r" using L(1) lt by (simp add: eq)
    then show ?thesis using O(1) W B(2) L(1) a(1) eq by (auto simp: build_snapshot_table_without_def table_entries_def snapshot_table_byte_len_def)
  qed
  show ?thesis using B(1) app rm by blast
qed

theorem snapshot_table_edits_witness:
  "\<exists>total out'. build_snapshot_table_without ex_table 139 2 0 (replicate 139 0) = (Inr total, out') \<and>
     table_entries (take total out') 1 = Inr [concat (entry_segments (ex_entry 50 131072))]"
proof -
  show ?thesis using ex_table_len snapshot_table_edits[OF ex_table_entries, of "replicate 139 0" "[]" 0]
    by (auto simp: ex_table_length ex_entries_def)
qed



text \<open>(C35) Lookup searches the entries: on a table that walks, a lookup by name returns the first entry in table order whose
  full name is the needle, or nothing; the lookup of apply returns the first entry whose full id is the needle if there is one,
  even behind an entry that matches by name, and the first match by name otherwise.\<close>

theorem find_snapshot_first_match:
  assumes "table_entries table nb = Inr es" "length table < 2 ^ 63" "snapshot_table_byte_len table nb = Inr len"
  shows "find_snapshot_in_table table len nb needle NameOnly = Inr (first_match False needle es) \<and>
    find_snapshot_in_table table len nb needle IdThenName =
      Inr (case first_match True needle es of Some f \<Rightarrow> Some f | None \<Rightarrow> first_match False needle es)"
proof -
  have L: "length es = unat nb" "laid table 0 es" using assms(1,2) entries_from_iff[of table 0 "unat nb" es] by (auto simp: table_entries_def)
  have B: "len = laid_end 0 es" "len \<le> length table" using byte_len_laid[OF assms(2) _ L(2)] L(1) assms(3) by (auto simp: snapshot_table_byte_len_def)
  have "laid (take len table) 0 es" "length (take len table) < 2 ^ 63" using assms(2) B laid_prefix[OF L(2), where k = len and t' = "take len table"] by simp_all
  then have "find_pass (take len table) nb needle k = Inr (first_match k needle es)" for k
    using find_from_laid[of "take len table" 0 es 0 needle k] L(1) by (simp add: find_pass_def first_match_def entry_found_def[abs_def])
  then show ?thesis using B(2) by (simp add: find_snapshot_in_table_def split: option.split)
qed

theorem find_snapshot_first_match_witness:
  "find_snapshot_in_table ex_table 139 2 [50, 120] NameOnly =
     Inr (Some \<lparr>fs_index = 1, fs_l1_table_offset = 131072, fs_l1_size = 1, fs_disk_size_or_zero = 4096\<rparr>)"
proof -
  have "find_snapshot_in_table ex_table 139 2 [50, 120] NameOnly = Inr (first_match False [50, 120] ex_entries)"
    using find_snapshot_first_match[OF ex_table_entries _ ex_table_len] by (simp add: ex_table_length)
  then show ?thesis using serialized_entry(4)[of "ex_entry 50 131072" 1]
    by (simp add: first_match_def entry_found_def ex_entries_def upt_rec entry_key_def ex_entry_valid) (simp add: ex_entry_def)
qed

text \<open>(C37) Decimal ids survive: every 64-bit number is rendered in at most 20 digits, and parsing the rendered bytes gives
  the number back, without reporting an overflow.\<close>

theorem decimal_id_roundtrip:
  assumes "20 \<le> length out"
  shows "\<exists>n out'. format_decimal_u64 v out = (n, out') \<and> 0 < n \<and> n \<le> 20 \<and> parse_decimal_id (take n out') = Some v"
proof -
  let ?d = "if v = 0 then [48] else decimal_digits v"
  have l: "length ?d \<le> 20" "0 < length ?d" using decimal_digits_length[of v] decimal_digits.simps[of v] by auto
  have "list_all is_digit (rev ?d)" "dec_val 0 (rev ?d) = unat v" using decimal_digits_val[of v] by (auto simp: is_digit_def dec_val_def)
  then have "parse_decimal_from 0 (rev ?d) = Some v" using parse_decimal_digits[of "rev ?d" 0] unat_u64_less[of v] by simp
  then show ?thesis using l assms by (simp add: format_decimal_u64_def parse_decimal_id_def splice_at_def Let_def del: rev.simps)
qed

theorem decimal_id_roundtrip_witness:
  "\<exists>n out'. format_decimal_u64 1234 (replicate 20 0) = (n, out') \<and> parse_decimal_id (take n out') = Some 1234"
  using decimal_id_roundtrip[of "replicate 20 0" 1234] by auto

end
