(* ===== verification/Refcount_Growth.thy ===== *)
theory Refcount_Growth
  imports Instar_Base
begin

text \<open>
  The refcount growth planner (\<^verbatim>\<open>qcow2-write/src/growth.rs\<close>): how many refblocks, and whether a larger
  refcount table, a write run needs so that its worst case and the new structures themselves are
  covered.  The code iterates the end of the file to a fixed point in saturating arithmetic, for at most
  eight rounds; the lemmas show that for the geometries of qcow2 it is the least slot count that covers,
  and that eight rounds are enough.
\<close>

section \<open>The planner\<close>

datatype growth_overflow = GrowthOverflow

record growth_caps =
  gc_max_refblocks :: u64
  gc_max_refblock_clusters :: u64
  gc_max_rt_slots :: u64

record refcount_growth_plan =
  gp_needed_slots :: u64
  gp_new_refblocks :: u64
  gp_structures_start :: u64
  gp_new_rt_clusters :: u64
  gp_rt_start :: u64
  gp_refblocks_start :: u64
  gp_worst_end_clusters :: u64

definition GROWTH_FIXED_POINT_ROUNDS :: nat where
  "GROWTH_FIXED_POINT_ROUNDS = 8"

text \<open>The body of the loop: needed slots, new refblocks, new table clusters and the next end.\<close>

definition growth_round :: "u64 \<Rightarrow> u64 \<Rightarrow> u64 \<Rightarrow> u64 \<Rightarrow> u64 \<Rightarrow> u64 \<Rightarrow> u64 \<times> u64 \<times> u64 \<times> u64" where
  "growth_round epr cs populated rt_capacity base_end end_clusters =
     (let needed_slots = div_ceil end_clusters epr;
          new_refblocks = saturating_sub needed_slots populated;
          new_rt_clusters = (if rt_capacity < needed_slots then div_ceil (saturating_mul needed_slots 8) cs else 0)
      in (needed_slots, new_refblocks, new_rt_clusters,
          saturating_add (saturating_add base_end new_rt_clusters) new_refblocks))"

text \<open>\<open>None\<close> when the rounds run out before the end is stable.\<close>

fun growth_rounds :: "nat \<Rightarrow> u64 \<Rightarrow> u64 \<Rightarrow> u64 \<Rightarrow> u64 \<Rightarrow> u64 \<Rightarrow> u64 \<Rightarrow> (u64 \<times> u64 \<times> u64) option" where
  "growth_rounds 0 epr cs populated rt_capacity base_end end_clusters = None"
| "growth_rounds (Suc k) epr cs populated rt_capacity base_end end_clusters =
     (let (needed_slots, new_refblocks, new_rt_clusters, next_end) =
            growth_round epr cs populated rt_capacity base_end end_clusters in
      if next_end = end_clusters then Some (needed_slots, new_refblocks, new_rt_clusters)
      else growth_rounds k epr cs populated rt_capacity base_end next_end)"

definition plan_refcount_growth ::
    "u64 \<Rightarrow> u64 \<Rightarrow> u64 \<Rightarrow> u64 \<Rightarrow> u64 \<Rightarrow> u64 \<Rightarrow> growth_caps \<Rightarrow> growth_overflow + refcount_growth_plan" where
  "plan_refcount_growth epr cs file_end populated rt_capacity worst_case caps =
     (if epr = 0 \<or> cs = 0 then Inl GrowthOverflow
      else let base_end = saturating_add file_end worst_case; base_slots = div_ceil base_end epr in
      if base_slots \<le> populated then
        Inr \<lparr>gp_needed_slots = populated, gp_new_refblocks = 0, gp_structures_start = file_end,
             gp_new_rt_clusters = 0, gp_rt_start = file_end, gp_refblocks_start = file_end,
             gp_worst_end_clusters = saturating_mul populated epr\<rparr>
      else case growth_rounds GROWTH_FIXED_POINT_ROUNDS epr cs populated rt_capacity base_end base_end of
        None \<Rightarrow> Inl GrowthOverflow
      | Some (needed_slots, new_refblocks, new_rt_clusters) \<Rightarrow>
          if gc_max_refblocks caps < needed_slots \<or> gc_max_refblock_clusters caps < needed_slots
             \<or> gc_max_rt_slots caps < needed_slots
             \<or> saturating_mul (gc_max_rt_slots caps) 8 < saturating_mul new_rt_clusters cs
          then Inl GrowthOverflow
          else Inr \<lparr>gp_needed_slots = needed_slots, gp_new_refblocks = new_refblocks,
                 gp_structures_start = file_end, gp_new_rt_clusters = new_rt_clusters, gp_rt_start = file_end,
                 gp_refblocks_start = saturating_add file_end new_rt_clusters,
                 gp_worst_end_clusters = saturating_mul needed_slots epr\<rparr>)"

section \<open>What a plan must cover\<close>

definition cdiv :: "nat \<Rightarrow> nat \<Rightarrow> nat" where
  "cdiv a b = (a + b - 1) div b"

text \<open>Clusters of refcount table needed by \<open>n\<close> slots (none while the table on disk has room), and of all
  new structures.\<close>

definition rt_need :: "nat \<Rightarrow> nat \<Rightarrow> nat \<Rightarrow> nat" where
  "rt_need cs cap n = (if cap < n then cdiv (8 * n) cs else 0)"

definition structs :: "nat \<Rightarrow> nat \<Rightarrow> nat \<Rightarrow> nat \<Rightarrow> nat" where
  "structs cs pop cap n = rt_need cs cap n + (n - pop)"

text \<open>\<open>n\<close> refblocks cover the worst case and every structure that holds their refcounts.\<close>

definition covers :: "nat \<Rightarrow> nat \<Rightarrow> nat \<Rightarrow> nat \<Rightarrow> nat \<Rightarrow> nat \<Rightarrow> bool" where
  "covers epr cs pop cap base n \<longleftrightarrow> base + structs cs pop cap n \<le> n * epr"

lemma cdiv_le_iff: "0 < b \<Longrightarrow> cdiv a b \<le> k \<longleftrightarrow> a \<le> k * b"
proof -
  assume b: "0 < b"
  have "cdiv a b \<le> k \<longleftrightarrow> a + b - 1 < Suc k * b"
    unfolding cdiv_def using b by (simp add: div_less_iff_less_mult less_Suc_eq_le[symmetric])
  also have "\<dots> \<longleftrightarrow> a \<le> k * b" using b by auto
  finally show ?thesis .
qed

lemma cdiv_mult: "0 < b \<Longrightarrow> cdiv (k * b) b = k"
  using cdiv_le_iff[of b "k * b" k] cdiv_le_iff[of b "k * b" "k - 1"] by (cases k) (auto simp: cdiv_def)

lemma cdiv_ge: "0 < b \<Longrightarrow> a \<le> cdiv a b * b"
  using cdiv_le_iff[of b a "cdiv a b"] by simp

lemma cdiv_mono: "0 < b \<Longrightarrow> a \<le> a' \<Longrightarrow> cdiv a b \<le> cdiv a' b"
  by (simp add: cdiv_def div_le_mono)

lemma cdiv_add: "0 < b \<Longrightarrow> cdiv (a + d) b \<le> cdiv a b + cdiv d b"
  using cdiv_ge[of b a] cdiv_ge[of b d] by (simp add: cdiv_le_iff add_mult_distrib)

lemma unat_cdiv: "b \<noteq> 0 \<Longrightarrow> unat (div_ceil a b) = cdiv (unat a) (unat b)"
  by (simp add: unat_div_ceil cdiv_def)

lemma structs_mono: "0 < cs \<Longrightarrow> m \<le> n \<Longrightarrow> structs cs pop cap m \<le> structs cs pop cap n"
  unfolding structs_def rt_need_def using cdiv_mono[of cs "8 * m" "8 * n"] by (auto intro: add_mono diff_le_mono)

text \<open>Once the table moves (or if it never does), \<open>k\<close> more slots cost at most \<open>2 * k\<close> more clusters.\<close>

lemma structs_step:
  assumes "512 \<le> cs" "m \<le> n" "cap < m \<or> n \<le> cap"
  shows "structs cs pop cap n \<le> structs cs pop cap m + 2 * (n - m)"
proof -
  have cs: "0 < cs" using assms(1) by simp
  have "8 * (n - m) \<le> (n - m) * cs" using assms(1) by (simp add: mult.commute mult_le_mono1)
  then have "cdiv (8 * (n - m)) cs \<le> n - m" using cdiv_le_iff[OF cs] by simp
  moreover have "8 * n = 8 * m + 8 * (n - m)" using assms(2) by simp
  ultimately have "cdiv (8 * n) cs \<le> cdiv (8 * m) cs + (n - m)" using cdiv_add[OF cs, of "8 * m" "8 * (n - m)"] by simp
  then show ?thesis using assms(2,3) by (auto simp: structs_def rt_need_def)
qed

section \<open>The fixed point\<close>

definition grow :: "nat \<Rightarrow> nat \<Rightarrow> nat \<Rightarrow> nat \<Rightarrow> nat \<Rightarrow> nat \<Rightarrow> nat" where
  "grow epr cs pop cap base e = base + structs cs pop cap (cdiv e epr)"

lemma grow_mono: "0 < epr \<Longrightarrow> 0 < cs \<Longrightarrow> e \<le> e' \<Longrightarrow> grow epr cs pop cap base e \<le> grow epr cs pop cap base e'"
  by (simp add: grow_def structs_mono cdiv_mono)

lemma grow_at_slots: "0 < epr \<Longrightarrow> grow epr cs pop cap base (n * epr) = base + structs cs pop cap n"
  by (simp add: grow_def cdiv_mult)

lemma iter_below:
  assumes "0 < epr" "0 < cs" "covers epr cs pop cap base n"
  shows "(grow epr cs pop cap base ^^ i) base \<le> base + structs cs pop cap n"
proof (induction i)
  case (Suc i)
  have "(grow epr cs pop cap base ^^ i) base \<le> n * epr" using Suc assms(3) by (simp add: covers_def)
  from grow_mono[OF assms(1,2) this] show ?case by (simp add: grow_at_slots[OF assms(1)])
qed simp

lemma iter_slots:
  assumes "0 < epr" "0 < cs" "covers epr cs pop cap base n"
  shows "cdiv ((grow epr cs pop cap base ^^ i) base) epr \<le> n"
  using iter_below[OF assms, of i] assms(3) cdiv_le_iff[OF assms(1)] by (simp add: covers_def)

lemma iter_base: "base \<le> (grow epr cs pop cap base ^^ i) base"
  by (cases i) (simp_all add: grow_def)

text \<open>A fixed point reached from below is the least slot count that covers.\<close>

lemma fixed_point_least:
  assumes e: "0 < epr" "0 < cs" and e': "e = (grow epr cs pop cap base ^^ i) base" and fp: "grow epr cs pop cap base e = e"
  shows "covers epr cs pop cap base (cdiv e epr)" "\<forall>m. covers epr cs pop cap base m \<longrightarrow> cdiv e epr \<le> m"
proof -
  show "covers epr cs pop cap base (cdiv e epr)" using fp cdiv_ge[OF e(1), of e] by (simp add: covers_def grow_def)
  show "\<forall>m. covers epr cs pop cap base m \<longrightarrow> cdiv e epr \<le> m" using iter_slots[OF e] e' by blast
qed

text \<open>From the round where the table decision is final, three more rounds reach the fixed point.\<close>

lemma fixed_point_soon:
  fixes epr cs pop cap base :: nat
  defines "E \<equiv> \<lambda>i. (grow epr cs pop cap base ^^ i) base"
  assumes e: "256 \<le> epr" "512 \<le> cs" and N: "covers epr cs pop cap base N" "N \<le> 8192"
    and least: "\<forall>m. covers epr cs pop cap base m \<longrightarrow> N \<le> m" and reg: "cap < cdiv (E i) epr \<or> N \<le> cap"
  shows "grow epr cs pop cap base (E (i + 3)) = E (i + 3)"
proof -
  let ?G = "grow epr cs pop cap base" let ?n = "\<lambda>i. cdiv (E i) epr"
  have p: "0 < epr" "0 < cs" using e by simp_all
  have ES: "E (Suc j) = base + structs cs pop cap (?n j)" for j by (simp add: E_def grow_def)
  have le: "?n j \<le> N" for j unfolding E_def by (rule iter_slots[OF p N(1)])
  have mono: "E j \<le> E (Suc j)" for j
  proof (induction j)
    case (Suc j)
    then show ?case using grow_mono[OF p, of "E j" "E (Suc j)"] by (simp add: E_def)
  qed (simp add: E_def grow_def)
  have nm: "?n j \<le> ?n (Suc j)" for j by (rule cdiv_mono[OF p(1) mono])
  have top: "base + structs cs pop cap N \<le> N * epr" using N(1) by (simp add: covers_def)
  have gap: "N \<le> ?n j + cdiv (base + structs cs pop cap N - E j) epr" for j
  proof -
    have "cdiv (base + structs cs pop cap N) epr \<le> ?n j + cdiv (base + structs cs pop cap N - E j) epr"
      using cdiv_add[OF p(1), of "E j" "base + structs cs pop cap N - E j"] iter_below[OF p N(1), of j] by (simp add: E_def)
    moreover have "N \<le> cdiv (base + structs cs pop cap N) epr"
    proof -
      let ?m = "cdiv (base + structs cs pop cap N) epr"
      have "?m \<le> N" using top cdiv_le_iff[OF p(1)] by simp
      then have "base + structs cs pop cap ?m \<le> base + structs cs pop cap N" using structs_mono[OF p(2)] by simp
      also have "\<dots> \<le> ?m * epr" by (rule cdiv_ge[OF p(1)])
      finally show ?thesis using least by (simp add: covers_def)
    qed
    ultimately show ?thesis by simp
  qed
  have "structs cs pop cap N \<le> 2 * 8192"
  proof -
    have "8 * N \<le> N * cs" using e(2) by (simp add: mult.commute mult_le_mono1)
    then have "cdiv (8 * N) cs \<le> N" using cdiv_le_iff[OF p(2)] by simp
    then show ?thesis using N(2) by (auto simp: structs_def rt_need_def)
  qed
  then have s0: "base + structs cs pop cap N - E i \<le> 64 * epr" using iter_base[of base i epr cs pop cap] e(1) by (simp add: E_def)
  have g0: "N \<le> ?n i + 64" using gap[of i] s0 cdiv_le_iff[OF p(1), of "base + structs cs pop cap N - E i" 64] by simp
  have r: "cap < ?n i \<or> N \<le> cap" using reg .
  have "structs cs pop cap N \<le> structs cs pop cap (?n i) + 2 * (N - ?n i)" by (rule structs_step[OF e(2) le r])
  then have "base + structs cs pop cap N - E (Suc i) \<le> 1 * epr" using g0 e(1) by (simp add: ES)
  then have g1: "N \<le> Suc (?n (Suc i))" using gap[of "Suc i"] cdiv_le_iff[OF p(1), of "base + structs cs pop cap N - E (Suc i)" 1] by simp
  have "?n (Suc (Suc i)) = ?n (Suc i) \<or> ?n (Suc (Suc i)) = N" using g1 nm[of "Suc i"] le[of "Suc (Suc i)"] by linarith
  then have "?n (Suc (Suc i)) = ?n (Suc (Suc (Suc i))) \<or> ?n (Suc (Suc i)) = ?n (Suc i)"
    using nm[of "Suc (Suc i)"] le[of "Suc (Suc (Suc i))"] by linarith
  then have "E (Suc (Suc (Suc (Suc i)))) = E (Suc (Suc (Suc i)))" by (metis ES)
  then show ?thesis by (simp add: E_def numeral_3_eq_3)
qed

lemma covers_bound:
  assumes "256 \<le> epr" "512 \<le> cs" "base \<le> 4096 * epr"
  shows "covers epr cs pop cap base 8192"
proof -
  have "cdiv (8 * 8192) cs \<le> 128" using cdiv_le_iff[of cs "8 * 8192" 128] assms(2) by simp
  then have "structs cs pop cap 8192 \<le> 128 + 8192" by (auto simp: structs_def rt_need_def)
  then show ?thesis using assms(1,3) by (simp add: covers_def)
qed

lemma least_cover:
  assumes "covers epr cs pop cap base b"
  obtains N where "covers epr cs pop cap base N" "N \<le> b" "\<forall>m. covers epr cs pop cap base m \<longrightarrow> N \<le> m"
proof -
  let ?P = "covers epr cs pop cap base"
  show ?thesis by (rule that[of "LEAST n. ?P n"]) (use assms in \<open>auto intro: LeastI Least_le\<close>)
qed

text \<open>While the table on disk has room, the iteration is the one that never moves the table.\<close>

lemma iter_no_table:
  assumes "cap \<le> c" "\<forall>j<i. cdiv ((grow epr cs pop cap base ^^ j) base) epr \<le> cap"
  shows "(grow epr cs pop cap base ^^ i) base = (grow epr cs pop c base ^^ i) base"
  using assms(2)
proof (induction i)
  case (Suc i)
  let ?e = "(grow epr cs pop cap base ^^ i) base"
  have "cdiv ?e epr \<le> cap" using Suc.prems by simp
  then have "grow epr cs pop cap base ?e = grow epr cs pop c base ?e" using assms(1) by (simp add: grow_def structs_def rt_need_def)
  then show ?case using Suc by simp
qed simp

lemma rounds_suffice:
  assumes e: "256 \<le> epr" "512 \<le> cs" "base \<le> 4096 * epr"
  shows "\<exists>j\<le>6. grow epr cs pop cap base ((grow epr cs pop cap base ^^ j) base) = (grow epr cs pop cap base ^^ j) base"
proof -
  let ?E = "\<lambda>i. (grow epr cs pop cap base ^^ i) base"
  obtain N where N: "covers epr cs pop cap base N" "N \<le> 8192" "\<forall>m. covers epr cs pop cap base m \<longrightarrow> N \<le> m"
    by (rule least_cover[OF covers_bound[OF e]])
  note soon = fixed_point_soon[OF e(1,2) N]
  show ?thesis
  proof (cases "\<exists>i\<le>3. cap < cdiv (?E i) epr")
    case True
    then obtain i where i: "i \<le> 3" "cap < cdiv (?E i) epr" by blast
    then show ?thesis using soon[of i] by (intro exI[of _ "i + 3"]) simp
  next
    case False
    let ?c = "max cap 8192" let ?F = "\<lambda>i. (grow epr cs pop ?c base ^^ i) base"
    have eq: "?E i = ?F i" if "i \<le> 4" for i using False that by (intro iter_no_table) (auto simp: not_less)
    obtain M where M: "covers epr cs pop ?c base M" "M \<le> 8192" "\<forall>m. covers epr cs pop ?c base m \<longrightarrow> M \<le> m"
      by (rule least_cover[OF covers_bound[OF e]])
    have "grow epr cs pop ?c base (?F 3) = ?F 3" using fixed_point_soon[OF e(1,2) M, of 0] M(2) by (simp add: le_max_iff_disj)
    then have "?F (Suc 3) = ?F 3" by (simp only: funpow.simps comp_apply)
    then have "?E (Suc 3) = ?E 3" using eq[of "Suc 3"] eq[of 3] by simp
    then have "grow epr cs pop cap base (?E 3) = ?E 3" by (simp only: funpow.simps comp_apply)
    then show ?thesis by (intro exI[of _ 3]) simp
  qed
qed

section \<open>The loop in saturating arithmetic\<close>

definition slots_of :: "nat \<Rightarrow> nat \<Rightarrow> nat \<Rightarrow> nat \<Rightarrow> (u64 \<times> u64 \<times> u64) \<Rightarrow> bool" where
  "slots_of cs pop cap n r \<longleftrightarrow> (case r of (needed, rb, rt) \<Rightarrow>
     unat needed = n \<and> unat rb = n - pop \<and> unat rt = rt_need cs cap n)"

lemma growth_round_nat:
  fixes epr cs pop cap base end_c :: u64
  assumes e: "epr \<noteq> 0" "512 \<le> unat cs" and n: "cdiv (unat end_c) (unat epr) \<le> 8192" and b: "unat base \<le> 2 ^ 62"
  shows "\<exists>needed rb rt nxt. growth_round epr cs pop cap base end_c = (needed, rb, rt, nxt) \<and>
    slots_of (unat cs) (unat pop) (unat cap) (cdiv (unat end_c) (unat epr)) (needed, rb, rt) \<and>
    unat nxt = grow (unat epr) (unat cs) (unat pop) (unat cap) (unat base) (unat end_c)"
proof -
  let ?n = "cdiv (unat end_c) (unat epr)"
  have cs: "cs \<noteq> 0" using e(2) by (cases "cs = 0") auto
  have nd: "unat (div_ceil end_c epr) = ?n" by (rule unat_cdiv[OF e(1)])
  have "unat (saturating_mul (div_ceil end_c epr) 8) = 8 * ?n" using n by (simp add: unat_saturating_mul nd)
  then have rt: "unat (if cap < div_ceil end_c epr then div_ceil (saturating_mul (div_ceil end_c epr) 8) cs else 0) = rt_need (unat cs) (unat cap) ?n"
    by (simp add: rt_need_def word_less_nat_alt nd unat_cdiv[OF cs])
  have "8 * ?n \<le> 128 * unat cs" using n e(2) by simp
  then have "rt_need (unat cs) (unat cap) ?n \<le> 128" using e(2) cdiv_le_iff[of "unat cs" "8 * ?n" 128] by (simp add: rt_need_def)
  then show ?thesis using b n rt
    by (simp add: growth_round_def Let_def slots_of_def nd unat_saturating_sub unat_saturating_add grow_def structs_def)
qed

lemma growth_rounds_nat:
  fixes epr cs pop cap base end_c :: u64
  assumes e: "epr \<noteq> 0" "512 \<le> unat cs" and b: "unat base \<le> 2 ^ 62"
    and cov: "covers (unat epr) (unat cs) (unat pop) (unat cap) (unat base) 8192"
    and E: "unat end_c = (grow (unat epr) (unat cs) (unat pop) (unat cap) (unat base) ^^ i) (unat base)"
    and fp: "\<exists>j<k. grow (unat epr) (unat cs) (unat pop) (unat cap) (unat base) ((grow (unat epr) (unat cs) (unat pop) (unat cap) (unat base) ^^ j) (unat end_c))
        = (grow (unat epr) (unat cs) (unat pop) (unat cap) (unat base) ^^ j) (unat end_c)"
  shows "\<exists>r n. growth_rounds k epr cs pop cap base end_c = Some r \<and> slots_of (unat cs) (unat pop) (unat cap) n r \<and>
    covers (unat epr) (unat cs) (unat pop) (unat cap) (unat base) n \<and>
    (\<forall>m. covers (unat epr) (unat cs) (unat pop) (unat cap) (unat base) m \<longrightarrow> n \<le> m)"
  using E fp
proof (induction k arbitrary: end_c i)
  case (Suc k)
  let ?G = "grow (unat epr) (unat cs) (unat pop) (unat cap) (unat base)"
  have p: "0 < unat epr" "0 < unat cs" using e by (simp_all add: unat_gt_0[symmetric] del: unat_gt_0)
  have "cdiv (unat end_c) (unat epr) \<le> 8192" using iter_slots[OF p cov, of i] Suc.prems(1) by simp
  from growth_round_nat[OF e this b, of pop cap] obtain needed rb rt nxt where
    R: "growth_round epr cs pop cap base end_c = (needed, rb, rt, nxt)"
      "slots_of (unat cs) (unat pop) (unat cap) (cdiv (unat end_c) (unat epr)) (needed, rb, rt)" "unat nxt = ?G (unat end_c)" by blast
  show ?case
  proof (cases "nxt = end_c")
    case True
    then have "?G (unat end_c) = unat end_c" using R(3) by simp
    from fixed_point_least[OF p Suc.prems(1) this] show ?thesis using R True by (auto simp: Let_def)
  next
    case False
    then have ne: "?G (unat end_c) \<noteq> unat end_c" using R(3) by (metis word_unat_eq_iff)
    obtain j where j: "j < Suc k" "?G ((?G ^^ j) (unat end_c)) = (?G ^^ j) (unat end_c)" using Suc.prems(2) by blast
    obtain j' where j': "j = Suc j'" using ne j(2) by (cases j) auto
    have "?G ((?G ^^ j') (unat nxt)) = (?G ^^ j') (unat nxt)" using j(2) by (simp add: R(3) j' funpow_swap1)
    then have "\<exists>j<k. ?G ((?G ^^ j) (unat nxt)) = (?G ^^ j) (unat nxt)" using j(1) j' by blast
    moreover have "unat nxt = (?G ^^ Suc i) (unat base)" using R(3) Suc.prems(1) by simp
    ultimately show ?thesis using Suc.IH[of nxt "Suc i"] R False by (simp add: Let_def)
  qed
qed simp

lemma growth_rounds_from:
  assumes "epr \<noteq> 0" "growth_rounds k epr cs pop cap base e = Some (needed, rb, rt)" "unat base \<le> unat e"
  shows "cdiv (unat base) (unat epr) \<le> unat needed"
  using assms(2,3)
proof (induction k arbitrary: e)
  case (Suc k)
  have nd: "cdiv (unat base) (unat epr) \<le> unat (div_ceil e epr)"
    using Suc.prems(2) cdiv_mono[of "unat epr"] assms(1) by (simp add: unat_cdiv unat_gt_0)
  have up: "unat base \<le> unat (saturating_add (saturating_add base x) y)" for x y
    using unat_u64_less[of base] by (simp add: unat_saturating_add)
  show ?case using Suc.prems(1) nd Suc.IH up by (auto simp: growth_round_def Let_def split: if_splits)
qed simp

text \<open>The staging budget of \<open>n\<close> slots.\<close>

definition fits_caps :: "nat \<Rightarrow> nat \<Rightarrow> growth_caps \<Rightarrow> nat \<Rightarrow> bool" where
  "fits_caps cs cap caps n \<longleftrightarrow> n \<le> unat (gc_max_refblocks caps) \<and> n \<le> unat (gc_max_refblock_clusters caps) \<and>
     n \<le> unat (gc_max_rt_slots caps) \<and> rt_need cs cap n * cs \<le> 8 * unat (gc_max_rt_slots caps)"

lemma fits_caps_mono: "0 < cs \<Longrightarrow> m \<le> n \<Longrightarrow> fits_caps cs cap caps n \<Longrightarrow> fits_caps cs cap caps m"
proof -
  assume a: "0 < cs" "m \<le> n" "fits_caps cs cap caps n"
  have "rt_need cs cap m \<le> rt_need cs cap n" using a(1,2) cdiv_mono[of cs "8 * m" "8 * n"] by (auto simp: rt_need_def)
  from mult_le_mono1[OF this, of cs] show ?thesis using a unfolding fits_caps_def by linarith
qed

lemma growth_plan_spec:
  fixes epr cs fe pop cap w :: u64 and caps
  defines "base \<equiv> unat fe + unat w"
  defines "C \<equiv> covers (unat epr) (unat cs) (unat pop) (unat cap) base"
  assumes e: "256 \<le> unat epr" "unat cs = 2 * unat epr" "unat epr \<le> 2 ^ 20"
    and pm: "gc_max_refblocks caps \<le> 4096" and grows: "unat pop * unat epr < base" and pop: "pop \<le> gc_max_refblocks caps"
  shows "case plan_refcount_growth epr cs fe pop cap w caps of
      Inl _ \<Rightarrow> \<not> (\<exists>n. C n \<and> fits_caps (unat cs) (unat cap) caps n)
    | Inr p \<Rightarrow> C (unat (gp_needed_slots p)) \<and> fits_caps (unat cs) (unat cap) caps (unat (gp_needed_slots p)) \<and>
        (\<forall>m. C m \<longrightarrow> unat (gp_needed_slots p) \<le> m) \<and>
        unat (gp_new_refblocks p) = unat (gp_needed_slots p) - unat pop \<and>
        unat (gp_new_rt_clusters p) = rt_need (unat cs) (unat cap) (unat (gp_needed_slots p)) \<and>
        gp_structures_start p = fe \<and> gp_rt_start p = fe \<and>
        unat (gp_refblocks_start p) = unat fe + unat (gp_new_rt_clusters p) \<and>
        unat (gp_worst_end_clusters p) = unat (gp_needed_slots p) * unat epr"
proof -
  have nz: "epr \<noteq> 0" "cs \<noteq> 0" using e(1,2) by (cases "epr = 0"; auto)+
  have p: "0 < unat epr" "0 < unat cs" using e by simp_all
  let ?b = "saturating_add fe w"
  have b: "unat ?b = min base (2 ^ 64 - 1)" by (simp add: unat_saturating_add base_def)
  have m4: "unat (gc_max_refblocks caps) \<le> 4096" using pm by (simp add: word_le_nat_alt)
  then have p4: "unat pop \<le> 4096" using pop by (simp add: word_le_nat_alt)
  have "unat pop * unat epr \<le> 4096 * 2 ^ 20" using mult_le_mono[OF p4 e(3)] .
  then have "unat pop * unat epr < unat ?b" using grows b by simp
  then have short: "\<not> div_ceil ?b epr \<le> pop" by (simp add: word_le_nat_alt unat_cdiv[OF nz(1)] cdiv_le_iff[OF p(1)])
  show ?thesis
  proof (cases "base \<le> 4096 * unat epr")
    case False
    have "\<not> (C n \<and> fits_caps (unat cs) (unat cap) caps n)" for n
    proof
      assume "C n \<and> fits_caps (unat cs) (unat cap) caps n"
      then have "base \<le> n * unat epr" "n \<le> 4096" using m4 by (auto simp: C_def covers_def fits_caps_def)
      then show False using False mult_le_mono1[OF \<open>n \<le> 4096\<close>, of "unat epr"] by linarith
    qed
    moreover have "plan_refcount_growth epr cs fe pop cap w caps = Inl GrowthOverflow"
    proof (cases "growth_rounds GROWTH_FIXED_POINT_ROUNDS epr cs pop cap ?b ?b")
      case None
      then show ?thesis using nz short by (simp add: plan_refcount_growth_def Let_def)
    next
      case (Some r)
      obtain needed rb rt where r: "r = (needed, rb, rt)" by (cases r)
      have "4096 * unat epr \<le> 4096 * 2 ^ 20" using e(3) by simp
      then have "4096 * unat epr < unat ?b" using False b by simp
      then have "\<not> unat needed \<le> 4096"
        using growth_rounds_from[OF nz(1) Some[unfolded r] order_refl] cdiv_le_iff[OF p(1), of "unat ?b" 4096] by simp
      then have "gc_max_refblocks caps < needed" using m4 by (simp add: word_less_nat_alt)
      then show ?thesis using nz short Some r by (simp add: plan_refcount_growth_def Let_def)
    qed
    ultimately show ?thesis by simp
  next
    case True
    have e512: "512 \<le> unat cs" using e by simp
    have "4096 * unat epr \<le> 2 ^ 32" using e(3) by simp
    then have b2: "unat ?b = base" "unat ?b \<le> 2 ^ 62" using b True by simp_all
    have cov: "covers (unat epr) (unat cs) (unat pop) (unat cap) (unat ?b) 8192" using covers_bound[OF e(1) e512 True] b2 by simp
    let ?G = "grow (unat epr) (unat cs) (unat pop) (unat cap) (unat ?b)"
    obtain j where "j \<le> 6" "?G ((?G ^^ j) (unat ?b)) = (?G ^^ j) (unat ?b)"
      using rounds_suffice[OF e(1) e512 True, of "unat pop" "unat cap"] b2(1) by auto
    then have "\<exists>j<8. ?G ((?G ^^ j) (unat ?b)) = (?G ^^ j) (unat ?b)" by (intro exI[of _ j]) simp
    from growth_rounds_nat[OF nz(1) e512 b2(2) cov _ this, of 0] obtain r n where
      R: "growth_rounds 8 epr cs pop cap ?b ?b = Some r" "slots_of (unat cs) (unat pop) (unat cap) n r" "C n"
         "\<forall>m. C m \<longrightarrow> n \<le> m" by (auto simp: C_def b2(1))
    obtain needed rb rt where r: "r = (needed, rb, rt)" by (cases r)
    have n: "unat needed = n" "unat rb = n - unat pop" "unat rt = rt_need (unat cs) (unat cap) n" using R(2) by (simp_all add: r slots_of_def)
    have n8: "n \<le> 8192" using R(4) cov by (simp add: C_def b2(1))
    have "8 * n \<le> 128 * unat cs" using n8 e512 by simp
    then have rt128: "rt_need (unat cs) (unat cap) n \<le> 128" using p(2) cdiv_le_iff[of "unat cs" "8 * n" 128] by (simp add: rt_need_def)
    have c21: "unat cs \<le> 2 ^ 21" using e(2,3) by simp
    note big = mult_le_mono[OF rt128 c21] mult_le_mono[OF n8 e(3)]
    have fits: "(gc_max_refblocks caps < needed \<or> gc_max_refblock_clusters caps < needed \<or> gc_max_rt_slots caps < needed
       \<or> saturating_mul (gc_max_rt_slots caps) 8 < saturating_mul rt cs) \<longleftrightarrow> \<not> fits_caps (unat cs) (unat cap) caps n"
      using big by (auto simp: fits_caps_def word_less_nat_alt unat_saturating_mul n not_le mult.commute)
    show ?thesis
    proof (cases "fits_caps (unat cs) (unat cap) caps n")
      case True
      have "unat fe + rt_need (unat cs) (unat cap) n < 2 ^ 64" using b2 rt128 by (simp add: base_def)
      then show ?thesis using True fits nz short R r n big
        by (simp add: plan_refcount_growth_def Let_def GROWTH_FIXED_POINT_ROUNDS_def unat_saturating_add unat_saturating_mul)
    next
      case False
      then have "plan_refcount_growth epr cs fe pop cap w caps = Inl GrowthOverflow" using fits nz short R r
        by (simp add: plan_refcount_growth_def Let_def GROWTH_FIXED_POINT_ROUNDS_def)
      moreover have "\<not> (C m \<and> fits_caps (unat cs) (unat cap) caps m)" for m using R(4) False fits_caps_mono[OF p(2)] by blast
      ultimately show ?thesis by simp
    qed
  qed
qed

section \<open>Properties\<close>

text \<open>(C31) Growth is exact: for the cluster sizes of qcow2 (512 bytes to 2 MiB, 16-bit refcounts), a staging
  budget of at most 4096 slots, and a run that the populated refblocks do not cover, the planner returns
  the least number of refblocks that covers the worst case together with the new refblocks and the
  relocated table themselves, laid out contiguously from the end of the file; and it refuses only when no
  covering number of refblocks fits the budget.  No bound is assumed on the file or on the worst case.\<close>

theorem growth_plan_exact:
  fixes epr cs fe pop cap w :: u64
  assumes "256 \<le> unat epr" "unat cs = 2 * unat epr" "unat epr \<le> 2 ^ 20"
    and "gc_max_refblocks caps \<le> 4096" "unat pop * unat epr < unat fe + unat w" "pop \<le> gc_max_refblocks caps"
  shows "case plan_refcount_growth epr cs fe pop cap w caps of
      Inl _ \<Rightarrow> \<not> (\<exists>n. covers (unat epr) (unat cs) (unat pop) (unat cap) (unat fe + unat w) n \<and>
                      fits_caps (unat cs) (unat cap) caps n)
    | Inr p \<Rightarrow>
        covers (unat epr) (unat cs) (unat pop) (unat cap) (unat fe + unat w) (unat (gp_needed_slots p)) \<and>
        fits_caps (unat cs) (unat cap) caps (unat (gp_needed_slots p)) \<and>
        (\<forall>m. covers (unat epr) (unat cs) (unat pop) (unat cap) (unat fe + unat w) m \<longrightarrow> unat (gp_needed_slots p) \<le> m) \<and>
        unat (gp_new_refblocks p) = unat (gp_needed_slots p) - unat pop \<and>
        unat (gp_new_rt_clusters p) = rt_need (unat cs) (unat cap) (unat (gp_needed_slots p)) \<and>
        gp_structures_start p = fe \<and> gp_rt_start p = fe \<and>
        unat (gp_refblocks_start p) = unat fe + unat (gp_new_rt_clusters p) \<and>
        unat (gp_worst_end_clusters p) = unat (gp_needed_slots p) * unat epr"
  by (rule growth_plan_spec[OF assms])

lemma ex_growth_rounds: "growth_rounds (Suc (Suc (Suc k))) 256 512 1 64 64768 64768 = growth_rounds k 256 512 1 64 64768 65026"
  "growth_rounds (Suc k) 256 512 1 64 64768 65026 = Some (255, 254, 4)"
  by (simp_all add: growth_round_def Let_def saturating_add_def saturating_mul_def saturating_sub_def div_ceil_def)

theorem growth_plan_exact_witness:
  "plan_refcount_growth 256 512 253 1 64 64515 \<lparr>gc_max_refblocks = 2048, gc_max_refblock_clusters = 8192, gc_max_rt_slots = 65536\<rparr> =
     Inr \<lparr>gp_needed_slots = 255, gp_new_refblocks = 254, gp_structures_start = 253, gp_new_rt_clusters = 4, gp_rt_start = 253,
       gp_refblocks_start = 257, gp_worst_end_clusters = 65280\<rparr> \<and>
   covers 256 512 1 64 64768 255 \<and> \<not> covers 256 512 1 64 64768 254"
proof -
  let ?caps = "\<lparr>gc_max_refblocks = 2048, gc_max_refblock_clusters = 8192, gc_max_rt_slots = 65536\<rparr>"
  have R: "growth_rounds GROWTH_FIXED_POINT_ROUNDS 256 512 1 64 64768 64768 = Some (255, 254, 4)"
    using ex_growth_rounds(1)[of "Suc 4"] ex_growth_rounds(2)[of 4] by (simp add: GROWTH_FIXED_POINT_ROUNDS_def)
  have P: "plan_refcount_growth 256 512 253 1 64 64515 ?caps =
     Inr \<lparr>gp_needed_slots = 255, gp_new_refblocks = 254, gp_structures_start = 253, gp_new_rt_clusters = 4, gp_rt_start = 253,
       gp_refblocks_start = 257, gp_worst_end_clusters = 65280\<rparr>"
    using R by (simp add: word_le_nat_alt[of _ 1] plan_refcount_growth_def Let_def saturating_add_def saturating_mul_def div_ceil_def del: growth_rounds.simps)
  have "covers 256 512 1 64 64768 255 \<and> (\<forall>m. covers 256 512 1 64 64768 m \<longrightarrow> 255 \<le> m)"
    using growth_plan_exact[of 256 512 ?caps 1 253 64515 64] unfolding P by simp
  then have "covers 256 512 1 64 64768 255" "covers 256 512 1 64 64768 254 \<longrightarrow> (255 :: nat) \<le> 254" by blast+
  then show ?thesis using P by simp
qed




end
