(* ===== verification/Growth_Exec.thy ===== *)
theory Growth_Exec
  imports Step_Frame Refcount_Growth
begin

text \<open>
  Refcount growth against a device (\<^verbatim>\<open>qcow2-write-exec/src/growth.rs\<close>): the staged refcount table is extended,
  the new refblocks are zeroed, refcounted and written out, then the table, then (when the table moved) the
  header pointer, and last the freed clusters of the old table.  \<open>None\<close> is a panic of the source (an index out of
  range or a division by zero); an error return keeps what was already staged and written.
\<close>

section \<open>State\<close>

datatype growth_exec_error = StageOutOfCoverage | GrowthWriteFailed | GrowthFsyncFailed

record refcount_table =
  rt_offset :: u64
  rt_clusters :: u32

record growth_buffers =
  gb_refcount_table :: bytes
  gb_refblocks :: bytes
  gb_rmw_sector :: bytes

record growth_exec =
  gx_cluster_size :: u64
  gx_entries_per_refblock :: u64
  gx_refblock_count :: nat
  gx_dirty :: "u64 list"

definition growth_exec_new :: "u64 \<Rightarrow> u64 \<Rightarrow> nat \<Rightarrow> growth_exec" where
  "growth_exec_new cs epr n = \<lparr>gx_cluster_size = cs, gx_entries_per_refblock = epr, gx_refblock_count = n,
     gx_dirty = replicate (MAX_REFBLOCKS div 64) 0\<rparr>"

definition gx_dirty_set :: "growth_exec \<Rightarrow> nat \<Rightarrow> growth_exec option" where
  "gx_dirty_set gx slot =
     (let ws = gx_dirty gx; k = slot div 64 in
      if k < length ws then Some (gx\<lparr>gx_dirty := ws[k := ws ! k OR shl 1 (slot mod 64)]\<rparr>) else None)"

text \<open>The flush loop clears and reads bits of words it has already indexed.\<close>

definition gx_dirty_clear :: "growth_exec \<Rightarrow> nat \<Rightarrow> growth_exec" where
  "gx_dirty_clear gx slot = gx\<lparr>gx_dirty := (gx_dirty gx)[slot div 64 := gx_dirty gx ! (slot div 64) AND NOT (shl 1 (slot mod 64))]\<rparr>"

definition gx_dirty_get :: "growth_exec \<Rightarrow> nat \<Rightarrow> bool" where
  "gx_dirty_get gx slot \<longleftrightarrow> gx_dirty gx ! (slot div 64) AND shl 1 (slot mod 64) \<noteq> 0"

section \<open>Staging\<close>

definition stage_refcount :: "growth_exec \<Rightarrow> bytes \<Rightarrow> u64 \<Rightarrow> u64 \<Rightarrow> (bool \<times> growth_exec \<times> bytes) option" where
  "stage_refcount gx refblocks cluster value =
     (if gx_entries_per_refblock gx = 0 then None
      else let slot = unat (cluster div gx_entries_per_refblock gx) in
        if gx_refblock_count gx \<le> slot then Some (False, gx, refblocks)
        else let cs = unat (gx_cluster_size gx) in
          if length refblocks < slot * cs + cs then None
          else case set_refcount_in_block (slice_at (slot * cs) cs refblocks) (cluster mod gx_entries_per_refblock gx) 16 value of
              Inl e \<Rightarrow> Some (False, gx, refblocks)
            | Inr block \<Rightarrow>
                (case gx_dirty_set gx slot of
                   None \<Rightarrow> None
                 | Some gx' \<Rightarrow> Some (True, gx', splice_at (slot * cs) block refblocks)))"

fun stage_range :: "nat \<Rightarrow> growth_exec \<Rightarrow> bytes \<Rightarrow> u64 \<Rightarrow> u64 \<Rightarrow> (bool \<times> growth_exec \<times> bytes) option" where
  "stage_range 0 gx refblocks first value = Some (True, gx, refblocks)"
| "stage_range (Suc n) gx refblocks first value =
     (case stage_refcount gx refblocks first value of
        None \<Rightarrow> None
      | Some (False, gx', rb) \<Rightarrow> Some (False, gx', rb)
      | Some (True, gx', rb) \<Rightarrow> stage_range n gx' rb (first + 1) value)"

text \<open>The entries of the new slots in the staged table: slot \<open>old_slots + j\<close> points at the \<open>j\<close>-th new refblock.\<close>

fun stage_entries :: "nat \<Rightarrow> nat \<Rightarrow> u64 \<Rightarrow> u64 \<Rightarrow> bytes \<Rightarrow> bytes option" where
  "stage_entries 0 slot cluster cs rt = Some rt"
| "stage_entries (Suc n) slot cluster cs rt =
     (if length rt < slot * 8 + 8 then None
      else stage_entries n (Suc slot) (cluster + 1) cs (splice_at (slot * 8) (u64_to_be (cluster * cs)) rt))"

fun mark_dirty :: "nat \<Rightarrow> nat \<Rightarrow> growth_exec \<Rightarrow> growth_exec option" where
  "mark_dirty 0 slot gx = Some gx"
| "mark_dirty (Suc n) slot gx = Option.bind (gx_dirty_set gx slot) (mark_dirty n (Suc slot))"

definition rt_image_len :: "growth_exec \<Rightarrow> refcount_growth_plan \<Rightarrow> nat" where
  "rt_image_len gx plan = (if 0 < gp_new_rt_clusters plan then unat (gp_new_rt_clusters plan * gx_cluster_size gx)
     else unat (gp_needed_slots plan) * 8)"

definition stage_table :: "growth_exec \<Rightarrow> refcount_growth_plan \<Rightarrow> bytes \<Rightarrow> bytes option" where
  "stage_table gx plan rt =
     (let n = rt_image_len gx plan; old_slots = gx_refblock_count gx in
      if length rt < n then None
      else if 0 < gp_new_rt_clusters plan \<and> n < old_slots * 8 then None
      else let image = (if 0 < gp_new_rt_clusters plan then take (old_slots * 8) rt @ replicate (n - old_slots * 8) 0 else take n rt) in
        map_option (\<lambda>image. image @ drop n rt)
          (stage_entries (unat (gp_new_refblocks plan)) old_slots (gp_refblocks_start plan) (gx_cluster_size gx) image))"

definition stage_refblocks :: "growth_exec \<Rightarrow> refcount_growth_plan \<Rightarrow> bytes \<Rightarrow> (bool \<times> growth_exec \<times> bytes) option" where
  "stage_refblocks gx plan refblocks =
     (let cs = unat (gx_cluster_size gx); old_slots = gx_refblock_count gx; new_slots = unat (gp_needed_slots plan) in
      if new_slots * cs < old_slots * cs \<or> length refblocks < new_slots * cs then None
      else case stage_range (unat (gp_new_rt_clusters plan + gp_new_refblocks plan)) (gx\<lparr>gx_refblock_count := new_slots\<rparr>)
             (splice_at (old_slots * cs) (replicate ((new_slots - old_slots) * cs) 0) refblocks) (gp_structures_start plan) 1 of
          None \<Rightarrow> None
        | Some (False, gx', rb) \<Rightarrow> Some (False, gx', rb)
        | Some (True, gx', rb) \<Rightarrow> map_option (\<lambda>gx2. (True, gx2, rb)) (mark_dirty (new_slots - old_slots) old_slots gx'))"

section \<open>Writing\<close>

function flush_refblocks_from :: "'d device_io \<Rightarrow> target_device \<Rightarrow> bytes \<Rightarrow> bytes \<Rightarrow> nat \<Rightarrow> growth_exec \<Rightarrow> bytes \<Rightarrow> 'd \<Rightarrow>
    (bool \<times> growth_exec \<times> bytes \<times> 'd) option" where
  "flush_refblocks_from io dev rt refblocks slot gx rmw d =
     (if gx_refblock_count gx \<le> slot then Some (True, gx, rmw, d)
      else if length (gx_dirty gx) \<le> slot div 64 then None
      else if slot mod 64 = 0 \<and> gx_dirty gx ! (slot div 64) = 0 then flush_refblocks_from io dev rt refblocks (slot + 64) gx rmw d
      else if gx_dirty_get gx slot then
        (let cs = unat (gx_cluster_size gx) in
         case read_u64_be rt (slot * 8) of
           None \<Rightarrow> None
         | Some entry \<Rightarrow>
             if length refblocks < slot * cs + cs then None
             else case write_bytes io dev (entry AND L1_OFFSET_MASK) (slice_at (slot * cs) cs refblocks) rmw d of
                 (Inl e, rmw', d') \<Rightarrow> Some (False, gx, rmw', d')
               | (Inr u, rmw', d') \<Rightarrow>
                   flush_refblocks_from io dev rt refblocks (slot + 1)
                     (gx_dirty_clear gx slot) rmw' d')
      else flush_refblocks_from io dev rt refblocks (slot + 1) gx rmw d)"
  by pat_completeness auto
termination
  by (relation "measure (\<lambda>(io, dev, rt, refblocks, slot, gx, rmw, d). gx_refblock_count gx - slot)") (auto simp: gx_dirty_clear_def)

declare flush_refblocks_from.simps [simp del]

definition flush_dirty_refblocks :: "'d device_io \<Rightarrow> target_device \<Rightarrow> bytes \<Rightarrow> bytes \<Rightarrow> growth_exec \<Rightarrow> bytes \<Rightarrow> 'd \<Rightarrow>
    (bool \<times> growth_exec \<times> bytes \<times> 'd) option" where
  "flush_dirty_refblocks io dev rt refblocks gx rmw d = flush_refblocks_from io dev rt refblocks 0 gx rmw d"

definition durability :: "'d device_io \<Rightarrow> target_device \<Rightarrow> 'd \<Rightarrow> (growth_exec_error + unit) \<times> 'd" where
  "durability io dev d = (case io_fsync io d dev of (Some False, d') \<Rightarrow> (Inl GrowthFsyncFailed, d') | (q, d') \<Rightarrow> (Inr (), d'))"

text \<open>The range of the table that goes to disk, and where.\<close>

definition table_image :: "growth_exec \<Rightarrow> nat \<Rightarrow> refcount_growth_plan \<Rightarrow> refcount_table \<Rightarrow> bytes \<Rightarrow> u64 \<times> bytes" where
  "table_image gx old_slots plan rt_table rt =
     (if 0 < gp_new_rt_clusters plan then (gp_rt_start plan * gx_cluster_size gx, take (unat (gp_new_rt_clusters plan * gx_cluster_size gx)) rt)
      else (rt_offset rt_table + of_nat (old_slots * 8), slice_at (old_slots * 8) ((gx_refblock_count gx - old_slots) * 8) rt))"

definition header_patch :: "growth_exec \<Rightarrow> refcount_growth_plan \<Rightarrow> bytes" where
  "header_patch gx plan = u64_to_be (gp_rt_start plan * gx_cluster_size gx) @ be_enc 4 (unat (ucast (gp_new_rt_clusters plan) :: u32))"

type_synonym 'd growth_result = "((growth_exec_error + unit) \<times> growth_exec \<times> growth_buffers \<times> 'd) option"

text \<open>Header flip, and the old table freed and persisted.\<close>

definition relocate_table :: "'d device_io \<Rightarrow> target_device \<Rightarrow> growth_exec \<Rightarrow> refcount_growth_plan \<Rightarrow> refcount_table \<Rightarrow> growth_buffers \<Rightarrow> 'd \<Rightarrow>
    'd growth_result" where
  "relocate_table io dev gx plan rt_table bufs d =
     (case write_bytes io dev 48 (header_patch gx plan) (gb_rmw_sector bufs) d of
        (Inl e, rmw, d1) \<Rightarrow> Some (Inl GrowthWriteFailed, gx, bufs\<lparr>gb_rmw_sector := rmw\<rparr>, d1)
      | (Inr u, rmw, d1) \<Rightarrow>
          let bufs1 = bufs\<lparr>gb_rmw_sector := rmw\<rparr> in
          (case durability io dev d1 of
             (Inl e, d2) \<Rightarrow> Some (Inl e, gx, bufs1, d2)
           | (Inr v, d2) \<Rightarrow>
               if gx_cluster_size gx = 0 then None
               else (case stage_range (unat (rt_clusters rt_table)) gx (gb_refblocks bufs1) (rt_offset rt_table div gx_cluster_size gx) 0 of
                  None \<Rightarrow> None
                | Some (False, gx', rb) \<Rightarrow> Some (Inl StageOutOfCoverage, gx', bufs1\<lparr>gb_refblocks := rb\<rparr>, d2)
                | Some (True, gx', rb) \<Rightarrow>
                    (case flush_dirty_refblocks io dev (gb_refcount_table bufs1) rb gx' rmw d2 of
                       None \<Rightarrow> None
                     | Some (ok, gx2, rmw2, d3) \<Rightarrow>
                         Some (if ok then Inr () else Inl GrowthWriteFailed, gx2, bufs1\<lparr>gb_refblocks := rb, gb_rmw_sector := rmw2\<rparr>, d3)))))"

text \<open>Refblocks, then the table, then the barrier.\<close>

definition publish_table :: "'d device_io \<Rightarrow> target_device \<Rightarrow> growth_exec \<Rightarrow> nat \<Rightarrow> refcount_growth_plan \<Rightarrow> refcount_table \<Rightarrow> growth_buffers \<Rightarrow> 'd \<Rightarrow>
    'd growth_result" where
  "publish_table io dev gx old_slots plan rt_table bufs d =
     (case flush_dirty_refblocks io dev (gb_refcount_table bufs) (gb_refblocks bufs) gx (gb_rmw_sector bufs) d of
        None \<Rightarrow> None
      | Some (False, gx1, rmw1, d1) \<Rightarrow> Some (Inl GrowthWriteFailed, gx1, bufs\<lparr>gb_rmw_sector := rmw1\<rparr>, d1)
      | Some (True, gx1, rmw1, d1) \<Rightarrow>
          let (off, image) = table_image gx1 old_slots plan rt_table (gb_refcount_table bufs) in
          (case write_bytes io dev off image rmw1 d1 of
             (Inl e, rmw2, d2) \<Rightarrow> Some (Inl GrowthWriteFailed, gx1, bufs\<lparr>gb_rmw_sector := rmw2\<rparr>, d2)
           | (Inr u, rmw2, d2) \<Rightarrow>
               (case durability io dev d2 of
                  (r, d3) \<Rightarrow> Some (r, gx1, bufs\<lparr>gb_rmw_sector := rmw2\<rparr>, d3))))"

definition grow_refcounts :: "'d device_io \<Rightarrow> target_device \<Rightarrow> growth_exec \<Rightarrow> refcount_growth_plan \<Rightarrow> refcount_table \<Rightarrow> growth_buffers \<Rightarrow> 'd \<Rightarrow>
    'd growth_result" where
  "grow_refcounts io dev gx plan rt_table bufs d =
     (case stage_table gx plan (gb_refcount_table bufs) of
        None \<Rightarrow> None
      | Some rt \<Rightarrow>
          (case stage_refblocks gx plan (gb_refblocks bufs) of
             None \<Rightarrow> None
           | Some (False, gx1, rb) \<Rightarrow> Some (Inl StageOutOfCoverage, gx1, bufs\<lparr>gb_refcount_table := rt, gb_refblocks := rb\<rparr>, d)
           | Some (True, gx1, rb) \<Rightarrow>
               (case publish_table io dev gx1 (gx_refblock_count gx) plan rt_table (bufs\<lparr>gb_refcount_table := rt, gb_refblocks := rb\<rparr>) d of
                  None \<Rightarrow> None
                | Some (Inl e, gx2, bufs2, d2) \<Rightarrow> Some (Inl e, gx2, bufs2, d2)
                | Some (Inr u, gx2, bufs2, d2) \<Rightarrow>
                    if 0 < gp_new_rt_clusters plan then relocate_table io dev gx2 plan rt_table bufs2 d2
                    else Some (Inr (), gx2, bufs2, d2))))"

section \<open>Staging keeps track of what it changes\<close>

abbreviation gx_dirty_at :: "growth_exec \<Rightarrow> nat \<Rightarrow> bool" where
  "gx_dirty_at gx k \<equiv> bitset_get (gx_dirty gx) k"

lemma gx_dirty_get_iff: "gx_dirty_get gx k = gx_dirty_at gx k"
  by (simp add: gx_dirty_get_def bitset_get_bit shl_def and_exp_eq_0_iff_not_bit push_bit_eq_mult)

text \<open>The geometry of a growth: 16-bit refcounts, at most 2048 refblocks of one cluster each, all of them in the buffer.\<close>

definition gx_ok :: "growth_exec \<Rightarrow> bytes \<Rightarrow> bool" where
  "gx_ok gx rb \<longleftrightarrow> 256 \<le> unat (gx_entries_per_refblock gx) \<and> unat (gx_entries_per_refblock gx) \<le> 2 ^ 20 \<and>
     unat (gx_cluster_size gx) = 2 * unat (gx_entries_per_refblock gx) \<and> gx_refblock_count gx \<le> 2048 \<and>
     length (gx_dirty gx) = 32 \<and> gx_refblock_count gx * unat (gx_cluster_size gx) \<le> length rb"

definition gx_same :: "growth_exec \<Rightarrow> growth_exec \<Rightarrow> bool" where
  "gx_same gx gx' \<longleftrightarrow> gx_cluster_size gx' = gx_cluster_size gx \<and> gx_entries_per_refblock gx' = gx_entries_per_refblock gx \<and>
     gx_refblock_count gx' = gx_refblock_count gx \<and> length (gx_dirty gx') = length (gx_dirty gx)"

lemma gx_same_simps:
  assumes "gx_same gx gx'"
  shows "gx_cluster_size gx' = gx_cluster_size gx" "gx_entries_per_refblock gx' = gx_entries_per_refblock gx"
    "gx_refblock_count gx' = gx_refblock_count gx" "length (gx_dirty gx') = length (gx_dirty gx)"
    "length rb' = length rb \<Longrightarrow> gx_ok gx' rb' = gx_ok gx rb"
  using assms by (auto simp: gx_same_def gx_ok_def)

lemma gx_same_refl [simp]: "gx_same gx gx"
  by (simp add: gx_same_def)

lemma gx_same_trans: "gx_same a b \<Longrightarrow> gx_same b c \<Longrightarrow> gx_same a c"
  by (auto simp: gx_same_def)

abbreviation gx_block :: "growth_exec \<Rightarrow> bytes \<Rightarrow> nat \<Rightarrow> bytes" where
  "gx_block gx rb k \<equiv> slice_at (k * unat (gx_cluster_size gx)) (unat (gx_cluster_size gx)) rb"

lemma block_in:
  assumes "gx_ok gx rb" "k < gx_refblock_count gx"
  shows "k * unat (gx_cluster_size gx) + unat (gx_cluster_size gx) \<le> length rb" "k div 64 < length (gx_dirty gx)"
proof -
  have "Suc k * unat (gx_cluster_size gx) \<le> gx_refblock_count gx * unat (gx_cluster_size gx)" using assms(2) by (intro mult_le_mono1) simp
  moreover have "gx_refblock_count gx * unat (gx_cluster_size gx) \<le> length rb" using assms(1) unfolding gx_ok_def by blast
  ultimately show "k * unat (gx_cluster_size gx) + unat (gx_cluster_size gx) \<le> length rb" unfolding mult_Suc by linarith
  show "k div 64 < length (gx_dirty gx)" using assms by (simp add: gx_ok_def less_mult_imp_div_less)
qed

lemma gx_dirty_set_ok:
  assumes "k div 64 < length (gx_dirty gx)"
  obtains gx' where "gx_dirty_set gx k = Some gx'" "gx_same gx gx'" "\<And>j. gx_dirty_at gx' j \<longleftrightarrow> j = k \<or> gx_dirty_at gx j"
  using assms that[of "gx\<lparr>gx_dirty := (gx_dirty gx)[k div 64 := gx_dirty gx ! (k div 64) OR shl 1 (k mod 64)]\<rparr>"]
  by (auto simp: gx_dirty_set_def gx_same_def Let_def bitset_get_set)

text \<open>What staging may do to the blocks: a block that changed is dirty.\<close>

definition tracked :: "growth_exec \<Rightarrow> bytes \<Rightarrow> growth_exec \<Rightarrow> bytes \<Rightarrow> bool" where
  "tracked gx rb gx' rb' \<longleftrightarrow> gx_same gx gx' \<and> length rb' = length rb \<and>
     (\<forall>k<gx_refblock_count gx. (gx_dirty_at gx k \<longrightarrow> gx_dirty_at gx' k) \<and> (\<not> gx_dirty_at gx' k \<longrightarrow> gx_block gx rb' k = gx_block gx rb k))"

lemma tracked_refl [simp]: "tracked gx rb gx rb"
  by (simp add: tracked_def)

lemma tracked_trans: "tracked a x b y \<Longrightarrow> tracked b y c z \<Longrightarrow> tracked a x c z"
  by (auto simp: tracked_def gx_same_simps intro: gx_same_trans)

lemma stage_refcount_ok:
  assumes ok: "gx_ok gx rb" and c: "unat c < gx_refblock_count gx * unat (gx_entries_per_refblock gx)" and v: "unat v < 2 ^ 16"
  obtains gx' where "stage_refcount gx rb c v = Some (True, gx', splice_at (2 * unat c) (be_enc 2 (unat v)) rb)"
    "tracked gx rb gx' (splice_at (2 * unat c) (be_enc 2 (unat v)) rb)" "2 * unat c + 2 \<le> length rb"
proof -
  let ?e = "gx_entries_per_refblock gx" let ?cs = "unat (gx_cluster_size gx)" let ?k = "unat c div unat ?e" let ?rb = "splice_at (2 * unat c) (be_enc 2 (unat v)) rb"
  have e: "0 < unat ?e" "?cs = 2 * unat ?e" "?e \<noteq> 0" using ok by (auto simp: gx_ok_def)
  have k: "?k < gx_refblock_count gx" using c e(1) by (simp add: div_less_iff_less_mult)
  note b = block_in[OF ok k]
  have fo: "?k * ?cs + unat c mod unat ?e * 2 = 2 * unat c" by (rule flat_offset[OF e(2,1)])
  have m: "unat c mod unat ?e * 2 + 2 \<le> ?cs"
  proof -
    have "unat c mod unat ?e < unat ?e" using e(1) by simp
    then show ?thesis using e(2) by linarith
  qed
  have len: "2 * unat c + 2 \<le> length rb" using fo m b(1) by linarith
  have set: "set_refcount_in_block (gx_block gx rb ?k) (c mod ?e) 16 v = Inr (splice_at (unat c mod unat ?e * 2) (be_enc 2 (unat v)) (gx_block gx rb ?k))"
    using set_wide [of 16 2] m b(1) v by (simp add: unat_mod)
  have sp: "splice_at (?k * ?cs) (splice_at (unat c mod unat ?e * 2) (be_enc 2 (unat v)) (gx_block gx rb ?k)) rb = ?rb"
    using b(1) m fo by (simp add: splice_slice)
  obtain gx' where D: "gx_dirty_set gx ?k = Some gx'" "gx_same gx gx'" "\<And>j. gx_dirty_at gx' j \<longleftrightarrow> j = ?k \<or> gx_dirty_at gx j"
    using gx_dirty_set_ok[OF b(2)] by blast
  have out: "gx_block gx ?rb j = gx_block gx rb j" if "j < gx_refblock_count gx" "j \<noteq> ?k" for j
  proof (rule slice_splice_disjoint)
    show "2 * unat c + length (be_enc 2 (unat v)) \<le> length rb" "j * ?cs + ?cs \<le> length rb" using len block_in(1)[OF ok that(1)] by simp_all
    have "j * ?cs + ?cs \<le> ?k * ?cs \<or> ?k * ?cs + ?cs \<le> j * ?cs"
    proof (cases "j < ?k")
      case True
      then have "Suc j * ?cs \<le> ?k * ?cs" by (intro mult_le_mono1) simp
      then show ?thesis by simp
    next
      case False
      then have "Suc ?k * ?cs \<le> j * ?cs" using that(2) by (intro mult_le_mono1) simp
      then show ?thesis by simp
    qed
    then show "j * ?cs + ?cs \<le> 2 * unat c \<or> 2 * unat c + length (be_enc 2 (unat v)) \<le> j * ?cs" using fo m by auto
  qed
  show ?thesis
  proof (rule that)
    show "stage_refcount gx rb c v = Some (True, gx', ?rb)" using e(3) k b(1) set sp D(1) by (simp add: stage_refcount_def Let_def unat_div)
    show "tracked gx rb gx' ?rb" using D out len by (auto simp: tracked_def)
  qed (rule len)
qed

lemma stage_range_ok:
  assumes "gx_ok gx rb" "unat c + n \<le> gx_refblock_count gx * unat (gx_entries_per_refblock gx)" "unat v < 2 ^ 16"
  shows "\<exists>gx' rb'. stage_range n gx rb c v = Some (True, gx', rb') \<and> tracked gx rb gx' rb' \<and>
    (\<forall>j. 2 * j + 2 \<le> length rb \<longrightarrow> rc_flat rb' j = (if unat c \<le> j \<and> j < unat c + n then unat v else rc_flat rb j))"
  using assms(1,2)
proof (induction n arbitrary: gx rb c)
  case 0
  have "\<not> (unat c \<le> k \<and> k < unat c + 0)" for k by simp
  then show ?case by simp
next
  case (Suc n)
  let ?rb = "splice_at (2 * unat c) (be_enc 2 (unat v)) rb"
  have lt: "unat c < gx_refblock_count gx * unat (gx_entries_per_refblock gx)" using Suc.prems(2) by simp
  obtain gx' where S: "stage_refcount gx rb c v = Some (True, gx', ?rb)" "tracked gx rb gx' ?rb" "2 * unat c + 2 \<le> length rb"
    using stage_refcount_ok[OF Suc.prems(1) lt assms(3)] by blast
  have T: "gx_same gx gx'" "length ?rb = length rb" using S(2) by (auto simp: tracked_def)
  note q = gx_same_simps[OF T(1)]
  have "gx_refblock_count gx * unat (gx_entries_per_refblock gx) \<le> 2048 * 1048576" using Suc.prems(1) by (intro mult_le_mono) (auto simp: gx_ok_def)
  then have "unat c + 1 < 2 ^ 64" using lt by simp
  then have c1: "unat (c + 1) = unat c + 1" using unat_add_small[of c 1] by simp
  have "gx_ok gx' ?rb" using Suc.prems(1) q(5)[OF T(2)] by simp
  moreover have "unat (c + 1) + n \<le> gx_refblock_count gx' * unat (gx_entries_per_refblock gx')" using Suc.prems(2) c1 q by simp
  ultimately obtain gx2 rb2 where R: "stage_range n gx' ?rb (c + 1) v = Some (True, gx2, rb2)" "tracked gx' ?rb gx2 rb2"
    "\<forall>j. 2 * j + 2 \<le> length ?rb \<longrightarrow> rc_flat rb2 j = (if unat (c + 1) \<le> j \<and> j < unat (c + 1) + n then unat v else rc_flat ?rb j)"
    using Suc.IH[of gx' ?rb "c + 1"] by blast
  have "rc_flat rb2 j = (if unat c \<le> j \<and> j < unat c + Suc n then unat v else rc_flat rb j)" if "2 * j + 2 \<le> length rb" for j
    using R(3) that T(2) rc_flat_splice[OF S(3) that assms(3)] c1 by auto
  then show ?case using S(1) R(1) tracked_trans[OF S(2) R(2)] by auto
qed

lemma mark_dirty_ok:
  assumes "slot + n \<le> 64 * length (gx_dirty gx)"
  shows "\<exists>gx'. mark_dirty n slot gx = Some gx' \<and> gx_same gx gx' \<and>
    (\<forall>k. gx_dirty_at gx' k \<longleftrightarrow> slot \<le> k \<and> k < slot + n \<or> gx_dirty_at gx k)"
  using assms
proof (induction n arbitrary: slot gx)
  case 0
  have e: "(slot \<le> k \<and> k < slot) = False" for k by simp
  show ?case by (simp add: e)
next
  case (Suc n)
  have "slot div 64 < length (gx_dirty gx)" using Suc.prems by (simp add: less_mult_imp_div_less mult.commute)
  then obtain gx' where D: "gx_dirty_set gx slot = Some gx'" "gx_same gx gx'" "\<And>j. gx_dirty_at gx' j \<longleftrightarrow> j = slot \<or> gx_dirty_at gx j"
    using gx_dirty_set_ok by blast
  have "Suc slot + n \<le> 64 * length (gx_dirty gx')" using Suc.prems D(2) by (simp add: gx_same_simps)
  then obtain gx2 where R: "mark_dirty n (Suc slot) gx' = Some gx2" "gx_same gx' gx2"
    "\<forall>k. gx_dirty_at gx2 k \<longleftrightarrow> Suc slot \<le> k \<and> k < Suc slot + n \<or> gx_dirty_at gx' k" using Suc.IH by blast
  have "gx_dirty_at gx2 k \<longleftrightarrow> slot \<le> k \<and> k < slot + Suc n \<or> gx_dirty_at gx k" for k using R(3) D(3) by auto
  then show ?case using D(1) R(1) gx_same_trans[OF D(2) R(2)] by simp
qed

lemma stage_entries_ok:
  assumes "(slot + n) * 8 \<le> length rt"
  shows "\<exists>rt'. stage_entries n slot c cs rt = Some rt' \<and> length rt' = length rt \<and>
    (\<forall>k. k * 8 + 8 \<le> length rt \<longrightarrow> slice_at (k * 8) 8 rt' =
       (if slot \<le> k \<and> k < slot + n then u64_to_be ((c + of_nat (k - slot)) * cs) else slice_at (k * 8) 8 rt))"
  using assms
proof (induction n arbitrary: slot c rt)
  case 0
  have e: "(slot \<le> k \<and> k < slot) = False" for k by simp
  show ?case by (simp add: e)
next
  case (Suc n)
  let ?rt = "splice_at (slot * 8) (u64_to_be (c * cs)) rt"
  have l: "slot * 8 + 8 \<le> length rt" "length ?rt = length rt" using Suc.prems by simp_all
  then have "(Suc slot + n) * 8 \<le> length ?rt" using Suc.prems by simp
  then obtain rt' where R: "stage_entries n (Suc slot) (c + 1) cs ?rt = Some rt'" "length rt' = length ?rt"
    "\<forall>k. k * 8 + 8 \<le> length ?rt \<longrightarrow> slice_at (k * 8) 8 rt' =
       (if Suc slot \<le> k \<and> k < Suc slot + n then u64_to_be ((c + 1 + of_nat (k - Suc slot)) * cs) else slice_at (k * 8) 8 ?rt)"
    using Suc.IH[of "Suc slot" ?rt "c + 1"] by blast
  have "slice_at (k * 8) 8 rt' = (if slot \<le> k \<and> k < slot + Suc n then u64_to_be ((c + of_nat (k - slot)) * cs) else slice_at (k * 8) 8 rt)"
    if k: "k * 8 + 8 \<le> length rt" for k
  proof (cases "k = slot")
    case True
    then show ?thesis using R(3) k l by simp
  next
    case False
    then have "slice_at (k * 8) 8 ?rt = slice_at (k * 8) 8 rt" using l(1) k by (intro slice_splice_disjoint) auto
    moreover have "c + 1 + of_nat (k - Suc slot) = c + of_nat (k - slot)" if "Suc slot \<le> k"
      using that of_nat_Suc[of "k - Suc slot", where 'a = "64 word"] by (simp add: Suc_diff_Suc)
    ultimately show ?thesis using R(3) k l(2) False by auto
  qed
  then show ?case using R(1,2) l by auto
qed

section \<open>What the disk says\<close>

definition apart :: "nat \<Rightarrow> nat \<Rightarrow> nat \<Rightarrow> nat \<Rightarrow> bool" where
  "apart a n b m \<longleftrightarrow> a + n \<le> b \<or> b + m \<le> a"

lemma bytes_at_miss: "apart a n off (length src) \<Longrightarrow> bytes_at (overwrite off src m) a n = bytes_at m a n"
  by (auto simp: bytes_at_def overwrite_def apart_def)

lemma bytes_at_hit: "a + n \<le> length src \<Longrightarrow> bytes_at (overwrite off src m) (off + a) n = slice_at a n src"
  by (rule nth_equalityI) (auto simp: bytes_at_def overwrite_def nth_slice)

definition rb_host_at :: "bytes \<Rightarrow> nat \<Rightarrow> u64" where
  "rb_host_at rt k = u64_from_be (slice_at (k * 8) 8 rt) AND L1_OFFSET_MASK"

text \<open>The bytes after the blocks \<open>ks\<close> went to their hosts in order.\<close>

definition blocks_out :: "bytes \<Rightarrow> bytes \<Rightarrow> nat \<Rightarrow> nat list \<Rightarrow> (nat \<Rightarrow> 8 word) \<Rightarrow> nat \<Rightarrow> 8 word" where
  "blocks_out rt rb cs ks m = fold (\<lambda>k. overwrite (unat (rb_host_at rt k)) (slice_at (k * cs) cs rb)) ks m"

lemma blocks_out_miss:
  assumes "\<And>k. k \<in> set ks \<Longrightarrow> k * cs + cs \<le> length rb \<and> apart a n (unat (rb_host_at rt k)) cs"
  shows "bytes_at (blocks_out rt rb cs ks m) a n = bytes_at m a n"
  using assms by (induction ks arbitrary: m) (simp_all add: blocks_out_def bytes_at_miss)

lemma blocks_out_hit:
  assumes "k \<in> set ks" "\<And>j. j \<in> set ks \<Longrightarrow> j * cs + cs \<le> length rb \<and> (j \<noteq> k \<longrightarrow> apart (unat (rb_host_at rt k)) cs (unat (rb_host_at rt j)) cs)"
  shows "bytes_at (blocks_out rt rb cs ks m) (unat (rb_host_at rt k)) cs = slice_at (k * cs) cs rb"
  using assms
proof (induction ks arbitrary: m)
  case (Cons j ks)
  show ?case
  proof (cases "k \<in> set ks")
    case True
    then show ?thesis using Cons by (simp add: blocks_out_def)
  next
    case False
    then have "bytes_at (blocks_out rt rb cs ks m') (unat (rb_host_at rt k)) cs = bytes_at m' (unat (rb_host_at rt k)) cs" for m'
      using Cons.prems by (intro blocks_out_miss) auto
    moreover have "j = k" using False Cons.prems(1) by simp
    moreover have "length (slice_at (k * cs) cs rb) = cs" using Cons.prems(2)[of k] \<open>j = k\<close> by simp
    ultimately show ?thesis using bytes_at_hit[of 0 cs "slice_at (k * cs) cs rb" "unat (rb_host_at rt k)"]
      by (simp add: blocks_out_def slice_at_def)
  qed
qed simp

lemma skip_clean:
  assumes "slot mod 64 = 0" "ws ! (slot div 64) = 0" "slot \<le> k" "k < slot + 64"
  shows "\<not> bitset_get ws k"
proof -
  obtain q where q: "slot = 64 * q" using assms(1) by (auto elim: dvdE simp: mod_eq_0_iff_dvd)
  then obtain r where "k = 64 * q + r" "r < 64" using assms(3,4) by (metis le_add_diff_inverse add_less_cancel_left)
  then have "k div 64 = slot div 64" using q by simp
  then show ?thesis using assms(2) by (simp add: bitset_get_def shr_def)
qed

lemma filter_skip:
  assumes "\<And>k. a \<le> k \<Longrightarrow> k < a + d \<Longrightarrow> \<not> P k"
  shows "filter P [a..<n] = filter P [a + d..<n]"
proof (cases "a + d \<le> n")
  case True
  then have "[a..<n] = [a..<a + d] @ [a + d..<n]" using upt_add_eq_append[of a "a + d" "n - (a + d)"] by simp
  then show ?thesis using assms by (auto simp: filter_empty_conv)
next
  case False
  then show ?thesis using assms by (auto simp: filter_empty_conv)
qed

context sector_disk
begin

abbreviation clear_slot :: "growth_exec \<Rightarrow> nat \<Rightarrow> growth_exec" where
  "clear_slot gx slot \<equiv> gx\<lparr>gx_dirty := (gx_dirty gx)[slot div 64 := gx_dirty gx ! (slot div 64) AND NOT (shl 1 (slot mod 64))]\<rparr>"

lemma flush_dirty_slot:
  assumes ok: "gx_ok gx rb" and rt: "gx_refblock_count gx * 8 \<le> length rt" and sl: "slot < gx_refblock_count gx"
    and D: "gx_dirty_at gx slot" "\<not> (slot mod 64 = 0 \<and> gx_dirty gx ! (slot div 64) = 0)"
  obtains (failed) rmw1 d1 where "flush_refblocks_from io dev rt rb slot gx rmw d = Some (False, gx, rmw1, d1)" "length rmw1 = length rmw"
  | (written) rmw1 d1 where "flush_refblocks_from io dev rt rb slot gx rmw d = flush_refblocks_from io dev rt rb (Suc slot) (clear_slot gx slot) rmw1 d1"
      "length rmw1 = length rmw"
      "content d1 = (content d)(dev := overwrite (unat (rb_host_at rt slot)) (gx_block gx rb slot) (content d dev))"
proof -
  note S = flush_refblocks_from.simps[of io dev rt rb slot gx rmw d, unfolded gx_dirty_get_iff gx_dirty_clear_def] and B = block_in[OF ok sl]
  obtain r rmw1 d1 where W: "write_bytes io dev (rb_host_at rt slot) (gx_block gx rb slot) rmw d = (r, rmw1, d1)" by (metis prod_cases3)
  have e: "read_u64_be rt (slot * 8) = Some (u64_from_be (slice_at (slot * 8) 8 rt))" using rt sl by (simp add: read_u64_be_def)
  have "length (gx_block gx rb slot) < 2 ^ 64" using B(1) unat_u64_less by simp
  note X = write_bytes_exact[OF W this]
  show ?thesis
  proof (cases r)
    case (Inl er)
    then show ?thesis using S sl B D e W X by (intro failed[of rmw1 d1]) (simp_all add: Let_def rb_host_at_def)
  next
    case (Inr u)
    show ?thesis
    proof (rule written[of rmw1 d1])
      show "flush_refblocks_from io dev rt rb slot gx rmw d = flush_refblocks_from io dev rt rb (Suc slot) (clear_slot gx slot) rmw1 d1"
        using S sl B D e W Inr by (simp add: Let_def rb_host_at_def)
    qed (use X Inr in simp_all)
  qed
qed

text \<open>A flush that ends well has written the dirty blocks, in slot order, and nothing else.\<close>

lemma flush_refblocks_exact:
  assumes "gx_ok gx rb" "gx_refblock_count gx * 8 \<le> length rt"
  shows "\<exists>ok gx' rmw' d'. flush_refblocks_from io dev rt rb slot gx rmw d = Some (ok, gx', rmw', d') \<and>
    gx_same gx gx' \<and> length rmw' = length rmw \<and>
    (ok \<longrightarrow> (\<forall>k. gx_dirty_at gx' k \<longleftrightarrow> gx_dirty_at gx k \<and> \<not> (slot \<le> k \<and> k < gx_refblock_count gx)) \<and>
       content d' = (content d)(dev := blocks_out rt rb (unat (gx_cluster_size gx))
         (filter (gx_dirty_at gx) [slot..<gx_refblock_count gx]) (content d dev)))"
  using assms
proof (induction "gx_refblock_count gx - slot" arbitrary: slot gx rmw d rule: less_induct)
  case less
  let ?n = "gx_refblock_count gx" let ?cs = "unat (gx_cluster_size gx)" let ?D = "gx_dirty_at gx"
  note S = flush_refblocks_from.simps[of io dev rt rb slot gx rmw d, unfolded gx_dirty_get_iff gx_dirty_clear_def]
  show ?case
  proof (cases "?n \<le> slot")
    case True
    then show ?thesis using S by (auto simp: blocks_out_def)
  next
    case False
    then have sl: "slot < ?n" by simp
    note B = block_in[OF less.prems(1) sl]
    have up: "[slot..<?n] = slot # [Suc slot..<?n]" using sl by (simp add: upt_conv_Cons)
    have adv: ?thesis if E: "flush_refblocks_from io dev rt rb slot gx rmw d = flush_refblocks_from io dev rt rb (slot + s) gx rmw d"
      and s: "0 < s" and c: "\<And>k. slot \<le> k \<Longrightarrow> k < slot + s \<Longrightarrow> \<not> ?D k" for s
    proof -
      have F: "filter ?D [slot..<?n] = filter ?D [slot + s..<?n]" by (rule filter_skip) (rule c)
      have k: "(?D k \<and> \<not> (slot \<le> k \<and> k < ?n)) = (?D k \<and> \<not> (slot + s \<le> k \<and> k < ?n))" for k using c[of k] by auto
      have "?n - (slot + s) < ?n - slot" using sl s by simp
      from less.hyps[OF this less.prems] show ?thesis unfolding E F k .
    qed
    consider (skip) "slot mod 64 = 0 \<and> gx_dirty gx ! (slot div 64) = 0" | (dirty) "?D slot" "\<not> (slot mod 64 = 0 \<and> gx_dirty gx ! (slot div 64) = 0)"
      | (clean) "\<not> ?D slot" "\<not> (slot mod 64 = 0 \<and> gx_dirty gx ! (slot div 64) = 0)" by argo
    then show ?thesis
    proof cases
      case skip
      show ?thesis
      proof (rule adv)
        show "flush_refblocks_from io dev rt rb slot gx rmw d = flush_refblocks_from io dev rt rb (slot + 64) gx rmw d" using S sl B(2) skip by simp
        fix k assume "slot \<le> k" "k < slot + 64"
        then show "\<not> ?D k" using skip_clean[of slot "gx_dirty gx" k] skip by simp
      qed simp
    next
      case clean
      show ?thesis
      proof (rule adv)
        show "flush_refblocks_from io dev rt rb slot gx rmw d = flush_refblocks_from io dev rt rb (slot + 1) gx rmw d"
          unfolding S using sl B(2) clean(1) by (simp only: clean(2) not_le if_False) simp
        fix k assume "slot \<le> k" "k < slot + 1"
        then show "\<not> ?D k" using clean(1) by (simp add: le_less_Suc_eq)
      qed simp
    next
      case dirty
      from less.prems sl dirty show ?thesis
      proof (cases rule: flush_dirty_slot[where dev = dev and rmw = rmw and d = d])
        case failed
        then show ?thesis by (intro exI[of _ False]) simp
      next
        case (written rmw1 d1)
        let ?gx = "clear_slot gx slot"
        have D': "gx_dirty_at ?gx = (\<lambda>k. k \<noteq> slot \<and> ?D k)" by (intro ext) (simp add: bitset_get_clear[OF B(2)])
        have F: "filter (\<lambda>k. k \<noteq> slot \<and> ?D k) [Suc slot..<?n] = filter ?D [Suc slot..<?n]" by (rule filter_cong) auto
        have k: "((k \<noteq> slot \<and> ?D k) \<and> \<not> (Suc slot \<le> k \<and> k < ?n)) = (?D k \<and> \<not> (slot \<le> k \<and> k < ?n))" for k using sl by auto
        have g: "gx_same ?gx = gx_same gx" by (simp add: gx_same_def fun_eq_iff)
        have "gx_same gx ?gx" by (simp add: gx_same_def)
        then have "gx_ok ?gx rb" "gx_refblock_count ?gx * 8 \<le> length rt" "gx_refblock_count ?gx - Suc slot < ?n - slot"
          using less.prems sl by (simp_all add: gx_same_simps)
        from less.hyps[OF this(3,1,2), of rmw1 d1] obtain ok gx' rmw' d' where
          R: "flush_refblocks_from io dev rt rb (Suc slot) ?gx rmw1 d1 = Some (ok, gx', rmw', d')" "gx_same gx gx'" "length rmw' = length rmw1"
            "ok \<Longrightarrow> \<forall>k. gx_dirty_at gx' k \<longleftrightarrow> (k \<noteq> slot \<and> ?D k) \<and> \<not> (Suc slot \<le> k \<and> k < ?n)"
            "ok \<Longrightarrow> content d' = (content d1)(dev := blocks_out rt rb ?cs (filter ?D [Suc slot..<?n]) (content d1 dev))"
          unfolding g D' by (auto simp: F)
        have "blocks_out rt rb ?cs (filter ?D [slot..<?n]) m =
            blocks_out rt rb ?cs (filter ?D [Suc slot..<?n]) (overwrite (unat (rb_host_at rt slot)) (gx_block gx rb slot) m)" for m
          using up dirty(1) by (simp add: blocks_out_def)
        then have "content d' = (content d)(dev := blocks_out rt rb ?cs (filter ?D [slot..<?n]) (content d dev))" if ok
          using R(5)[OF that] written(3) by simp
        moreover have "\<forall>k. gx_dirty_at gx' k \<longleftrightarrow> ?D k \<and> \<not> (slot \<le> k \<and> k < ?n)" if ok using R(4)[OF that] unfolding k .
        ultimately show ?thesis using R(1,2,3) unfolding written(1,2) by (intro exI conjI impI) assumption+
      qed
    qed
  qed
qed

end

section \<open>Staging a plan\<close>

text \<open>What the planner guarantees for the executor, with the staging buffers of the operation.\<close>

definition growth_fit :: "growth_exec \<Rightarrow> refcount_growth_plan \<Rightarrow> bytes \<Rightarrow> bytes \<Rightarrow> bool" where
  "growth_fit gx plan rt rb \<longleftrightarrow>
     256 \<le> unat (gx_entries_per_refblock gx) \<and> unat (gx_entries_per_refblock gx) \<le> 2 ^ 20 \<and>
     unat (gx_cluster_size gx) = 2 * unat (gx_entries_per_refblock gx) \<and> 512 dvd unat (gx_cluster_size gx) \<and>
     length (gx_dirty gx) = 32 \<and> (\<forall>k<2048. \<not> gx_dirty_at gx k) \<and>
     gx_refblock_count gx \<le> unat (gp_needed_slots plan) \<and> unat (gp_needed_slots plan) \<le> 2048 \<and>
     unat (gp_new_refblocks plan) = unat (gp_needed_slots plan) - gx_refblock_count gx \<and>
     gp_structures_start plan = gp_rt_start plan \<and>
     unat (gp_refblocks_start plan) = unat (gp_rt_start plan) + unat (gp_new_rt_clusters plan) \<and>
     unat (gp_rt_start plan) + unat (gp_new_rt_clusters plan) + unat (gp_new_refblocks plan) \<le>
       unat (gp_needed_slots plan) * unat (gx_entries_per_refblock gx) \<and>
     unat (gp_needed_slots plan) * unat (gx_cluster_size gx) \<le> length rb \<and> unat (gp_needed_slots plan) * 8 \<le> length rt \<and>
     unat (gp_new_rt_clusters plan) * unat (gx_cluster_size gx) \<le> length rt \<and>
     (0 < gp_new_rt_clusters plan \<longrightarrow> unat (gp_needed_slots plan) * 8 \<le> unat (gp_new_rt_clusters plan) * unat (gx_cluster_size gx))"

lemma l1_mask_id:
  fixes x :: u64
  assumes "unat x < 2 ^ 56" "512 dvd unat x"
  shows "x AND L1_OFFSET_MASK = x"
proof (rule bit_word_eqI)
  fix n assume n: "n < LENGTH(64)"
  have M: "L1_OFFSET_MASK = mask 56 AND NOT (mask 9)" by (simp add: L1_OFFSET_MASK_def mask_eq_exp_minus_1)
  have "9 \<le> n \<and> n < 56" if "bit x n"
  proof -
    have u: "bit (unat x) n" using that n by (simp add: bit_unsigned_iff)
    have "take_bit 56 (unat x) = unat x" using assms(1) by (simp add: take_bit_nat_eq_self)
    then have "n < 56" using u by (metis bit_take_bit_iff)
    moreover obtain q where "unat x = push_bit 9 q" using assms(2) by (auto simp: push_bit_eq_mult elim!: dvdE)
    then have "9 \<le> n" using u by (simp add: bit_push_bit_iff)
    ultimately show ?thesis by simp
  qed
  then show "bit (x AND L1_OFFSET_MASK) n = bit x n" unfolding M using n by (auto simp: bit_simps)
qed

lemma fit_small:
  assumes "growth_fit gx plan rt rb" "a \<le> unat (gp_rt_start plan) + unat (gp_new_rt_clusters plan) + unat (gp_new_refblocks plan)"
  shows "a \<le> 2 ^ 31" "a * unat (gx_cluster_size gx) \<le> 2 ^ 52" "unat (of_nat a :: u64) = a" "unat (of_nat a * gx_cluster_size gx) = a * unat (gx_cluster_size gx)"
proof -
  note F = assms(1)[unfolded growth_fit_def]
  have "unat (gp_needed_slots plan) * unat (gx_entries_per_refblock gx) \<le> 2048 * 2 ^ 20" using F by (intro mult_le_mono) blast+
  moreover have "a \<le> unat (gp_needed_slots plan) * unat (gx_entries_per_refblock gx)" using F assms(2) by linarith
  ultimately show a: "a \<le> 2 ^ 31" by simp
  have "unat (gx_cluster_size gx) \<le> 2 ^ 21" using F by simp
  with a show m: "a * unat (gx_cluster_size gx) \<le> 2 ^ 52" using mult_le_mono[OF a \<open>unat (gx_cluster_size gx) \<le> 2 ^ 21\<close>] by simp
  show u: "unat (of_nat a :: u64) = a" using a by (simp add: unat_of_nat)
  show "unat (of_nat a * gx_cluster_size gx) = a * unat (gx_cluster_size gx)" using m u by (simp add: unat_mult_small)
qed

lemma stage_table_fit:
  assumes fit: "growth_fit gx plan rt rb"
  obtains rt' where "stage_table gx plan rt = Some rt'" "length rt' = length rt"
    "\<And>k. k < gx_refblock_count gx \<Longrightarrow> slice_at (k * 8) 8 rt' = slice_at (k * 8) 8 rt"
    "\<And>k. gx_refblock_count gx \<le> k \<Longrightarrow> k < unat (gp_needed_slots plan) \<Longrightarrow>
       unat (rb_host_at rt' k) = (unat (gp_refblocks_start plan) + (k - gx_refblock_count gx)) * unat (gx_cluster_size gx)"
proof -
  let ?pop = "gx_refblock_count gx" let ?new = "unat (gp_needed_slots plan)" let ?cs = "unat (gx_cluster_size gx)" let ?nrt = "gp_new_rt_clusters plan"
  let ?n = "rt_image_len gx plan"
  let ?im = "if 0 < ?nrt then take (?pop * 8) rt @ replicate (?n - ?pop * 8) 0 else take ?n rt"
  have le: "?pop \<le> ?new" using fit by (simp add: growth_fit_def)
  have c: "unat (?nrt * gx_cluster_size gx) = unat ?nrt * ?cs" using fit_small(4)[OF fit, of "unat ?nrt"] by simp
  have n: "?n \<le> length rt" "?new * 8 \<le> ?n" using fit c by (auto simp: rt_image_len_def growth_fit_def)
  then have p: "?pop * 8 \<le> ?n" using le by simp
  have li: "length ?im = ?n" using n(1) p by simp
  have "(?pop + unat (gp_new_refblocks plan)) * 8 \<le> length ?im" using fit n(2) li by (simp add: growth_fit_def)
  from stage_entries_ok[OF this] obtain im' where
    E: "stage_entries (unat (gp_new_refblocks plan)) ?pop (gp_refblocks_start plan) (gx_cluster_size gx) ?im = Some im'" "length im' = ?n"
      "\<And>k. k * 8 + 8 \<le> ?n \<Longrightarrow> slice_at (k * 8) 8 im' =
         (if ?pop \<le> k \<and> k < ?pop + unat (gp_new_refblocks plan) then u64_to_be ((gp_refblocks_start plan + of_nat (k - ?pop)) * gx_cluster_size gx)
          else slice_at (k * 8) 8 ?im)" unfolding li by blast
  have sl: "slice_at (k * 8) 8 (im' @ drop ?n rt) = slice_at (k * 8) 8 im'" if "k * 8 + 8 \<le> ?n" for k using that E(2) by (simp add: slice_at_def)
  show ?thesis
  proof (rule that)
    show "stage_table gx plan rt = Some (im' @ drop ?n rt)" using E(1) n p by (simp add: stage_table_def Let_def not_less)
    show "length (im' @ drop ?n rt) = length rt" using E(2) n(1) by simp
  next
    fix k assume k: "k < ?pop"
    then have "k * 8 + 8 \<le> ?pop * 8" by simp
    moreover have "slice_at (k * 8) 8 ?im = slice_at (k * 8) 8 rt" using calculation p n(1) by (auto simp: slice_at_def take_drop min_def)
    ultimately show "slice_at (k * 8) 8 (im' @ drop ?n rt) = slice_at (k * 8) 8 rt" using k p E(3)[of k] sl[of k] by simp
  next
    fix k assume k: "?pop \<le> k" "k < ?new"
    let ?a = "unat (gp_refblocks_start plan) + (k - ?pop)"
    have a: "?a \<le> unat (gp_rt_start plan) + unat (gp_new_rt_clusters plan) + unat (gp_new_refblocks plan)" using k fit by (simp add: growth_fit_def)
    note S = fit_small[OF fit a]
    have w: "gp_refblocks_start plan + of_nat (k - ?pop) = of_nat ?a" by simp
    have "512 dvd ?a * ?cs" "?a * ?cs < 2 ^ 56" using fit S(2) by (auto simp: growth_fit_def)
    then have m: "of_nat ?a * gx_cluster_size gx AND L1_OFFSET_MASK = of_nat ?a * gx_cluster_size gx" using S(4) by (intro l1_mask_id) simp_all
    have "slice_at (k * 8) 8 (im' @ drop ?n rt) = u64_to_be (of_nat ?a * gx_cluster_size gx)"
      using k n(2) E(3)[of k] sl[of k] fit unfolding w[symmetric] by (simp add: growth_fit_def)
    then show "unat (rb_host_at (im' @ drop ?n rt) k) = ?a * ?cs" using S(4) m by (simp add: rb_host_at_def)
  qed
qed

lemma stage_refblocks_fit:
  assumes fit: "growth_fit gx plan rt rb"
  obtains gx' rb' where "stage_refblocks gx plan rb = Some (True, gx', rb')" "gx_same (gx\<lparr>gx_refblock_count := unat (gp_needed_slots plan)\<rparr>) gx'"
    "length rb' = length rb" "gx_ok gx' rb'"
    "\<And>k. k < unat (gp_needed_slots plan) \<Longrightarrow> \<not> gx_dirty_at gx' k \<Longrightarrow> k < gx_refblock_count gx \<and> gx_block gx rb' k = gx_block gx rb k"
    "\<And>j. j < unat (gp_needed_slots plan) * unat (gx_entries_per_refblock gx) \<Longrightarrow>
       rc_flat rb' j = (if unat (gp_rt_start plan) \<le> j \<and> j < unat (gp_rt_start plan) + unat (gp_new_rt_clusters plan) + unat (gp_new_refblocks plan) then 1
         else if j < gx_refblock_count gx * unat (gx_entries_per_refblock gx) then rc_flat rb j else 0)"
proof -
  note F = fit[unfolded growth_fit_def]
  let ?pop = "gx_refblock_count gx" let ?new = "unat (gp_needed_slots plan)" let ?cs = "unat (gx_cluster_size gx)" let ?e = "unat (gx_entries_per_refblock gx)"
  let ?g = "gx\<lparr>gx_refblock_count := ?new\<rparr>" let ?z = "replicate ((?new - ?pop) * ?cs) (0 :: u8)" let ?rb = "splice_at (?pop * ?cs) ?z rb"
  have cs: "?cs = 2 * ?e" and le: "?pop \<le> ?new" and lrb: "?new * ?cs \<le> length rb" using F by blast+
  have z: "?pop * ?cs + length ?z = ?new * ?cs" using le by (simp add: diff_mult_distrib mult_le_mono1)
  then have zl: "?pop * ?cs + length ?z \<le> length rb" "length ?rb = length rb" using lrb by simp_all
  have ok: "gx_ok ?g ?rb" unfolding gx_ok_def zl(2) using F by auto
  have n: "unat (gp_new_rt_clusters plan + gp_new_refblocks plan) = unat (gp_new_rt_clusters plan) + unat (gp_new_refblocks plan)"
    using fit_small(1)[OF fit order_refl] by (intro unat_add_small) simp
  have s: "gp_structures_start plan = gp_rt_start plan"
    and cov: "unat (gp_rt_start plan) + unat (gp_new_rt_clusters plan) + unat (gp_new_refblocks plan) \<le> ?new * ?e" using F by blast+
  have "unat (gp_structures_start plan) + unat (gp_new_rt_clusters plan + gp_new_refblocks plan) \<le> gx_refblock_count ?g * unat (gx_entries_per_refblock ?g)"
    using cov unfolding n s by simp
  from stage_range_ok[OF ok this, of 1] obtain g1 rb1 where
    R: "stage_range (unat (gp_new_rt_clusters plan + gp_new_refblocks plan)) ?g ?rb (gp_structures_start plan) 1 = Some (True, g1, rb1)"
      "tracked ?g ?rb g1 rb1"
      "\<forall>j. 2 * j + 2 \<le> length ?rb \<longrightarrow> rc_flat rb1 j = (if unat (gp_structures_start plan) \<le> j \<and>
         j < unat (gp_structures_start plan) + unat (gp_new_rt_clusters plan + gp_new_refblocks plan) then unat (1 :: u64) else rc_flat ?rb j)" by auto
  have g1: "gx_same ?g g1" "length rb1 = length rb" using R(2) zl(2) by (auto simp: tracked_def)
  have "?pop + (?new - ?pop) \<le> 64 * length (gx_dirty g1)" using g1(1) F by (simp add: gx_same_simps)
  from mark_dirty_ok[OF this] obtain g2 where
    D: "mark_dirty (?new - ?pop) ?pop g1 = Some g2" "gx_same g1 g2" "\<forall>k. gx_dirty_at g2 k \<longleftrightarrow> ?pop \<le> k \<and> k < ?pop + (?new - ?pop) \<or> gx_dirty_at g1 k" by blast
  have same: "gx_same ?g g2" by (rule gx_same_trans[OF g1(1) D(2)])
  show ?thesis
  proof (rule that)
    have "\<not> (?new * ?cs < ?pop * ?cs \<or> length rb < ?new * ?cs)" using lrb mult_le_mono1[OF le] by (auto simp: not_less)
    then show "stage_refblocks gx plan rb = Some (True, g2, rb1)" using R(1) D(1) by (simp add: stage_refblocks_def Let_def)
    show "gx_same ?g g2" by (rule same)
    show "length rb1 = length rb" by (rule g1(2))
    show "gx_ok g2 rb1" using gx_same_simps(5)[OF same, of rb1 ?rb] ok zl(2) g1(2) by simp
  next
    fix k assume k: "k < ?new" "\<not> gx_dirty_at g2 k"
    then have p: "k < ?pop" using D(3) le by auto
    have "Suc k * ?cs \<le> ?pop * ?cs" using p by (intro mult_le_mono1) simp
    then have "gx_block gx ?rb k = gx_block gx rb k" using zl by (intro slice_splice_disjoint) auto
    moreover have "gx_block ?g rb1 k = gx_block ?g ?rb k" using R(2) k D(3) by (auto simp: tracked_def)
    ultimately show "k < ?pop \<and> gx_block gx rb1 k = gx_block gx rb k" using p by simp
  next
    fix j assume j: "j < ?new * ?e"
    have "Suc j * 2 \<le> ?new * ?e * 2" using j by (intro mult_le_mono1) simp
    then have l: "2 * j + 2 \<le> ?new * ?cs" using cs by simp
    have rz: "rc_flat ?rb j = (if j < ?pop * ?e then rc_flat rb j else 0)"
    proof (cases "j < ?pop * ?e")
      case True
      then have "Suc j * 2 \<le> ?pop * ?e * 2" by (intro mult_le_mono1) simp
      then have "slice_at (2 * j) 2 ?rb = slice_at (2 * j) 2 rb" using cs zl l lrb by (intro slice_splice_disjoint) auto
      then show ?thesis using True by (simp add: rc_flat_def)
    next
      case False
      then have "?pop * ?cs \<le> 2 * j" using cs by simp
      then have "slice_at (2 * j) 2 ?rb = [0, 0]" using l z zl lrb
        by (intro nth_equalityI) (auto simp: nth_slice nth_splice_at less_Suc_eq numeral_2_eq_2)
      then show ?thesis using False by (simp add: rc_flat_def be_val_def)
    qed
    show "rc_flat rb1 j = (if unat (gp_rt_start plan) \<le> j \<and> j < unat (gp_rt_start plan) + unat (gp_new_rt_clusters plan) + unat (gp_new_refblocks plan) then 1
         else if j < ?pop * ?e then rc_flat rb j else 0)"
      using R(3) l lrb zl(2) rz n s by (simp add: add.assoc)
  qed
qed

section \<open>The refcount metadata on disk\<close>

text \<open>The staged table and blocks are what the disk holds: \<open>n\<close> slots, the table at \<open>tbl\<close>.\<close>

definition table_on_disk :: "(nat \<Rightarrow> 8 word) \<Rightarrow> nat \<Rightarrow> bytes \<Rightarrow> nat \<Rightarrow> bool" where
  "table_on_disk m tbl rt n \<longleftrightarrow> (\<forall>k<n. bytes_at m (tbl + k * 8) 8 = slice_at (k * 8) 8 rt)"

definition blocks_on_disk :: "(nat \<Rightarrow> 8 word) \<Rightarrow> bytes \<Rightarrow> bytes \<Rightarrow> nat \<Rightarrow> nat \<Rightarrow> bool" where
  "blocks_on_disk m rt rb cs n \<longleftrightarrow> (\<forall>k<n. bytes_at m (unat (rb_host_at rt k)) cs = slice_at (k * cs) cs rb)"

text \<open>The table (of \<open>room\<close> bytes) and the refblocks lie behind the patched header fields, below \<open>lim\<close>, and do not overlap.\<close>

definition meta_apart :: "bytes \<Rightarrow> nat \<Rightarrow> nat \<Rightarrow> nat \<Rightarrow> nat \<Rightarrow> nat \<Rightarrow> bool" where
  "meta_apart rt tbl room cs lim n \<longleftrightarrow> 60 \<le> tbl \<and> tbl + room \<le> lim \<and> n * 8 \<le> room \<and>
     (\<forall>k<n. 60 \<le> unat (rb_host_at rt k) \<and> unat (rb_host_at rt k) + cs \<le> lim \<and> apart (unat (rb_host_at rt k)) cs tbl room \<and>
        (\<forall>j<n. j \<noteq> k \<longrightarrow> apart (unat (rb_host_at rt k)) cs (unat (rb_host_at rt j)) cs))"

lemma apart_sub: "apart a n b m \<Longrightarrow> b \<le> c \<Longrightarrow> c + k \<le> b + m \<Longrightarrow> apart a n c k"
  by (auto simp: apart_def)

lemma apart_sym: "apart a n b m \<longleftrightarrow> apart b m a n"
  by (auto simp: apart_def)

lemma blocks_miss:
  assumes "meta_apart rt tbl room cs lim n" "tbl \<le> off" "off + length src \<le> tbl + room"
  shows "blocks_on_disk (overwrite off src m) rt rb cs n = blocks_on_disk m rt rb cs n"
proof -
  have "apart (unat (rb_host_at rt k)) cs off (length src)" if "k < n" for k
    using assms that apart_sub[of _ cs tbl room off "length src"] by (auto simp: meta_apart_def)
  then show ?thesis by (simp add: blocks_on_disk_def bytes_at_miss)
qed

lemma header_miss:
  assumes "meta_apart rt tbl room cs lim n" "off + length src \<le> 60"
  shows "blocks_on_disk (overwrite off src m) rt rb cs n = blocks_on_disk m rt rb cs n"
    "table_on_disk (overwrite off src m) tbl rt n = table_on_disk m tbl rt n"
proof -
  have "apart (unat (rb_host_at rt k)) cs off (length src)" if "k < n" for k
    using assms that by (fastforce simp: meta_apart_def apart_def)
  then show "blocks_on_disk (overwrite off src m) rt rb cs n = blocks_on_disk m rt rb cs n" by (simp add: blocks_on_disk_def bytes_at_miss)
  have "apart (tbl + k * 8) 8 off (length src)" for k using assms by (auto simp: meta_apart_def apart_def)
  then show "table_on_disk (overwrite off src m) tbl rt n = table_on_disk m tbl rt n" by (simp add: table_on_disk_def bytes_at_miss)
qed

lemma table_hit:
  assumes "\<And>k. k < c \<Longrightarrow> k < n \<Longrightarrow> bytes_at m (tbl + k * 8) 8 = slice_at (k * 8) 8 rt"
    and "n * 8 \<le> c * 8 + len" "c * 8 + len \<le> length rt"
  shows "table_on_disk (overwrite (tbl + c * 8) (slice_at (c * 8) len rt) m) tbl rt n"
  unfolding table_on_disk_def
proof (intro allI impI)
  fix k assume k: "k < n"
  let ?src = "slice_at (c * 8) len rt"
  show "bytes_at (overwrite (tbl + c * 8) ?src m) (tbl + k * 8) 8 = slice_at (k * 8) 8 rt"
  proof (cases "k < c")
    case True
    then show ?thesis using assms(1)[OF True k] assms(3) by (subst bytes_at_miss) (auto simp: apart_def)
  next
    case False
    then have o: "k * 8 = c * 8 + (k - c) * 8" by (auto simp: diff_mult_distrib)
    have l: "(k - c) * 8 + 8 \<le> len" using False k assms(2) by (simp add: diff_mult_distrib)
    have "bytes_at (overwrite (tbl + c * 8) ?src m) (tbl + c * 8 + (k - c) * 8) 8 = slice_at ((k - c) * 8) 8 ?src"
      using l assms(3) by (intro bytes_at_hit) simp
    also have "\<dots> = slice_at (c * 8 + (k - c) * 8) 8 rt" using l by (simp add: slice_at_def take_drop add.commute min_def)
    finally show ?thesis by (simp only: o add.assoc)
  qed
qed

text \<open>Where the table is after growth, and how much room it has.\<close>

definition grown_table :: "growth_exec \<Rightarrow> refcount_growth_plan \<Rightarrow> refcount_table \<Rightarrow> nat" where
  "grown_table gx plan rt_table = (if 0 < gp_new_rt_clusters plan then unat (gp_rt_start plan) * unat (gx_cluster_size gx) else unat (rt_offset rt_table))"

definition grown_room :: "growth_exec \<Rightarrow> refcount_growth_plan \<Rightarrow> refcount_table \<Rightarrow> nat" where
  "grown_room gx plan rt_table = (if 0 < gp_new_rt_clusters plan then unat (gp_new_rt_clusters plan) else unat (rt_clusters rt_table)) * unat (gx_cluster_size gx)"

abbreviation grown_end :: "refcount_growth_plan \<Rightarrow> nat" where
  "grown_end plan \<equiv> unat (gp_rt_start plan) + unat (gp_new_rt_clusters plan) + unat (gp_new_refblocks plan)"

lemma cluster_below: "a < b \<Longrightarrow> a * cs + cs \<le> b * cs" for a b cs :: nat
  using mult_le_mono1[of "Suc a" b cs] by simp

lemma meta_grow:
  assumes fit: "growth_fit gx plan rt rb"
    and old: "meta_apart rt (unat (rt_offset rt_table)) (unat (rt_clusters rt_table) * unat (gx_cluster_size gx)) (unat (gx_cluster_size gx))
      (unat (gp_rt_start plan) * unat (gx_cluster_size gx)) (gx_refblock_count gx)"
    and room: "gp_new_rt_clusters plan = 0 \<longrightarrow> unat (gp_needed_slots plan) * 8 \<le> unat (rt_clusters rt_table) * unat (gx_cluster_size gx)"
    and keep: "\<And>k. k < gx_refblock_count gx \<Longrightarrow> slice_at (k * 8) 8 rt' = slice_at (k * 8) 8 rt"
    and new: "\<And>k. gx_refblock_count gx \<le> k \<Longrightarrow> k < unat (gp_needed_slots plan) \<Longrightarrow>
       unat (rb_host_at rt' k) = (unat (gp_refblocks_start plan) + (k - gx_refblock_count gx)) * unat (gx_cluster_size gx)"
  shows "meta_apart rt' (grown_table gx plan rt_table) (grown_room gx plan rt_table) (unat (gx_cluster_size gx))
    (grown_end plan * unat (gx_cluster_size gx)) (unat (gp_needed_slots plan))"
proof -
  note F = fit[unfolded growth_fit_def]
  let ?pop = "gx_refblock_count gx" let ?n = "unat (gp_needed_slots plan)" let ?cs = "unat (gx_cluster_size gx)"
  let ?fs = "unat (gp_rt_start plan)" let ?nrt = "unat (gp_new_rt_clusters plan)" let ?h = "\<lambda>k. unat (rb_host_at rt' k)"
  let ?tbl = "grown_table gx plan rt_table" let ?room = "grown_room gx plan rt_table"
  have rs: "unat (gp_refblocks_start plan) = ?fs + ?nrt" and nb: "unat (gp_new_refblocks plan) = ?n - ?pop"
    and rel: "0 < gp_new_rt_clusters plan \<longrightarrow> ?n * 8 \<le> ?nrt * ?cs" using F by blast+
  have hk: "rb_host_at rt' k = rb_host_at rt k" if "k < ?pop" for k using keep[OF that] by (simp add: rb_host_at_def)
  have lo: "60 \<le> ?h k" "?h k + ?cs \<le> ?fs * ?cs" "apart (?h k) ?cs (unat (rt_offset rt_table)) (unat (rt_clusters rt_table) * ?cs)" if "k < ?pop" for k
    using old that hk by (simp_all add: meta_apart_def)
  have hi: "(?fs + ?nrt) * ?cs \<le> ?h k" "?h k + ?cs \<le> grown_end plan * ?cs" if "?pop \<le> k" "k < ?n" for k
  proof -
    have e: "?h k = (?fs + ?nrt + (k - ?pop)) * ?cs" using new[OF that] rs by simp
    show "(?fs + ?nrt) * ?cs \<le> ?h k" unfolding e by (intro mult_le_mono1) simp
    show "?h k + ?cs \<le> grown_end plan * ?cs" unfolding e using that nb by (intro cluster_below) simp
  qed
  have o60: "60 \<le> unat (rt_offset rt_table)" "unat (rt_offset rt_table) + unat (rt_clusters rt_table) * ?cs \<le> ?fs * ?cs" using old by (simp_all add: meta_apart_def)
  have mono: "?fs * ?cs \<le> (?fs + ?nrt) * ?cs" "(?fs + ?nrt) * ?cs \<le> grown_end plan * ?cs" by (intro mult_le_mono1; simp)+
  have T: "60 \<le> ?tbl" "?tbl + ?room \<le> (?fs + ?nrt) * ?cs" "?n * 8 \<le> ?room"
    using o60 mono rel room by (auto simp: grown_table_def grown_room_def add_mult_distrib word_gt_0)
  have A: "apart (?h k) ?cs ?tbl ?room" if "k < ?n" for k
  proof (cases "k < ?pop")
    case True
    then show ?thesis using lo[OF True] by (auto simp: grown_table_def grown_room_def apart_def)
  next
    case False
    then show ?thesis using hi(1)[of k] that T(2) by (auto simp: apart_def)
  qed
  have P: "apart (?h k) ?cs (?h j) ?cs" if k: "k < ?n" and j: "j < ?n" "j \<noteq> k" for k j
  proof (cases "k < ?pop \<and> j < ?pop")
    case True
    then show ?thesis using old hk that by (simp add: meta_apart_def)
  next
    case False
    consider "k < ?pop" "?pop \<le> j" | "j < ?pop" "?pop \<le> k" | "?pop \<le> k" "?pop \<le> j" using False by linarith
    then show ?thesis
    proof cases
      case 1
      then show ?thesis using lo(2)[OF 1(1)] hi(1)[OF 1(2) j(1)] mono(1) unfolding apart_def by linarith
    next
      case 2
      then show ?thesis using lo(2)[OF 2(1)] hi(1)[OF 2(2) k] mono(1) unfolding apart_def by linarith
    next
      case 3
      then show ?thesis using new[of k] new[of j] that cluster_below[of "unat (gp_refblocks_start plan) + (k - ?pop)" "unat (gp_refblocks_start plan) + (j - ?pop)" ?cs]
          cluster_below[of "unat (gp_refblocks_start plan) + (j - ?pop)" "unat (gp_refblocks_start plan) + (k - ?pop)" ?cs]
        by (cases "k < j") (auto simp: apart_def)
    qed
  qed
  have B: "60 \<le> ?h k \<and> ?h k + ?cs \<le> grown_end plan * ?cs" if "k < ?n" for k
  proof (cases "k < ?pop")
    case True
    then show ?thesis using lo(1,2)[OF True] mono by linarith
  next
    case False
    then have "?pop \<le> k" by simp
    note H = hi[OF this that]
    show ?thesis using H o60 mono(1) by linarith
  qed
  show ?thesis unfolding meta_apart_def using T(1,3) order_trans[OF T(2) mono(2)] A P B by blast
qed

text \<open>The part of the staged table that a growth writes.\<close>

lemma table_image_fit:
  assumes fit: "growth_fit gx plan rt rb" and l: "length rt' = length rt" and g: "gx_same (gx\<lparr>gx_refblock_count := unat (gp_needed_slots plan)\<rparr>) gx'"
    and in_file: "unat (rt_offset rt_table) + unat (rt_clusters rt_table) * unat (gx_cluster_size gx) \<le> unat (gp_rt_start plan) * unat (gx_cluster_size gx)"
      "gp_new_rt_clusters plan = 0 \<longrightarrow> unat (gp_needed_slots plan) * 8 \<le> unat (rt_clusters rt_table) * unat (gx_cluster_size gx)"
  defines "c \<equiv> if 0 < gp_new_rt_clusters plan then 0 else gx_refblock_count gx"
  defines "len \<equiv> if 0 < gp_new_rt_clusters plan then unat (gp_new_rt_clusters plan) * unat (gx_cluster_size gx) else (unat (gp_needed_slots plan) - gx_refblock_count gx) * 8"
  shows "\<exists>off. table_image gx' (gx_refblock_count gx) plan rt_table rt' = (off, slice_at (c * 8) len rt') \<and> unat off = grown_table gx plan rt_table + c * 8 \<and>
      (\<forall>gx2. gx_same gx' gx2 \<longrightarrow> table_image gx2 (gx_refblock_count gx) plan rt_table rt' = (off, slice_at (c * 8) len rt')) \<and>
      unat (gp_needed_slots plan) * 8 \<le> c * 8 + len \<and> c * 8 + len \<le> length rt' \<and> c * 8 + len \<le> grown_room gx plan rt_table \<and> len < 2 ^ 64"
proof -
  note F = fit[unfolded growth_fit_def]
  let ?pop = "gx_refblock_count gx" let ?n = "unat (gp_needed_slots plan)" let ?cs = "unat (gx_cluster_size gx)"
  have le: "?pop \<le> ?n" "?n \<le> 2048" and lr: "?n * 8 \<le> length rt" "unat (gp_new_rt_clusters plan) * ?cs \<le> length rt"
    and rel: "0 < gp_new_rt_clusters plan \<longrightarrow> ?n * 8 \<le> unat (gp_new_rt_clusters plan) * ?cs" using F by blast+
  have q: "gx_cluster_size gx' = gx_cluster_size gx" "gx_refblock_count gx' = ?n" using g by (simp_all add: gx_same_simps)
  let ?off = "if 0 < gp_new_rt_clusters plan then gp_rt_start plan * gx_cluster_size gx else rt_offset rt_table + of_nat (?pop * 8)"
  have I: "table_image g2 ?pop plan rt_table rt' = (?off, slice_at (c * 8) len rt')" if "gx_same gx' g2" for g2
    using that q fit_small(4)[OF fit, of "unat (gp_new_rt_clusters plan)"] by (simp add: table_image_def gx_same_simps c_def len_def slice_at_def)
  have S: "unat (gp_rt_start plan) * ?cs \<le> 2 ^ 52" "unat (gp_rt_start plan * gx_cluster_size gx) = unat (gp_rt_start plan) * ?cs"
    using fit_small(2,4)[OF fit, of "unat (gp_rt_start plan)"] by simp_all
  have O: "unat ?off = grown_table gx plan rt_table + c * 8"
  proof (cases "0 < gp_new_rt_clusters plan")
    case False
    have p: "unat (of_nat (?pop * 8) :: u64) = ?pop * 8" using le unfolding unat_of_nat by simp
    have "unat (rt_offset rt_table) + ?pop * 8 < 2 ^ 64" using in_file(1) S(1) le by simp
    then have "unat (rt_offset rt_table + of_nat (?pop * 8)) = unat (rt_offset rt_table) + ?pop * 8" using unat_add_small[of "rt_offset rt_table" "of_nat (?pop * 8)"] p by simp
    then show ?thesis using False by (simp add: grown_table_def c_def)
  qed (simp add: grown_table_def c_def S(2))
  have "unat (gp_new_rt_clusters plan) * ?cs \<le> 2 ^ 52" using fit_small(2)[OF fit, of "unat (gp_new_rt_clusters plan)"] by simp
  then have "?n * 8 \<le> c * 8 + len \<and> c * 8 + len \<le> length rt' \<and> c * 8 + len \<le> grown_room gx plan rt_table \<and> len < 2 ^ 64"
    using le lr rel l in_file(2) by (auto simp: c_def len_def grown_room_def diff_mult_distrib word_gt_0)
  then show ?thesis using I[OF gx_same_refl] I O by blast
qed

text \<open>A clean start: the staged metadata is on disk and lies in the file, below the first new cluster.\<close>

definition growth_start :: "(nat \<Rightarrow> 8 word) \<Rightarrow> growth_exec \<Rightarrow> refcount_table \<Rightarrow> growth_buffers \<Rightarrow> nat \<Rightarrow> bool" where
  "growth_start m gx rt_table bufs fe \<longleftrightarrow>
     (let cs = unat (gx_cluster_size gx); n = gx_refblock_count gx in
      meta_apart (gb_refcount_table bufs) (unat (rt_offset rt_table)) (unat (rt_clusters rt_table) * cs) cs (fe * cs) n \<and>
      table_on_disk m (unat (rt_offset rt_table)) (gb_refcount_table bufs) n \<and>
      blocks_on_disk m (gb_refcount_table bufs) (gb_refblocks bufs) cs n)"

text \<open>The grown metadata: every slot of the plan is in the table on disk and its refblock is on disk as staged; the
  header names the table if it moved; the new structures have refcount one, the clusters of a table that moved are free,
  the other refcounts are kept and the new coverage is zero.\<close>

definition growth_published :: "(nat \<Rightarrow> 8 word) \<Rightarrow> growth_exec \<Rightarrow> refcount_growth_plan \<Rightarrow> refcount_table \<Rightarrow> growth_buffers \<Rightarrow> growth_exec \<Rightarrow> growth_buffers \<Rightarrow> bool" where
  "growth_published m gx plan rt_table bufs gx' bufs' \<longleftrightarrow>
     (let cs = unat (gx_cluster_size gx); epr = unat (gx_entries_per_refblock gx); n = unat (gp_needed_slots plan);
          moved = (0 < gp_new_rt_clusters plan); old = unat (rt_offset rt_table) div cs in
      gx_refblock_count gx' = n \<and> (\<forall>k<n. \<not> gx_dirty_at gx' k) \<and>
      meta_apart (gb_refcount_table bufs') (grown_table gx plan rt_table) (grown_room gx plan rt_table) cs (grown_end plan * cs) n \<and>
      table_on_disk m (grown_table gx plan rt_table) (gb_refcount_table bufs') n \<and>
      blocks_on_disk m (gb_refcount_table bufs') (gb_refblocks bufs') cs n \<and>
      (moved \<longrightarrow> bytes_at m 48 12 = header_patch gx plan) \<and>
      (\<forall>j<n * epr. rc_flat (gb_refblocks bufs') j =
         (if unat (gp_rt_start plan) \<le> j \<and> j < grown_end plan then 1
          else if moved \<and> old \<le> j \<and> j < old + unat (rt_clusters rt_table) then 0
          else if j < gx_refblock_count gx * epr then rc_flat (gb_refblocks bufs) j else 0)))"

lemma old_table_clusters:
  assumes "o1 + c * cs \<le> fe * cs" "0 < (cs :: nat)"
  shows "o1 div cs + c \<le> fe"
proof -
  have "(o1 + c * cs) div cs \<le> fe * cs div cs" by (rule div_le_mono[OF assms(1)])
  then show ?thesis using assms(2) by simp
qed

abbreviation image_first :: "growth_exec \<Rightarrow> refcount_growth_plan \<Rightarrow> nat" where
  "image_first gx plan \<equiv> if 0 < gp_new_rt_clusters plan then 0 else gx_refblock_count gx"

abbreviation image_len :: "growth_exec \<Rightarrow> refcount_growth_plan \<Rightarrow> nat" where
  "image_len gx plan \<equiv> if 0 < gp_new_rt_clusters plan then unat (gp_new_rt_clusters plan) * unat (gx_cluster_size gx)
     else (unat (gp_needed_slots plan) - gx_refblock_count gx) * 8"

text \<open>Everything that staging a plan yields, before the first write.\<close>

lemma staged_growth:
  assumes fit: "growth_fit gx plan rt rb"
    and ap: "meta_apart rt (unat (rt_offset rt_table)) (unat (rt_clusters rt_table) * unat (gx_cluster_size gx)) (unat (gx_cluster_size gx))
      (unat (gp_rt_start plan) * unat (gx_cluster_size gx)) (gx_refblock_count gx)"
    and room: "gp_new_rt_clusters plan = 0 \<longrightarrow> unat (gp_needed_slots plan) * 8 \<le> unat (rt_clusters rt_table) * unat (gx_cluster_size gx)"
  obtains rt1 g1 rb1 off where "stage_table gx plan rt = Some rt1" "stage_refblocks gx plan rb = Some (True, g1, rb1)"
    "gx_refblock_count g1 = unat (gp_needed_slots plan)" "gx_cluster_size g1 = gx_cluster_size gx" "gx_entries_per_refblock g1 = gx_entries_per_refblock gx"
    "gx_ok g1 rb1" "unat (gp_needed_slots plan) * 8 \<le> length rt1"
    "\<And>k. k < gx_refblock_count gx \<Longrightarrow> slice_at (k * 8) 8 rt1 = slice_at (k * 8) 8 rt"
    "\<And>k. k < unat (gp_needed_slots plan) \<Longrightarrow> \<not> gx_dirty_at g1 k \<Longrightarrow> k < gx_refblock_count gx \<and> gx_block gx rb1 k = gx_block gx rb k"
    "\<And>j. j < unat (gp_needed_slots plan) * unat (gx_entries_per_refblock gx) \<Longrightarrow> 2 * j + 2 \<le> length rb1 \<and>
       rc_flat rb1 j = (if unat (gp_rt_start plan) \<le> j \<and> j < grown_end plan then 1
         else if j < gx_refblock_count gx * unat (gx_entries_per_refblock gx) then rc_flat rb j else 0)"
    "meta_apart rt1 (grown_table gx plan rt_table) (grown_room gx plan rt_table) (unat (gx_cluster_size gx))
       (grown_end plan * unat (gx_cluster_size gx)) (unat (gp_needed_slots plan))"
    "\<forall>g2. gx_same g1 g2 \<longrightarrow> table_image g2 (gx_refblock_count gx) plan rt_table rt1 = (off, slice_at (image_first gx plan * 8) (image_len gx plan) rt1)"
    "unat off = grown_table gx plan rt_table + image_first gx plan * 8"
    "unat (gp_needed_slots plan) * 8 \<le> image_first gx plan * 8 + image_len gx plan"
    "image_first gx plan * 8 + image_len gx plan \<le> length rt1" "image_first gx plan * 8 + image_len gx plan \<le> grown_room gx plan rt_table"
    "image_len gx plan < 2 ^ 64"
    "unat (rt_offset rt_table) div unat (gx_cluster_size gx) + unat (rt_clusters rt_table) \<le> unat (gp_rt_start plan)"
    "grown_end plan \<le> unat (gp_needed_slots plan) * unat (gx_entries_per_refblock gx)"
proof -
  let ?n = "unat (gp_needed_slots plan)" let ?cs = "unat (gx_cluster_size gx)" let ?e = "unat (gx_entries_per_refblock gx)"
  note F = fit[unfolded growth_fit_def]
  have c: "0 < ?cs" "?n * 8 \<le> length rt" "grown_end plan \<le> ?n * ?e" "?n * ?cs \<le> length rb" "?n * ?e * 2 = ?n * ?cs" using F by auto
  have inf: "unat (rt_offset rt_table) + unat (rt_clusters rt_table) * ?cs \<le> unat (gp_rt_start plan) * ?cs" using ap by (simp add: meta_apart_def)
  obtain rt1 where T: "stage_table gx plan rt = Some rt1" "length rt1 = length rt"
    "\<And>k. k < gx_refblock_count gx \<Longrightarrow> slice_at (k * 8) 8 rt1 = slice_at (k * 8) 8 rt"
    "\<And>k. gx_refblock_count gx \<le> k \<Longrightarrow> k < ?n \<Longrightarrow> unat (rb_host_at rt1 k) = (unat (gp_refblocks_start plan) + (k - gx_refblock_count gx)) * ?cs"
    using stage_table_fit[OF fit] by blast
  obtain g1 rb1 where B: "stage_refblocks gx plan rb = Some (True, g1, rb1)" "gx_same (gx\<lparr>gx_refblock_count := ?n\<rparr>) g1" "length rb1 = length rb" "gx_ok g1 rb1"
    "\<And>k. k < ?n \<Longrightarrow> \<not> gx_dirty_at g1 k \<Longrightarrow> k < gx_refblock_count gx \<and> gx_block gx rb1 k = gx_block gx rb k"
    "\<And>j. j < ?n * ?e \<Longrightarrow> rc_flat rb1 j = (if unat (gp_rt_start plan) \<le> j \<and> j < grown_end plan then 1 else if j < gx_refblock_count gx * ?e then rc_flat rb j else 0)"
    using stage_refblocks_fit[OF fit] by blast
  obtain off where I: "\<forall>g2. gx_same g1 g2 \<longrightarrow> table_image g2 (gx_refblock_count gx) plan rt_table rt1 = (off, slice_at (image_first gx plan * 8) (image_len gx plan) rt1)"
    "unat off = grown_table gx plan rt_table + image_first gx plan * 8" "?n * 8 \<le> image_first gx plan * 8 + image_len gx plan"
    "image_first gx plan * 8 + image_len gx plan \<le> length rt1" "image_first gx plan * 8 + image_len gx plan \<le> grown_room gx plan rt_table" "image_len gx plan < 2 ^ 64"
    using table_image_fit[OF fit T(2) B(2) inf room] by blast
  have J: "2 * j + 2 \<le> length rb1" if "j < ?n * ?e" for j using c(4,5) B(3) cluster_below[OF that, of 2] by linarith
  show ?thesis
    using B(2) J B(6) c(2) T(2) by (intro that[OF T(1) B(1) _ _ _ B(4) _ T(3) B(5) _ meta_grow[OF fit ap room T(3,4)] I old_table_clusters[OF inf c(1)] c(3)])
      (simp_all add: gx_same_simps)
qed

context sector_disk
begin

lemma flush_blocks:
  assumes ok: "gx_ok gx rb" and n: "gx_refblock_count gx = n" "unat (gx_cluster_size gx) = cs" and rt: "n * 8 \<le> length rt"
    and ap: "meta_apart rt tbl room cs lim n"
    and clean: "\<forall>k<n. \<not> gx_dirty_at gx k \<longrightarrow> bytes_at (content d dev) (unat (rb_host_at rt k)) cs = slice_at (k * cs) cs rb"
  shows "\<exists>fine gx' rmw' d'. flush_dirty_refblocks io dev rt rb gx rmw d = Some (fine, gx', rmw', d') \<and> gx_same gx gx' \<and> length rmw' = length rmw \<and>
    (fine \<longrightarrow> (\<forall>k<n. \<not> gx_dirty_at gx' k) \<and> blocks_on_disk (content d' dev) rt rb cs n \<and>
       (\<forall>a l. tbl \<le> a \<and> a + l \<le> tbl + room \<or> a + l \<le> 60 \<longrightarrow> bytes_at (content d' dev) a l = bytes_at (content d dev) a l) \<and>
       (\<forall>e. e \<noteq> dev \<longrightarrow> content d' e = content d e))"
proof -
  let ?ks = "filter (gx_dirty_at gx) [0..<n]" let ?m = "content d dev" let ?m' = "blocks_out rt rb cs ?ks ?m"
  obtain fine gx' rmw' d' where E: "flush_dirty_refblocks io dev rt rb gx rmw d = Some (fine, gx', rmw', d')" "gx_same gx gx'" "length rmw' = length rmw"
    "fine \<Longrightarrow> \<forall>k. gx_dirty_at gx' k \<longleftrightarrow> gx_dirty_at gx k \<and> \<not> (0 \<le> k \<and> k < n)" "fine \<Longrightarrow> content d' = (content d)(dev := ?m')"
    using flush_refblocks_exact[OF ok, of rt dev 0 rmw d] rt unfolding n flush_dirty_refblocks_def by blast
  have bl: "k * cs + cs \<le> length rb" if "k < n" for k using block_in(1)[OF ok] that unfolding n by simp
  have miss: "bytes_at ?m' a l = bytes_at ?m a l" if "\<And>k. k < n \<Longrightarrow> apart a l (unat (rb_host_at rt k)) cs" for a l
    using that bl by (intro blocks_out_miss) auto
  have B: "blocks_on_disk ?m' rt rb cs n" unfolding blocks_on_disk_def
  proof (intro allI impI)
    fix k assume k: "k < n"
    have q: "\<And>j. j < n \<Longrightarrow> j \<noteq> k \<Longrightarrow> apart (unat (rb_host_at rt k)) cs (unat (rb_host_at rt j)) cs" using ap k by (simp add: meta_apart_def)
    show "bytes_at ?m' (unat (rb_host_at rt k)) cs = slice_at (k * cs) cs rb"
    proof (cases "gx_dirty_at gx k")
      case True
      then show ?thesis using k q bl by (intro blocks_out_hit) auto
    next
      case False
      have "bytes_at ?m' (unat (rb_host_at rt k)) cs = bytes_at ?m (unat (rb_host_at rt k)) cs"
        using q bl False by (intro blocks_out_miss) auto
      then show ?thesis using clean k False by simp
    qed
  qed
  have T: "bytes_at ?m' a l = bytes_at ?m a l" if "tbl \<le> a \<and> a + l \<le> tbl + room \<or> a + l \<le> 60" for a l
  proof (rule miss)
    fix j assume "j < n"
    then show "apart a l (unat (rb_host_at rt j)) cs" using that ap apart_sub[of "unat (rb_host_at rt j)" cs tbl room a l]
      by (auto simp: meta_apart_def apart_sym[of a] apart_def)
  qed
  have "(\<forall>k<n. \<not> gx_dirty_at gx' k) \<and> blocks_on_disk (content d' dev) rt rb cs n \<and>
       (\<forall>a l. tbl \<le> a \<and> a + l \<le> tbl + room \<or> a + l \<le> 60 \<longrightarrow> bytes_at (content d' dev) a l = bytes_at (content d dev) a l) \<and>
       (\<forall>e. e \<noteq> dev \<longrightarrow> content d' e = content d e)" if f: fine
    using E(4)[OF f] B T unfolding E(5)[OF f] by simp
  then show ?thesis using E(1-3) by blast
qed

text \<open>Publishing: the blocks, then the table.\<close>

lemma publish_exact:
  assumes ok: "gx_ok gx (gb_refblocks bufs)" and n: "gx_refblock_count gx = n" "unat (gx_cluster_size gx) = cs"
    and rt: "rt = gb_refcount_table bufs" "n * 8 \<le> length rt" and ap: "meta_apart rt tbl room cs lim n"
    and clean: "\<forall>k<n. \<not> gx_dirty_at gx k \<longrightarrow> bytes_at (content d dev) (unat (rb_host_at rt k)) cs = slice_at (k * cs) cs (gb_refblocks bufs)"
    and im: "\<forall>gx'. gx_same gx gx' \<longrightarrow> table_image gx' old plan rt_table rt = (off, slice_at (c * 8) len rt)" "unat off = tbl + c * 8"
    and len: "n * 8 \<le> c * 8 + len" "c * 8 + len \<le> length rt" "c * 8 + len \<le> room" "len < 2 ^ 64"
    and before: "\<forall>k. k < c \<longrightarrow> k < n \<longrightarrow> bytes_at (content d dev) (tbl + k * 8) 8 = slice_at (k * 8) 8 rt"
  shows "\<exists>r gx' rmw' d'. publish_table io dev gx old plan rt_table bufs d = Some (r, gx', bufs\<lparr>gb_rmw_sector := rmw'\<rparr>, d') \<and>
    gx_same gx gx' \<and> r \<noteq> Inl StageOutOfCoverage \<and> length rmw' = length (gb_rmw_sector bufs) \<and>
    (r = Inr () \<longrightarrow> (\<forall>k<n. \<not> gx_dirty_at gx' k) \<and> blocks_on_disk (content d' dev) rt (gb_refblocks bufs) cs n \<and>
       table_on_disk (content d' dev) tbl rt n \<and> (\<forall>e. e \<noteq> dev \<longrightarrow> content d' e = content d e))"
proof -
  let ?rb = "gb_refblocks bufs" let ?src = "slice_at (c * 8) len rt"
  obtain fine g1 rmw1 d1 where F: "flush_dirty_refblocks io dev rt ?rb gx (gb_rmw_sector bufs) d = Some (fine, g1, rmw1, d1)" "gx_same gx g1"
    "length rmw1 = length (gb_rmw_sector bufs)"
    "fine \<longrightarrow> (\<forall>k<n. \<not> gx_dirty_at g1 k) \<and> blocks_on_disk (content d1 dev) rt ?rb cs n \<and>
       (\<forall>a l. tbl \<le> a \<and> a + l \<le> tbl + room \<or> a + l \<le> 60 \<longrightarrow> bytes_at (content d1 dev) a l = bytes_at (content d dev) a l) \<and>
       (\<forall>e. e \<noteq> dev \<longrightarrow> content d1 e = content d e)"
    using flush_blocks[OF ok n rt(2) ap clean, of "gb_rmw_sector bufs"] by blast
  show ?thesis
  proof (cases fine)
    case False
    then show ?thesis using F rt(1) by (intro exI[of _ "Inl GrowthWriteFailed"] exI[of _ g1] exI[of _ rmw1] exI[of _ d1]) (simp add: publish_table_def)
  next
    case True
    obtain q rmw2 d2 where W: "write_bytes io dev off ?src rmw1 d1 = (q, rmw2, d2)" by (metis prod_cases3)
    have l: "length ?src = len" using len(2) by simp
    note X = write_bytes_exact[OF W, unfolded l, OF len(4)]
    obtain p d3 where Y: "durability io dev d2 = (p, d3)" by fastforce
    have Y2: "content d3 = content d2" "p \<noteq> Inl StageOutOfCoverage" using Y fsync
      by (auto simp: durability_def split: prod.splits option.splits bool.splits)
    show ?thesis
    proof (cases q)
      case (Inl e)
      then show ?thesis using F(1-3) X W True im(1)[rule_format, OF F(2)] rt(1)
        by (intro exI[of _ "Inl GrowthWriteFailed"] exI[of _ g1] exI[of _ rmw2] exI[of _ d2]) (simp add: publish_table_def)
    next
      case (Inr u)
      have C: "content d3 = (content d1)(dev := overwrite (tbl + c * 8) ?src (content d1 dev))" using X Inr Y2 im(2) by simp
      show ?thesis
      proof (intro exI conjI)
        show "publish_table io dev gx old plan rt_table bufs d = Some (p, g1, bufs\<lparr>gb_rmw_sector := rmw2\<rparr>, d3)"
          using F(1-3) W True Inr im(1)[rule_format, OF F(2)] rt(1) Y by (simp add: publish_table_def)
        show "gx_same gx g1" by (rule F(2))
        show "p \<noteq> Inl StageOutOfCoverage" by (rule Y2(2))
        show "length rmw2 = length (gb_rmw_sector bufs)" using X F(3) by simp
        have "bytes_at (content d1 dev) (tbl + k * 8) 8 = slice_at (k * 8) 8 rt" if "k < c" "k < n" for k
          using F(4) True before that len ap by (simp add: meta_apart_def)
        then have "table_on_disk (content d3 dev) tbl rt n" unfolding C using len(1,2) by (simp add: table_hit)
        moreover have "blocks_on_disk (content d3 dev) rt ?rb cs n"
          unfolding C using F(4) True blocks_miss[OF ap, of "tbl + c * 8" ?src] l len(3) by simp
        ultimately show "p = Inr () \<longrightarrow> (\<forall>k<n. \<not> gx_dirty_at g1 k) \<and> blocks_on_disk (content d3 dev) rt ?rb cs n \<and>
           table_on_disk (content d3 dev) tbl rt n \<and> (\<forall>e. e \<noteq> dev \<longrightarrow> content d3 e = content d e)"
          using F(4) True unfolding C by simp
      qed
    qed
  qed
qed

text \<open>Relocation: the header fields, then the freed clusters of the old table.\<close>

lemma relocate_exact:
  assumes ok: "gx_ok gx (gb_refblocks bufs)" and n: "gx_refblock_count gx = n" "unat (gx_cluster_size gx) = cs"
    and rt: "rt = gb_refcount_table bufs" "n * 8 \<le> length rt" and ap: "meta_apart rt tbl room cs lim n"
    and clean: "\<forall>k<n. \<not> gx_dirty_at gx k"
    and old: "unat (rt_offset rt_table) div cs + unat (rt_clusters rt_table) \<le> n * unat (gx_entries_per_refblock gx)"
    and disk: "blocks_on_disk (content d dev) rt (gb_refblocks bufs) cs n" "table_on_disk (content d dev) tbl rt n"
  shows "\<exists>r gx' rb' rmw' d'. relocate_table io dev gx plan rt_table bufs d = Some (r, gx', bufs\<lparr>gb_refblocks := rb', gb_rmw_sector := rmw'\<rparr>, d') \<and>
    gx_same gx gx' \<and> r \<noteq> Inl StageOutOfCoverage \<and>
    (r = Inr () \<longrightarrow> (\<forall>k<n. \<not> gx_dirty_at gx' k) \<and> blocks_on_disk (content d' dev) rt rb' cs n \<and> table_on_disk (content d' dev) tbl rt n \<and>
       bytes_at (content d' dev) 48 12 = header_patch gx plan \<and>
       (\<forall>j. 2 * j + 2 \<le> length (gb_refblocks bufs) \<longrightarrow> rc_flat rb' j =
          (if unat (rt_offset rt_table) div cs \<le> j \<and> j < unat (rt_offset rt_table) div cs + unat (rt_clusters rt_table) then 0 else rc_flat (gb_refblocks bufs) j)) \<and>
       (\<forall>e. e \<noteq> dev \<longrightarrow> content d' e = content d e))"
proof -
  let ?rb = "gb_refblocks bufs" let ?h = "header_patch gx plan" let ?c = "rt_offset rt_table div gx_cluster_size gx"
  have cz: "gx_cluster_size gx \<noteq> 0" using ok by (auto simp: gx_ok_def)
  have l: "length ?h = 12" by (simp add: header_patch_def)
  obtain q rmw1 d1 where W: "write_bytes io dev 48 ?h (gb_rmw_sector bufs) d = (q, rmw1, d1)" by (metis prod_cases3)
  note X = write_bytes_exact[OF W, unfolded l]
  obtain p d2 where Y: "durability io dev d1 = (p, d2)" by fastforce
  have Y2: "content d2 = content d1" "p \<noteq> Inl StageOutOfCoverage" using Y fsync
    by (auto simp: durability_def split: prod.splits option.splits bool.splits)
  show ?thesis
  proof (cases "q = Inr () \<and> p = Inr ()")
    case False
    then obtain e d3 where "relocate_table io dev gx plan rt_table bufs d = Some (Inl e, gx, bufs\<lparr>gb_rmw_sector := rmw1\<rparr>, d3)" "e \<noteq> StageOutOfCoverage"
      using W Y Y2(2) by (cases q; cases p) (auto simp: relocate_table_def)
    then show ?thesis by (intro exI[of _ "Inl e"] exI[of _ gx] exI[of _ ?rb] exI[of _ rmw1] exI[of _ d3]) simp
  next
    case True
    then have C2: "content d2 = (content d)(dev := overwrite 48 ?h (content d dev))" using X Y2(1) by simp
    have u: "unat ?c = unat (rt_offset rt_table) div cs" using n(2) by (simp add: unat_div)
    have "unat ?c + unat (rt_clusters rt_table) \<le> gx_refblock_count gx * unat (gx_entries_per_refblock gx)" using old n(1) u by simp
    from stage_range_ok[OF ok this, of 0] obtain g1 rb1 where
      R: "stage_range (unat (rt_clusters rt_table)) gx ?rb ?c 0 = Some (True, g1, rb1)" "tracked gx ?rb g1 rb1"
        "\<forall>j. 2 * j + 2 \<le> length ?rb \<longrightarrow> rc_flat rb1 j = (if unat ?c \<le> j \<and> j < unat ?c + unat (rt_clusters rt_table) then 0 else rc_flat ?rb j)" by auto
    have g1: "gx_same gx g1" "length rb1 = length ?rb" "\<And>k. k < n \<Longrightarrow> \<not> gx_dirty_at g1 k \<Longrightarrow> slice_at (k * cs) cs rb1 = slice_at (k * cs) cs ?rb"
      using R(2) n by (auto simp: tracked_def)
    have ok1: "gx_ok g1 rb1" using gx_same_simps(5)[OF g1(1,2)] ok by simp
    have n1: "gx_refblock_count g1 = n" "unat (gx_cluster_size g1) = cs" using g1(1) n by (simp_all add: gx_same_simps)
    have D2: "blocks_on_disk (content d2 dev) rt ?rb cs n" "table_on_disk (content d2 dev) tbl rt n"
      unfolding C2 using disk header_miss[OF ap, of 48 ?h] l by simp_all
    have "\<forall>k<n. \<not> gx_dirty_at g1 k \<longrightarrow> bytes_at (content d2 dev) (unat (rb_host_at rt k)) cs = slice_at (k * cs) cs rb1"
      using D2(1) g1(3) by (simp add: blocks_on_disk_def)
    from flush_blocks[OF ok1 n1 rt(2) ap this, of rmw1] obtain fine g2 rmw2 d3 where
      F: "flush_dirty_refblocks io dev rt rb1 g1 rmw1 d2 = Some (fine, g2, rmw2, d3)" "gx_same g1 g2"
        "fine \<longrightarrow> (\<forall>k<n. \<not> gx_dirty_at g2 k) \<and> blocks_on_disk (content d3 dev) rt rb1 cs n \<and>
         (\<forall>a l. tbl \<le> a \<and> a + l \<le> tbl + room \<or> a + l \<le> 60 \<longrightarrow> bytes_at (content d3 dev) a l = bytes_at (content d2 dev) a l) \<and>
         (\<forall>e. e \<noteq> dev \<longrightarrow> content d3 e = content d2 e)" by blast
    have E: "relocate_table io dev gx plan rt_table bufs d =
        Some (if fine then Inr () else Inl GrowthWriteFailed, g2, bufs\<lparr>gb_refblocks := rb1, gb_rmw_sector := rmw2\<rparr>, d3)"
      using W Y True R(1) F(1) rt(1) cz by (simp add: relocate_table_def Let_def)
    have room: "n * 8 \<le> room" using ap by (simp add: meta_apart_def)
    have H: "bytes_at (content d2 dev) 48 12 = ?h" unfolding C2 using bytes_at_hit[of 0 12 ?h 48] l by (simp add: slice_at_def)
    have "bytes_at (content d3 dev) (tbl + k * 8) 8 = slice_at (k * 8) 8 rt" if fine "k < n" for k
      using F(3) that D2(2) room by (simp add: table_on_disk_def)
    then show ?thesis using E F R(3) H C2 gx_same_trans[OF g1(1) F(2)] unfolding u
      by (intro exI[of _ "if fine then Inr () else Inl GrowthWriteFailed"] exI[of _ g2] exI[of _ rb1] exI[of _ rmw2] exI[of _ d3])
        (simp add: table_on_disk_def)
  qed
qed

lemma grow_exact:
  assumes fit: "growth_fit gx plan (gb_refcount_table bufs) (gb_refblocks bufs)"
    and start: "growth_start (content d dev) gx rt_table bufs (unat (gp_rt_start plan))"
    and room: "gp_new_rt_clusters plan = 0 \<longrightarrow> unat (gp_needed_slots plan) * 8 \<le> unat (rt_clusters rt_table) * unat (gx_cluster_size gx)"
  shows "\<exists>r gx' bufs' d'. grow_refcounts io dev gx plan rt_table bufs d = Some (r, gx', bufs', d') \<and> r \<noteq> Inl StageOutOfCoverage \<and>
    (r = Inr () \<longrightarrow> growth_published (content d' dev) gx plan rt_table bufs gx' bufs' \<and> (\<forall>e. e \<noteq> dev \<longrightarrow> content d' e = content d e))"
proof -
  let ?n = "unat (gp_needed_slots plan)" let ?cs = "unat (gx_cluster_size gx)" let ?e = "unat (gx_entries_per_refblock gx)"
  let ?tbl = "grown_table gx plan rt_table" let ?pop = "gx_refblock_count gx" let ?rt = "gb_refcount_table bufs" let ?rb = "gb_refblocks bufs"
  have ap: "meta_apart ?rt (unat (rt_offset rt_table)) (unat (rt_clusters rt_table) * ?cs) ?cs (unat (gp_rt_start plan) * ?cs) ?pop"
    and tb: "table_on_disk (content d dev) (unat (rt_offset rt_table)) ?rt ?pop" "blocks_on_disk (content d dev) ?rt ?rb ?cs ?pop"
    using start by (simp_all add: growth_start_def Let_def)
  show ?thesis
  proof (rule staged_growth[OF fit ap room], goal_cases)
    case (1 rt1 g1 rb1 off)
    note S = 1(1,2) and g1 = 1(3-5) and ok = 1(6) and lr = 1(7) and T3 = 1(8) and B5 = 1(9) and B6 = 1(10) and M = 1(11) and I = 1(12-17) and old = 1(18,19)
    let ?b1 = "bufs\<lparr>gb_refcount_table := rt1, gb_refblocks := rb1\<rparr>"
    have clean: "\<forall>k<?n. \<not> gx_dirty_at g1 k \<longrightarrow> bytes_at (content d dev) (unat (rb_host_at rt1 k)) ?cs = slice_at (k * ?cs) ?cs (gb_refblocks ?b1)"
      using B5 tb(2) T3 by (simp add: blocks_on_disk_def rb_host_at_def)
    have before: "\<forall>k. k < image_first gx plan \<longrightarrow> k < ?n \<longrightarrow> bytes_at (content d dev) (?tbl + k * 8) 8 = slice_at (k * 8) 8 rt1"
      using tb(1) T3 by (auto simp: table_on_disk_def grown_table_def split: if_splits)
    obtain r g2 rmw2 d2 where P: "publish_table io dev g1 ?pop plan rt_table ?b1 d = Some (r, g2, ?b1\<lparr>gb_rmw_sector := rmw2\<rparr>, d2)" "gx_same g1 g2"
      "r \<noteq> Inl StageOutOfCoverage"
      "r = Inr () \<longrightarrow> (\<forall>k<?n. \<not> gx_dirty_at g2 k) \<and> blocks_on_disk (content d2 dev) rt1 rb1 ?cs ?n \<and>
         table_on_disk (content d2 dev) ?tbl rt1 ?n \<and> (\<forall>e. e \<noteq> dev \<longrightarrow> content d2 e = content d e)"
      using publish_exact[of g1 ?b1 ?n ?cs rt1 ?tbl "grown_room gx plan rt_table" "grown_end plan * ?cs" d dev ?pop plan rt_table off "image_first gx plan" "image_len gx plan"]
        ok g1 lr M clean I before by auto
    show ?thesis
    proof (cases "r = Inr () \<and> 0 < gp_new_rt_clusters plan")
      case False
      then have "grow_refcounts io dev gx plan rt_table bufs d = Some (r, g2, ?b1\<lparr>gb_rmw_sector := rmw2\<rparr>, d2)"
        using S P(1) by (cases r) (auto simp: grow_refcounts_def)
      moreover have "growth_published (content d2 dev) gx plan rt_table bufs g2 (?b1\<lparr>gb_rmw_sector := rmw2\<rparr>)" if "r = Inr ()"
        using P(2,4) that False g1 B6 M by (simp add: growth_published_def Let_def gx_same_simps)
      ultimately show ?thesis using P(3,4) by blast
    next
      case True
      let ?b2 = "?b1\<lparr>gb_rmw_sector := rmw2\<rparr>"
      have g2: "gx_refblock_count g2 = ?n" "gx_cluster_size g2 = gx_cluster_size gx" "gx_entries_per_refblock g2 = gx_entries_per_refblock gx"
        using P(2) g1 by (simp_all add: gx_same_simps)
      have ok2: "gx_ok g2 (gb_refblocks ?b2)" using gx_same_simps(5)[OF P(2) refl] ok by simp
      have "unat (rt_offset rt_table) div ?cs + unat (rt_clusters rt_table) \<le> ?n * unat (gx_entries_per_refblock g2)" using old g2(3) by simp
      from relocate_exact[of g2 ?b2 ?n ?cs rt1 ?tbl "grown_room gx plan rt_table" "grown_end plan * ?cs" rt_table d2 dev plan, OF ok2 _ _ _ _ M _ this]
      obtain q g3 rb3 rmw3 d3 where R: "relocate_table io dev g2 plan rt_table ?b2 d2 = Some (q, g3, ?b2\<lparr>gb_refblocks := rb3, gb_rmw_sector := rmw3\<rparr>, d3)"
        "gx_same g2 g3" "q \<noteq> Inl StageOutOfCoverage"
        "q = Inr () \<longrightarrow> (\<forall>k<?n. \<not> gx_dirty_at g3 k) \<and> blocks_on_disk (content d3 dev) rt1 rb3 ?cs ?n \<and> table_on_disk (content d3 dev) ?tbl rt1 ?n \<and>
           bytes_at (content d3 dev) 48 12 = header_patch g2 plan \<and>
           (\<forall>j. 2 * j + 2 \<le> length rb1 \<longrightarrow> rc_flat rb3 j =
              (if unat (rt_offset rt_table) div ?cs \<le> j \<and> j < unat (rt_offset rt_table) div ?cs + unat (rt_clusters rt_table) then 0 else rc_flat rb1 j)) \<and>
           (\<forall>e. e \<noteq> dev \<longrightarrow> content d3 e = content d2 e)"
        using P(4) True g2 lr by auto
      have "grow_refcounts io dev gx plan rt_table bufs d = Some (q, g3, ?b2\<lparr>gb_refblocks := rb3, gb_rmw_sector := rmw3\<rparr>, d3)"
        using S P(1) True R(1) by (simp add: grow_refcounts_def)
      moreover have "growth_published (content d3 dev) gx plan rt_table bufs g3 (?b2\<lparr>gb_refblocks := rb3, gb_rmw_sector := rmw3\<rparr>)" if "q = Inr ()"
        using R(2,4) that True g2 B6 M old by (simp add: growth_published_def Let_def gx_same_simps header_patch_def)
      ultimately show ?thesis using R(3,4) P(4) True by auto
    qed
  qed
qed

end

context healthy_disk
begin

lemma flush_refblocks_ok:
  assumes "gx_ok gx rb" "gx_refblock_count gx * 8 \<le> length rt" "ready d" "ssz dev \<le> length rmw"
    and "\<forall>k<gx_refblock_count gx. unat (rb_host_at rt k) + unat (gx_cluster_size gx) \<le> cap d dev"
  shows "\<exists>gx' rmw' d'. flush_refblocks_from io dev rt rb slot gx rmw d = Some (True, gx', rmw', d') \<and> ready d' \<and> cap d' = cap d"
  using assms
proof (induction "gx_refblock_count gx - slot" arbitrary: slot gx rmw d rule: less_induct)
  case less
  let ?n = "gx_refblock_count gx"
  note S = flush_refblocks_from.simps[of io dev rt rb slot gx rmw d, unfolded gx_dirty_get_iff gx_dirty_clear_def]
  show ?case
  proof (cases "?n \<le> slot")
    case True
    then show ?thesis using S less.prems by simp
  next
    case False
    then have sl: "slot < ?n" by simp
    note B = block_in[OF less.prems(1) sl]
    have adv: ?thesis if E: "flush_refblocks_from io dev rt rb slot gx rmw d = flush_refblocks_from io dev rt rb (slot + s) gx rmw d" and s: "0 < s" for s
    proof -
      have "?n - (slot + s) < ?n - slot" using sl s by simp
      from less.hyps[OF this less.prems] show ?thesis unfolding E .
    qed
    consider (skip) "slot mod 64 = 0 \<and> gx_dirty gx ! (slot div 64) = 0" | (dirty) "gx_dirty_at gx slot" "\<not> (slot mod 64 = 0 \<and> gx_dirty gx ! (slot div 64) = 0)"
      | (clean) "\<not> gx_dirty_at gx slot" "\<not> (slot mod 64 = 0 \<and> gx_dirty gx ! (slot div 64) = 0)" by argo
    then show ?thesis
    proof cases
      case skip
      then show ?thesis using S sl B(2) by (intro adv[of 64]) simp_all
    next
      case clean
      have "flush_refblocks_from io dev rt rb slot gx rmw d = flush_refblocks_from io dev rt rb (slot + 1) gx rmw d"
        unfolding S using sl B(2) clean(1) by (simp only: clean(2) not_le if_False) simp
      then show ?thesis by (rule adv) simp
    next
      case dirty
      let ?gx = "clear_slot gx slot"
      have lb: "length (gx_block gx rb slot) = unat (gx_cluster_size gx)" using B(1) by simp
      obtain rmw1 d1 where W: "write_bytes io dev (rb_host_at rt slot) (gx_block gx rb slot) rmw d = (Inr (), rmw1, d1)" "ready d1" "cap d1 = cap d"
        using write_bytes_ok[of d "rb_host_at rt slot" "gx_block gx rb slot" dev rmw] less.prems sl lb by auto
      have "length rmw1 = length rmw" using write_bytes_exact[OF W(1)] lb unat_u64_less by simp
      moreover have e: "read_u64_be rt (slot * 8) = Some (u64_from_be (slice_at (slot * 8) 8 rt))" using less.prems(2) sl by (simp add: read_u64_be_def)
      have E: "flush_refblocks_from io dev rt rb slot gx rmw d = flush_refblocks_from io dev rt rb (Suc slot) ?gx rmw1 d1"
        using S sl B dirty e W by (simp add: Let_def rb_host_at_def)
      have "gx_same gx ?gx" by (simp add: gx_same_def)
      then have "gx_ok ?gx rb" "gx_refblock_count ?gx * 8 \<le> length rt" "gx_refblock_count ?gx - Suc slot < ?n - slot"
        using less.prems sl by (simp_all add: gx_same_simps)
      ultimately show ?thesis using less.hyps[of ?gx "Suc slot" d1 rmw1] less.prems W(2,3) unfolding E by simp
    qed
  qed
qed

lemma durability_ok: "ready d \<Longrightarrow> \<exists>d'. durability io dev d = (Inr (), d') \<and> ready d' \<and> cap d' = cap d"
  using fsync_ok[of d dev] by (fastforce simp: durability_def split: option.splits bool.splits)

lemma publish_ok:
  assumes "gx_ok gx (gb_refblocks bufs)" "gx_refblock_count gx * 8 \<le> length (gb_refcount_table bufs)" "ready d" "ssz dev \<le> length (gb_rmw_sector bufs)"
    and "\<forall>k<gx_refblock_count gx. unat (rb_host_at (gb_refcount_table bufs) k) + unat (gx_cluster_size gx) \<le> cap d dev"
    and im: "\<forall>gx'. gx_same gx gx' \<longrightarrow> table_image gx' old plan rt_table (gb_refcount_table bufs) = (off, img)" "unat off + length img \<le> cap d dev" "length img < 2 ^ 64"
  shows "\<exists>gx' rmw' d'. publish_table io dev gx old plan rt_table bufs d = Some (Inr (), gx', bufs\<lparr>gb_rmw_sector := rmw'\<rparr>, d') \<and>
    gx_same gx gx' \<and> length rmw' = length (gb_rmw_sector bufs) \<and> ready d' \<and> cap d' = cap d"
proof -
  obtain g1 rmw1 d1 where F: "flush_dirty_refblocks io dev (gb_refcount_table bufs) (gb_refblocks bufs) gx (gb_rmw_sector bufs) d = Some (True, g1, rmw1, d1)"
    "ready d1" "cap d1 = cap d" using flush_refblocks_ok[OF assms(1-5), of 0] unfolding flush_dirty_refblocks_def by blast
  have g: "gx_same gx g1" "length rmw1 = length (gb_rmw_sector bufs)"
    using flush_refblocks_exact[OF assms(1,2), of dev 0 "gb_rmw_sector bufs" d] F(1) unfolding flush_dirty_refblocks_def by auto
  obtain rmw2 d2 where W: "write_bytes io dev off img rmw1 d1 = (Inr (), rmw2, d2)" "ready d2" "cap d2 = cap d"
    using write_bytes_ok[OF F(2), of off img dev rmw1] im(2) F(3) g(2) assms(4) by auto
  obtain d3 where "durability io dev d2 = (Inr (), d3)" "ready d3" "cap d3 = cap d" using durability_ok[OF W(2), of dev] W(3) by auto
  then show ?thesis using F(1) W(1) im(1)[rule_format, OF g(1)] g write_bytes_exact[OF W(1) im(3)]
    by (intro exI[of _ g1] exI[of _ rmw2] exI[of _ d3]) (simp add: publish_table_def)
qed

lemma relocate_ok:
  assumes ok: "gx_ok gx (gb_refblocks bufs)" and rt: "gx_refblock_count gx * 8 \<le> length (gb_refcount_table bufs)"
    and r: "ready d" "ssz dev \<le> length (gb_rmw_sector bufs)" "60 \<le> cap d dev"
    and c: "\<forall>k<gx_refblock_count gx. unat (rb_host_at (gb_refcount_table bufs) k) + unat (gx_cluster_size gx) \<le> cap d dev"
    and old: "unat (rt_offset rt_table) div unat (gx_cluster_size gx) + unat (rt_clusters rt_table) \<le> gx_refblock_count gx * unat (gx_entries_per_refblock gx)"
  shows "\<exists>gx' bufs' d'. relocate_table io dev gx plan rt_table bufs d = Some (Inr (), gx', bufs', d')"
proof -
  let ?h = "header_patch gx plan" let ?c = "rt_offset rt_table div gx_cluster_size gx"
  have l: "length ?h = 12" by (simp add: header_patch_def)
  have cz: "gx_cluster_size gx \<noteq> 0" using ok by (auto simp: gx_ok_def)
  obtain rmw1 d1 where W: "write_bytes io dev 48 ?h (gb_rmw_sector bufs) d = (Inr (), rmw1, d1)" "ready d1" "cap d1 = cap d"
    using write_bytes_ok[OF r(1), of 48 ?h dev "gb_rmw_sector bufs"] l r by auto
  have lr: "length rmw1 = length (gb_rmw_sector bufs)" using write_bytes_exact[OF W(1)] l by simp
  obtain d2 where Y: "durability io dev d1 = (Inr (), d2)" "ready d2" "cap d2 = cap d" using durability_ok[OF W(2), of dev] W(3) by auto
  have "unat ?c + unat (rt_clusters rt_table) \<le> gx_refblock_count gx * unat (gx_entries_per_refblock gx)" using old by (simp add: unat_div)
  from stage_range_ok[OF ok this, of 0] obtain g1 rb1 where
    R: "stage_range (unat (rt_clusters rt_table)) gx (gb_refblocks bufs) ?c 0 = Some (True, g1, rb1)" "gx_same gx g1" "length rb1 = length (gb_refblocks bufs)"
    by (auto simp: tracked_def)
  have "gx_ok g1 rb1" using gx_same_simps(5)[OF R(2,3)] ok by simp
  then obtain g2 rmw2 d3 where "flush_dirty_refblocks io dev (gb_refcount_table bufs) rb1 g1 rmw1 d2 = Some (True, g2, rmw2, d3)"
    using flush_refblocks_ok[of g1 rb1 "gb_refcount_table bufs" d2 dev rmw1 0] rt Y(2,3) r(2) lr c R(2)
    unfolding flush_dirty_refblocks_def by (auto simp: gx_same_simps)
  then show ?thesis using W(1) Y(1) R(1) cz by (simp add: relocate_table_def Let_def)
qed

lemma grow_ok:
  assumes fit: "growth_fit gx plan (gb_refcount_table bufs) (gb_refblocks bufs)"
    and ap: "meta_apart (gb_refcount_table bufs) (unat (rt_offset rt_table)) (unat (rt_clusters rt_table) * unat (gx_cluster_size gx)) (unat (gx_cluster_size gx))
      (unat (gp_rt_start plan) * unat (gx_cluster_size gx)) (gx_refblock_count gx)"
    and room: "gp_new_rt_clusters plan = 0 \<longrightarrow> unat (gp_needed_slots plan) * 8 \<le> unat (rt_clusters rt_table) * unat (gx_cluster_size gx)"
    and r: "ready d" "ssz dev \<le> length (gb_rmw_sector bufs)" "grown_end plan * unat (gx_cluster_size gx) \<le> cap d dev"
  shows "\<exists>gx' bufs' d'. grow_refcounts io dev gx plan rt_table bufs d = Some (Inr (), gx', bufs', d')"
proof (rule staged_growth[OF fit ap room], goal_cases)
  case (1 rt1 g1 rb1 off)
  let ?n = "unat (gp_needed_slots plan)" let ?cs = "unat (gx_cluster_size gx)" let ?b1 = "bufs\<lparr>gb_refcount_table := rt1, gb_refblocks := rb1\<rparr>"
  note M = 1(11)[unfolded meta_apart_def] and I = 1(12-17)
  have hosts: "\<forall>k<?n. unat (rb_host_at rt1 k) + ?cs \<le> cap d dev" using M r(3) by (meson order_trans)
  have c60: "60 \<le> cap d dev" and tl: "grown_table gx plan rt_table + grown_room gx plan rt_table \<le> cap d dev" using M r(3) by linarith+
  let ?img = "slice_at (image_first gx plan * 8) (image_len gx plan) rt1"
  have l: "length ?img = image_len gx plan" by (rule length_slice[OF I(4)])
  have "unat off + length ?img \<le> cap d dev" "length ?img < 2 ^ 64" unfolding l using I(2,5,6) tl by linarith+
  then obtain g2 rmw2 d2 where P: "publish_table io dev g1 (gx_refblock_count gx) plan rt_table ?b1 d = Some (Inr (), g2, ?b1\<lparr>gb_rmw_sector := rmw2\<rparr>, d2)"
    "gx_same g1 g2" "length rmw2 = length (gb_rmw_sector bufs)" "ready d2" "cap d2 = cap d"
    using publish_ok[of g1 ?b1 d dev "gx_refblock_count gx" plan rt_table off ?img] 1(3-7) hosts r(1,2) I(1) by auto
  let ?b2 = "?b1\<lparr>gb_rmw_sector := rmw2\<rparr>"
  have g2: "gx_refblock_count g2 = ?n" "gx_cluster_size g2 = gx_cluster_size gx" "gx_entries_per_refblock g2 = gx_entries_per_refblock gx"
    using P(2) 1(3-5) by (simp_all add: gx_same_simps)
  have "gx_ok g2 (gb_refblocks ?b2)" using gx_same_simps(5)[OF P(2) refl] 1(6) by simp
  then have "\<exists>gx' bufs' d'. relocate_table io dev g2 plan rt_table ?b2 d2 = Some (Inr (), gx', bufs', d')"
    using relocate_ok[of g2 ?b2 d2 dev rt_table plan] g2 1(7,18,19) P(3-5) r(2) c60 hosts by simp
  then show ?case using 1(1,2) P(1) by (cases "0 < gp_new_rt_clusters plan") (auto simp: grow_refcounts_def)
qed

end

section \<open>Planned growth\<close>

text \<open>The inputs of a growth: the geometry of a qcow2 image with 16-bit refcounts, a run that exceeds the present coverage,
  and staging buffers of the sizes the budget names.\<close>

definition growth_budget :: "u64 \<Rightarrow> u64 \<Rightarrow> u64 \<Rightarrow> u64 \<Rightarrow> u64 \<Rightarrow> u64 \<Rightarrow> growth_caps \<Rightarrow> refcount_table \<Rightarrow> growth_buffers \<Rightarrow> bool" where
  "growth_budget epr cs fe pop slots w caps rt_table bufs \<longleftrightarrow>
     256 \<le> unat epr \<and> unat epr \<le> 2 ^ 20 \<and> unat cs = 2 * unat epr \<and> 512 dvd unat cs \<and>
     gc_max_refblocks caps \<le> 2048 \<and> pop \<le> gc_max_refblocks caps \<and> unat pop * unat epr < unat fe + unat w \<and>
     8 * unat (gc_max_rt_slots caps) \<le> length (gb_refcount_table bufs) \<and>
     unat (gc_max_refblock_clusters caps) * unat cs \<le> length (gb_refblocks bufs) \<and> unat (rt_clusters rt_table) * unat cs = 8 * unat slots"

lemma plan_fits:
  assumes bud: "growth_budget epr cs fe pop slots w caps rt_table bufs" and plan: "plan_refcount_growth epr cs fe pop slots w caps = Inr plan"
  shows "growth_fit (growth_exec_new cs epr (unat pop)) plan (gb_refcount_table bufs) (gb_refblocks bufs)" "gp_rt_start plan = fe"
    "gp_new_rt_clusters plan = 0 \<longrightarrow> unat (gp_needed_slots plan) * 8 \<le> unat (rt_clusters rt_table) * unat cs"
proof -
  note B = bud[unfolded growth_budget_def]
  let ?n = "unat (gp_needed_slots plan)" let ?cs = "unat cs" let ?e = "unat epr" let ?nrt = "unat (gp_new_rt_clusters plan)"
  have e: "256 \<le> ?e" "?cs = 2 * ?e" "?e \<le> 2 ^ 20" "512 dvd ?cs" "gc_max_refblocks caps \<le> 2048" "pop \<le> gc_max_refblocks caps" "unat pop * ?e < unat fe + unat w"
    "unat (gc_max_refblock_clusters caps) * ?cs \<le> length (gb_refblocks bufs)" "8 * unat (gc_max_rt_slots caps) \<le> length (gb_refcount_table bufs)"
    "unat (rt_clusters rt_table) * ?cs = 8 * unat slots" using B by blast+
  have "gc_max_refblocks caps \<le> 4096" using e(5) by (rule order_trans) simp
  then have P: "covers ?e ?cs (unat pop) (unat slots) (unat fe + unat w) ?n" "fits_caps ?cs (unat slots) caps ?n"
    "unat (gp_new_refblocks plan) = ?n - unat pop" "?nrt = rt_need ?cs (unat slots) ?n"
    "gp_structures_start plan = fe" "gp_rt_start plan = fe" "unat (gp_refblocks_start plan) = unat fe + ?nrt"
    using growth_plan_spec[OF e(1-3) _ e(7,6), of slots] plan by simp_all
  have S: "unat fe + ?nrt + (?n - unat pop) \<le> ?n * ?e" "unat pop * ?e < ?n * ?e" using P(1,4) e(7) unfolding covers_def structs_def by linarith+
  then have pn: "unat pop < ?n" by simp
  have c0: "0 < ?cs" using e(1,2) by simp
  have m: "?n \<le> 2048" using P(2) e(5) by (simp add: fits_caps_def word_le_nat_alt)
  have "?n \<le> unat (gc_max_refblock_clusters caps)" and fr: "?n * 8 \<le> length (gb_refcount_table bufs)" "?nrt * ?cs \<le> length (gb_refcount_table bufs)"
    using P(2,4) e(9) unfolding fits_caps_def by (blast, linarith, metis order_trans)
  then have f: "?n * ?cs \<le> length (gb_refblocks bufs)" using e(8) mult_le_mono1[of ?n "unat (gc_max_refblock_clusters caps)" ?cs] by linarith
  have r: "8 * ?n \<le> rt_need ?cs (unat slots) ?n * ?cs" if "unat slots < ?n" using that cdiv_le_iff[OF c0, of "8 * ?n" "cdiv (8 * ?n) ?cs"] by (simp add: rt_need_def)
  have z: "bitset_get (replicate 32 0) k = False" if "k < 2048" for k using that by (simp add: bitset_get_def less_mult_imp_div_less shr_def)
  show "gp_rt_start plan = fe" by (rule P(6))
  show in_place: "gp_new_rt_clusters plan = 0 \<longrightarrow> ?n * 8 \<le> unat (rt_clusters rt_table) * ?cs"
    using r P(4) e(10) by (cases "unat slots < ?n") auto
  have mv: "0 < gp_new_rt_clusters plan \<longrightarrow> ?n * 8 \<le> ?nrt * ?cs"
    using r P(4) by (cases "unat slots < ?n") (auto simp: rt_need_def word_gt_0 unat_eq_0)
  show "growth_fit (growth_exec_new cs epr (unat pop)) plan (gb_refcount_table bufs) (gb_refblocks bufs)"
    unfolding growth_fit_def growth_exec_new_def MAX_REFBLOCKS_def using e(1,3,4) P(3,5,6,7) S(1) pn m f fr mv z
    by (intro conjI) (simp_all add: e(2)[symmetric])
qed

text \<open>A disk of 254 clusters of 512 bytes: header, refcount table, refblock; the run needs coverage beyond 256 clusters.\<close>

definition ex_rt :: bytes where
  "ex_rt = u64_to_be 1024 @ replicate 504 0"

definition ex_bufs :: growth_buffers where
  "ex_bufs = \<lparr>gb_refcount_table = ex_rt, gb_refblocks = replicate 2048 0, gb_rmw_sector = replicate 512 0\<rparr>"

definition ex_disk :: bytes where
  "ex_disk = replicate 512 0 @ u64_to_be 1024 @ replicate 129528 0"

definition ex_caps :: growth_caps where
  "ex_caps = \<lparr>gc_max_refblocks = 2048, gc_max_refblock_clusters = 4, gc_max_rt_slots = 64\<rparr>"

definition ex_plan :: refcount_growth_plan where
  "ex_plan = \<lparr>gp_needed_slots = 2, gp_new_refblocks = 1, gp_structures_start = 253, gp_new_rt_clusters = 0, gp_rt_start = 253,
     gp_refblocks_start = 253, gp_worst_end_clusters = 512\<rparr>"

lemma ex_plan_planned: "plan_refcount_growth 256 512 253 1 64 10 ex_caps = Inr ex_plan"
proof -
  have "growth_rounds (Suc (Suc k)) 256 512 1 64 263 263 = Some (2, 1, 0)" for k
    by (simp add: growth_round_def Let_def saturating_add_def saturating_mul_def saturating_sub_def div_ceil_def)
  from this[of 6] have "growth_rounds GROWTH_FIXED_POINT_ROUNDS 256 512 1 64 263 263 = Some (2, 1, 0)" by (simp add: GROWTH_FIXED_POINT_ROUNDS_def del: growth_rounds.simps)
  then show ?thesis by (simp add: word_le_nat_alt[of _ 1] plan_refcount_growth_def ex_caps_def ex_plan_def Let_def saturating_add_def saturating_mul_def div_ceil_def del: growth_rounds.simps)
qed

lemma ex_growth_start: "growth_start (vec_content (\<lambda>_. ex_disk) Output) (growth_exec_new 512 256 1) \<lparr>rt_offset = 512, rt_clusters = 1\<rparr> ex_bufs 253"
proof -
  have l: "length ex_disk = 130048" by (simp add: ex_disk_def)
  have b: "bytes_at (vec_content (\<lambda>_. ex_disk) Output) off k = slice_at off k ex_disk" if "off + k \<le> 130048" for off k
    using slice_content[of off k "\<lambda>_. ex_disk" Output] l that by simp
  have h: "rb_host_at ex_rt 0 = 1024" by (simp add: rb_host_at_def ex_rt_def slice_at_def L1_OFFSET_MASK_def)
  have "slice_at 512 8 ex_disk = slice_at 0 8 ex_rt" "slice_at 1024 512 ex_disk = replicate 512 0"
    by (simp_all add: ex_disk_def ex_rt_def slice_at_def)
  then show ?thesis
    by (simp add: growth_start_def growth_exec_new_def ex_bufs_def Let_def meta_apart_def table_on_disk_def blocks_on_disk_def h b apart_def)
      (simp add: slice_at_def)
qed

section \<open>Properties\<close>

text \<open>(C9) Refcount growth publishes its plan: for a plan of the growth planner, over a device that behaves as documented and an
  image whose staged refcount metadata is on disk, \<open>grow_refcounts\<close> neither panics nor leaves the staged coverage; if it reports
  success, every slot of the grown table is on disk, where the header points, with its refblock as staged, every new structure has
  refcount one and the other refcounts are those of before (the clusters of a table that moved are free), and the other device is
  untouched; and on a healthy device with room for the new structures it succeeds.\<close>

theorem grow_refcounts_publishes:
  assumes "table_disk ct content" "growth_budget epr cs fe pop slots w caps rt_table bufs"
    "plan_refcount_growth epr cs fe pop slots w caps = Inr plan"
    "growth_start (content d dev) (growth_exec_new cs epr (unat pop)) rt_table bufs (unat fe)"
  shows "\<exists>r gx' bufs' d'.
    grow_refcounts (call_table_device (call_table_io_new ct f)) dev (growth_exec_new cs epr (unat pop)) plan rt_table bufs d = Some (r, gx', bufs', d') \<and>
    r \<noteq> Inl StageOutOfCoverage \<and>
    (r = Inr () \<longrightarrow> growth_published (content d' dev) (growth_exec_new cs epr (unat pop)) plan rt_table bufs gx' bufs' \<and>
       (\<forall>e. e \<noteq> dev \<longrightarrow> content d' e = content d e)) \<and>
    (table_healthy ct ready cap \<and> ready d \<and> ct_size ct dev \<le> length (gb_rmw_sector bufs) \<and> grown_end plan * unat cs \<le> cap d dev \<longrightarrow> r = Inr ())"
proof -
  let ?gx = "growth_exec_new cs epr (unat pop)" let ?io = "call_table_device (call_table_io_new ct f)"
  note P = plan_fits[OF assms(2,3)]
  have c: "gx_cluster_size ?gx = cs" by (simp add: growth_exec_new_def)
  have st: "growth_start (content d dev) ?gx rt_table bufs (unat (gp_rt_start plan))" using assms(4) P(2) by simp
  obtain r gx' bufs' d' where G: "grow_refcounts ?io dev ?gx plan rt_table bufs d = Some (r, gx', bufs', d')" "r \<noteq> Inl StageOutOfCoverage"
    "r = Inr () \<longrightarrow> growth_published (content d' dev) ?gx plan rt_table bufs gx' bufs' \<and> (\<forall>e. e \<noteq> dev \<longrightarrow> content d' e = content d e)"
    using sector_disk.grow_exact[OF table_sector_disk[OF assms(1)] P(1) st, of f] P(3) c by auto
  have "r = Inr ()" if H: "table_healthy ct ready cap \<and> ready d \<and> ct_size ct dev \<le> length (gb_rmw_sector bufs) \<and> grown_end plan * unat cs \<le> cap d dev"
    using healthy_disk.grow_ok[OF table_healthy_disk[OF assms(1)] P(1), of ready cap rt_table d dev f] H st P(3) c G(1)
    by (auto simp: growth_start_def Let_def)
  then show ?thesis using G by blast
qed

theorem grow_refcounts_publishes_witness:
  "\<exists>gx' bufs' d'. grow_refcounts (call_table_device (call_table_io_new (vec_table 512) False)) Output (growth_exec_new 512 256 1) ex_plan
       \<lparr>rt_offset = 512, rt_clusters = 1\<rparr> ex_bufs (\<lambda>_. ex_disk) = Some (Inr (), gx', bufs', d') \<and>
     growth_published (vec_content d' Output) (growth_exec_new 512 256 1) ex_plan \<lparr>rt_offset = 512, rt_clusters = 1\<rparr> ex_bufs gx' bufs'"
proof -
  have b: "growth_budget 256 512 253 1 64 10 ex_caps \<lparr>rt_offset = 512, rt_clusters = 1\<rparr> ex_bufs"
    by (simp add: growth_budget_def ex_caps_def ex_bufs_def ex_rt_def)
  have h: "table_healthy (vec_table 512) (vec_ready 512) vec_cap" by (rule vec_table_healthy) simp
  have "vec_ready 512 (\<lambda>_. ex_disk)" "vec_cap (\<lambda>_. ex_disk) Output = 130048" by (simp_all add: vec_ready_def vec_cap_def ex_disk_def)
  then show ?thesis
    using grow_refcounts_publishes[OF vec_table_disk b ex_plan_planned, of "\<lambda>_. ex_disk" Output 512 False "vec_ready 512" vec_cap] ex_growth_start h
    by (auto simp: vec_access ex_plan_def ex_bufs_def)
qed

end
