(* ===== verification/Spec2Isabelle.thy ===== *)
theory Spec2Isabelle
  imports Commit_Window Snapshot_Copied Snapshot_Table Growth_Exec
begin

text \<open>
  A verification of the qcow2 write path of instar, a tool that manipulates disk images inside a small virtual
  machine.  Paths below are relative to \<^verbatim>\<open>src/src/\<close>.

  \<^bold>\<open>The program.\<close>  The shared write engine is planned and executed separately.  The planner crate
  \<^verbatim>\<open>crates/qcow2-write\<close> turns a write or flush request into windows of steps (sector-range reads and writes, patches
  of staged tables, barriers) and changes only its own state and the staged refcount blocks; the executor crate
  \<^verbatim>\<open>crates/qcow2-write-exec\<close> performs the steps against devices and memory regions.  An operation such as
  \<^verbatim>\<open>operations/commit\<close> loops over the two.  Before a run, the growth planner (\<^verbatim>\<open>qcow2-write/src/growth.rs\<close>) and its
  executor (\<^verbatim>\<open>qcow2-write-exec/src/growth.rs\<close>) extend the refcount coverage.  The crate \<^verbatim>\<open>crates/snapshot\<close> has the
  refcount block accessors and allocator that both use, the refcount and COPIED-flag passes over L1 and L2 tables, and
  the codec of the snapshot table.  \<^verbatim>\<open>crates/qcow2\<close> parses headers and classifies table entries.

  \<^bold>\<open>Representation.\<close>  \<open>u8\<close> to \<open>u64\<close> are words of that width, with the wrap-around of a release build; \<open>usize\<close> is a
  natural number, with the checked operations of the source bounded at 64 bits; a byte slice is a list of 8-bit words and
  a slice mutated in place is returned by the function; \<open>Result\<close> is a sum with the error on the left; a panic (index or
  slice out of range, division by zero) is \<open>None\<close>, or \<open>Panicked\<close> in the planner loops.  Closures and device tables are
  arguments.  A crate that returns an error after changing its arguments returns both.

  \<^bold>\<open>Theories.\<close>
    \<^item> \<open>Instar_Base\<close>: machine types, the operations of the Rust standard library that the sources call, slices and
      big-endian codecs, with the lemma collections \<open>slicing\<close> and \<open>wordnat\<close>.
    \<^item> \<open>Refcount_Blocks\<close> (\<^verbatim>\<open>snapshot/src/qcow2.rs\<close>): \<open>read_refcount_in_block\<close>, \<open>set_refcount_in_block\<close>,
      \<open>check_refcount_after_addend\<close>, \<open>alloc_contiguous_clusters_in_refblocks\<close>.  The locale \<open>counter_array\<close> is the contract
      of the accessors, interpreted for 1, 16 and 64 bits.  Reads see the last store, accesses are bounded, the
      allocator is first fit.
    \<^item> \<open>Qcow2_Format\<close> (\<^verbatim>\<open>qcow2/src/lib.rs\<close>): \<open>QcowHeader::parse\<close> as \<open>parse_header\<close>, cluster and subcluster types, the
      descriptor of compressed clusters.  What an accepted header guarantees, maximal subcluster runs, round trip.
    \<^item> \<open>Write_Types\<close>, \<open>Write_Plan\<close> (\<^verbatim>\<open>qcow2-write/src/lib.rs\<close>): geometry, steps, step buffer, envelope gates, the L2
      slot window, and \<open>plan_write\<close> / \<open>plan_flush\<close>.  One definition per stage of \<open>drive_write\<close> (\<open>dw_enter\<close> to
      \<open>dw_tail_done\<close>, \<open>dw_cow_l2_load\<close> to \<open>dw_cow_data_decrement\<close>); \<open>dw_step\<close> and \<open>df_step\<close> are the two loop bodies.
    \<^item> \<open>Write_Staging\<close>, \<open>Write_Safety\<close>: the planner invariant \<open>plan_inv\<close>, kept by every stage; a weakest-precondition
      style predicate \<open>wp\<close> carries it through the stages.  Totality, no write to a shared cluster, data before pointers.
    \<^item> \<open>Write_Flush\<close>: the emitted flush stream is \<open>flush_skeleton\<close> for any sequence of window capacities.
    \<^item> \<open>Write_Progress\<close>: every window of \<open>plan_write\<close> shortens the request or clears a pending copy-on-write load.
    \<^item> \<open>Step_Exec\<close> (\<^verbatim>\<open>qcow2-write-exec/src/lib.rs\<close>): region resolution, byte ranges over sectors, the step kinds,
      \<open>execute\<close>, and \<open>CallTableIo\<close>.  The functions of the call table are parameters.
    \<^item> \<open>Step_Refine\<close>, \<open>Step_Frame\<close>: the contracts \<open>apply_step\<close> over flat disks; the locales \<open>sector_disk\<close>, \<open>healthy_disk\<close>
      and \<open>frame_io\<close> state what devices promise and are interpreted on a call table over byte vectors.  A successful run
      is the fold of the contracts; healthy devices make runs succeed; a run never touches what no step names.
    \<^item> \<open>Commit_Window\<close> (\<^verbatim>\<open>operations/commit/src/main.rs\<close>): \<open>staged_view\<close>, \<open>exec_window\<close> and the write and flush loops of
      \<open>run_qcow2\<close>.  Both loops end; the flush loop leaves the disks that the skeleton describes.
    \<^item> \<open>Refcount_Growth\<close> (\<^verbatim>\<open>qcow2-write/src/growth.rs\<close>), \<open>Growth_Exec\<close> (\<^verbatim>\<open>qcow2-write-exec/src/growth.rs\<close>): the planner
      returns the least self-covering slot count; \<open>grow_refcounts\<close> on its plans leaves the disk with the grown table,
      the new refblocks and the right refcounts.
    \<^item> \<open>Snapshot_Walk\<close>, \<open>Snapshot_Copied\<close> (\<^verbatim>\<open>snapshot/src/qcow2.rs\<close>, and \<open>rb_lookup\<close> of \<^verbatim>\<open>operations/snapshot\<close>): the
      cluster visitor, the dry-run and apply passes and the COPIED walk.  The locale \<open>counted_store\<close> is the contract of
      a refcount update, interpreted for increments and decrements on the staged blocks.
    \<^item> \<open>Snapshot_Table\<close> (\<^verbatim>\<open>snapshot/src/table.rs\<close>): entry serialisation, append, removal and lookup refine operations on
      the list of entries.
    \<^item> \<open>Example_Image\<close>: a concrete image on which the hypotheses are evaluated.

  \<^bold>\<open>Loops and bounds.\<close>  \<open>drive_write\<close>, \<open>drive_flush\<close>, the byte-range loops and the growth flush are total functions with
  termination measures; no fuel is used in them.  The plan and execute loops of commit are partial functions into options, and
  their termination is a theorem.  The fixed point of the growth planner has the source's bound of eight rounds, proved
  sufficient for the cluster sizes of the format.

  \<^bold>\<open>Not modelled.\<close>  The virtual machine monitor, boot code and drivers (host processes, ioctls and memory-mapped registers);
  the parsers of the other image formats and the planners of the other operations; the rest of the guest operations, which
  move bytes between fixed scratch addresses and the call table (of commit: configuration, staging of the metadata, the walk
  over the overlay, result reporting); in \<^verbatim>\<open>crates/qcow2\<close>, the cluster reader, chain traversal and decompression, which
  call third-party code.  Concurrency does not occur: a guest operation is single threaded.
\<close>

end
